(* ===== verification/Prelude.thy ===== *)
theory Prelude
  imports Main "HOL-Library.Word"
begin

text \<open>
  Shared vocabulary of the development: names of the machine word types, the
  result type of operations that may abort, C++ \<open>int\<close> arithmetic in which an
  overflow is an error value, the index sequence of a strided device loop, and
  reachability for step relations together with the invariant rule that every
  state machine of the development is an instance of.
\<close>

section \<open>Types\<close>

type_synonym u8 = "8 word"
type_synonym u16 = "16 word"
type_synonym u32 = "32 word"
type_synonym u64 = "64 word"

text \<open>
  An operation that can end the program returns a value of type \<open>'a result\<close>.
  \<open>UB\<close> is C++ undefined behaviour (a signed overflow, a division by zero),
  \<open>Assert_fail\<close> a failed \<open>assert\<close>, \<open>Aborted\<close> a call of \<open>abort\<close> or
  \<open>LOG_ERROR_ABORT\<close>, \<open>Out_of_bounds\<close> an access outside an allocation.
\<close>

datatype error = UB | Assert_fail | Aborted | Out_of_bounds

type_synonym 'a result = "error + 'a"

definition bind_r :: "'a result \<Rightarrow> ('a \<Rightarrow> 'b result) \<Rightarrow> 'b result" where
  "bind_r r f = (case r of Inl e \<Rightarrow> Inl e | Inr x \<Rightarrow> f x)"

definition assert_r :: "bool \<Rightarrow> 'a result \<Rightarrow> 'a result" where
  "assert_r b r = (if b then r else Inl Assert_fail)"

section \<open>C++ int arithmetic\<close>

definition int_max :: int where "int_max = 2147483647"
definition int_min :: int where "int_min = - 2147483648"

definition is_c_int :: "int \<Rightarrow> bool" where
  "is_c_int x \<longleftrightarrow> int_min \<le> x \<and> x \<le> int_max"

definition c_int :: "int \<Rightarrow> int result" where
  "c_int x = (if is_c_int x then Inr x else Inl UB)"

definition c_add :: "int \<Rightarrow> int \<Rightarrow> int result" where "c_add x y = c_int (x + y)"
definition c_sub :: "int \<Rightarrow> int \<Rightarrow> int result" where "c_sub x y = c_int (x - y)"
definition c_mul :: "int \<Rightarrow> int \<Rightarrow> int result" where "c_mul x y = c_int (x * y)"

text \<open>Division rounds towards zero and the remainder has the sign of the dividend.\<close>

definition trunc_div :: "int \<Rightarrow> int \<Rightarrow> int" where
  "trunc_div x y = sgn x * sgn y * (\<bar>x\<bar> div \<bar>y\<bar>)"

definition c_div :: "int \<Rightarrow> int \<Rightarrow> int result" where
  "c_div x y = (if y = 0 then Inl UB else c_int (trunc_div x y))"

definition c_mod :: "int \<Rightarrow> int \<Rightarrow> int result" where
  "c_mod x y = (if y = 0 then Inl UB else bind_r (c_div x y) (\<lambda>q. c_int (x - q * y)))"

section \<open>Strided loops\<close>

text \<open>
  The values of \<open>i\<close> in the body of \<open>for (i = a; i < n; i += s)\<close>, for a positive
  stride. Device code runs such a loop in every thread of a block or wavefront
  with \<open>a\<close> the thread's id and \<open>s\<close> the number of threads.
\<close>

function strided :: "nat \<Rightarrow> nat \<Rightarrow> nat \<Rightarrow> nat list" where
  "strided a n s = (if a < n \<and> 0 < s then a # strided (a + s) n s else [])"
  by pat_completeness auto
termination by (relation "measure (\<lambda>(a, n, s). n - a)") auto

section \<open>Ring buffers\<close>

text \<open>The \<open>n\<close> elements of a circular buffer that starts at index \<open>h\<close>.\<close>

definition ring_view :: "'a list \<Rightarrow> nat \<Rightarrow> nat \<Rightarrow> 'a list" where
  "ring_view buf h n = map (\<lambda>k. buf ! ((h + k) mod length buf)) [0..<n]"

section \<open>Reachability\<close>

inductive reachable :: "('s \<Rightarrow> bool) \<Rightarrow> ('s \<Rightarrow> 's \<Rightarrow> bool) \<Rightarrow> 's \<Rightarrow> bool"
  for init :: "'s \<Rightarrow> bool" and step :: "'s \<Rightarrow> 's \<Rightarrow> bool" where
  reach_init: "init s \<Longrightarrow> reachable init step s"
| reach_step: "reachable init step s \<Longrightarrow> step s t \<Longrightarrow> reachable init step t"

section \<open>Lemmas\<close>

named_theorems c_arith "evaluation of C++ int operations inside the int range"

lemma bind_r_simps [simp]:
  "bind_r (Inl e) f = Inl e" "bind_r (Inr x) f = f x"
  by (simp_all add: bind_r_def)

lemma bind_r_eq_Inr:
  "bind_r r f = Inr y \<longleftrightarrow> (\<exists>x. r = Inr x \<and> f x = Inr y)"
  by (cases r) auto

lemma assert_r_eq_Inr [simp]: "assert_r b r = Inr y \<longleftrightarrow> b \<and> r = Inr y"
  by (simp add: assert_r_def)

lemma c_int_eq_Inr [simp]: "c_int x = Inr y \<longleftrightarrow> is_c_int x \<and> y = x"
  by (auto simp: c_int_def)

lemma is_c_int_nonneg: "0 \<le> x \<Longrightarrow> is_c_int x \<longleftrightarrow> x \<le> int_max"
  by (simp add: is_c_int_def int_min_def)

lemma is_c_int_mono: "0 \<le> x \<Longrightarrow> x \<le> y \<Longrightarrow> is_c_int y \<Longrightarrow> is_c_int x"
  by (simp add: is_c_int_def int_min_def)

lemma c_add_ok [c_arith]: "is_c_int (x + y) \<Longrightarrow> c_add x y = Inr (x + y)"
  and c_sub_ok [c_arith]: "is_c_int (x - y) \<Longrightarrow> c_sub x y = Inr (x - y)"
  and c_mul_ok [c_arith]: "is_c_int (x * y) \<Longrightarrow> c_mul x y = Inr (x * y)"
  by (simp_all add: c_add_def c_sub_def c_mul_def)

lemma trunc_div_nonneg: "0 \<le> x \<Longrightarrow> 0 < y \<Longrightarrow> trunc_div x y = x div y"
  by (cases "x = 0") (simp_all add: trunc_div_def)

lemma c_div_ok [c_arith]:
  assumes "0 \<le> x" "0 < y" "is_c_int x"
  shows "c_div x y = Inr (x div y)"
proof -
  have "0 \<le> x div y" "x div y \<le> x"
    using assms zdiv_mono2 [of x 1 y] by (simp_all add: pos_imp_zdiv_nonneg_iff)
  then show ?thesis
    using assms by (simp add: c_div_def trunc_div_nonneg is_c_int_mono)
qed

lemma c_mod_ok [c_arith]:
  assumes "0 \<le> x" "0 < y" "is_c_int x"
  shows "c_mod x y = Inr (x mod y)"
proof -
  have "x - x div y * y = x mod y" by (simp add: minus_div_mult_eq_mod)
  moreover have "is_c_int (x mod y)"
    using assms by (rule_tac is_c_int_mono [of _ x]) (simp_all add: zmod_le_nonneg_dividend)
  ultimately show ?thesis using assms by (simp add: c_mod_def c_div_ok)
qed

lemma sint_ucast_small:
  fixes x :: u64
  assumes "unat x \<le> 2147483647"
  shows "sint (ucast x :: u32) = uint x"
proof -
  have "int (unat x) \<le> 2147483647" using assms by linarith
  then have *: "0 \<le> uint x" "uint x < 2 ^ 31" by simp_all
  have "sint (ucast x :: u32) = signed_take_bit 31 (uint x)"
    by (subst signed_ucast_eq) simp
  also have "\<dots> = uint x"
    by (rule signed_take_bit_int_eq_self) (use * in linarith)+
  finally show ?thesis .
qed

declare strided.simps [simp del]

lemma strided_empty [simp]: "n \<le> a \<Longrightarrow> strided a n s = []"
  by (simp add: strided.simps)

lemma strided_unfold: "a < n \<Longrightarrow> 0 < s \<Longrightarrow> strided a n s = a # strided (a + s) n s"
  by (simp add: strided.simps)

lemma strided_next:
  fixes s a k :: nat
  assumes "0 < s" "a \<le> k" "k mod s = a mod s"
  shows "k = a \<or> a + s \<le> k"
proof (rule ccontr)
  assume "\<not> (k = a \<or> a + s \<le> k)"
  then have "0 < k - a" "k - a < s" using assms by auto
  moreover have "s dvd k - a" using assms by (metis mod_eq_dvd_iff_nat)
  ultimately show False using nat_dvd_not_less by blast
qed

lemma set_strided:
  assumes "0 < s"
  shows "set (strided a n s) = {k. a \<le> k \<and> k < n \<and> k mod s = a mod s}"
  using assms
proof (induction a n s rule: strided.induct)
  case (1 a n s)
  show ?case
  proof (cases "a < n")
    case True
    have iff: "a \<le> k \<and> k mod s = a mod s \<longleftrightarrow> k = a \<or> a + s \<le> k \<and> k mod s = (a + s) mod s" for k
      using strided_next [of s a k] 1(2) by auto
    have "set (strided a n s) = insert a {k. a + s \<le> k \<and> k < n \<and> k mod s = (a + s) mod s}"
      using True 1 by (simp add: strided_unfold)
    also have "\<dots> = {k. a \<le> k \<and> k < n \<and> k mod s = a mod s}"
      using True iff by blast
    finally show ?thesis .
  qed auto
qed

lemma distinct_strided: "distinct (strided a n s)"
proof (induction a n s rule: strided.induct)
  case (1 a n s)
  show ?case
  proof (cases "a < n \<and> 0 < s")
    case True
    then have "a \<notin> set (strided (a + s) n s)" by (simp add: set_strided)
    then show ?thesis using 1 True by (simp add: strided_unfold)
  qed (simp add: strided.simps)
qed

text \<open>
  Threads \<open>0, \<dots>, s - 1\<close> of a strided loop share the range: every index is
  visited by exactly one thread, the one whose id is the index modulo \<open>s\<close>.
\<close>

lemma strided_owner:
  assumes "t < s" "k < n"
  shows "k \<in> set (strided t n s) \<longleftrightarrow> t = k mod s"
  using assms mod_less_eq_dividend [of k s] by (auto simp: set_strided)

lemma strided_partition:
  "0 < s \<Longrightarrow> (\<Union>t\<in>{..<s}. set (strided t n s)) = {..<n}"
proof (intro equalityI subsetI)
  fix k assume "0 < s" "k \<in> {..<n}"
  then have "k \<in> set (strided (k mod s) n s)" by (simp add: strided_owner)
  then show "k \<in> (\<Union>t\<in>{..<s}. set (strided t n s))" using \<open>0 < s\<close> by force
qed (simp add: set_strided)

lemma strided_disjoint:
  "t < s \<Longrightarrow> u < s \<Longrightarrow> t \<noteq> u \<Longrightarrow> set (strided t n s) \<inter> set (strided u n s) = {}"
  by (auto simp: set_strided)

lemma length_ring_view [simp]: "length (ring_view buf h n) = n"
  by (simp add: ring_view_def)

lemma ring_index_inj:
  fixes h i j n :: nat
  assumes "i < n" "j < n" "(h + i) mod n = (h + j) mod n"
  shows "i = j"
  using assms
proof (induction i j rule: linorder_wlog)
  case (le i j)
  then have "n dvd (h + j) - (h + i)" by (metis add_le_cancel_left mod_eq_dvd_iff_nat)
  then show ?case using le nat_dvd_not_less [of "j - i" n] by fastforce
qed auto

lemma ring_view_snoc:
  assumes "n < length buf"
  shows "ring_view (buf[(h + n) mod length buf := v]) h (Suc n) = ring_view buf h n @ [v]"
proof -
  have "(h + k) mod length buf \<noteq> (h + n) mod length buf" if "k < n" for k
    using ring_index_inj [of k "length buf" n h] assms that by auto
  moreover have "(h + n) mod length buf < length buf" using assms by (intro mod_less_divisor) auto
  ultimately show ?thesis by (auto simp: ring_view_def nth_list_update) blast
qed

lemma ring_view_Cons:
  "ring_view buf h (Suc n) = buf ! (h mod length buf) # ring_view buf (Suc h mod length buf) n"
proof -
  have "[0..<Suc n] = 0 # map Suc [0..<n]" by (simp add: upt_conv_Cons map_Suc_upt del: upt_Suc)
  then show ?thesis by (simp add: ring_view_def mod_add_left_eq del: upt_Suc)
qed

text \<open>The invariant rule as an interface: a state machine supplies its initial
  states, its steps and an inductive predicate.\<close>

locale invariant_system =
  fixes init :: "'s \<Rightarrow> bool" and step :: "'s \<Rightarrow> 's \<Rightarrow> bool" and inv :: "'s \<Rightarrow> bool"
  assumes inv_init: "init s \<Longrightarrow> inv s"
    and inv_step: "inv s \<Longrightarrow> step s t \<Longrightarrow> inv t"
begin

lemma reachable_inv: "reachable init step s \<Longrightarrow> inv s"
  by (induction rule: reachable.induct) (auto intro: inv_init inv_step)

lemma steps_inv: "step\<^sup>*\<^sup>* s t \<Longrightarrow> inv s \<Longrightarrow> inv t"
  by (induction rule: rtranclp.induct) (auto intro: inv_step)

end

lemma reachable_relpowp:
  assumes "init s"
  shows "(step ^^ k) s t \<Longrightarrow> reachable init step t"
proof (induction k arbitrary: t)
  case 0
  then show ?case using assms by (auto intro: reach_init)
next
  case (Suc k)
  then obtain u where u: "(step ^^ k) s u" "step u t" by auto
  then have "reachable init step u" using Suc by blast
  then show ?case using u(2) by (rule reach_step)
qed

text \<open>A sum of bounded numbers reaches its bound when each of them does.\<close>

lemma sum_at_bounds:
  fixes g K :: "nat \<Rightarrow> nat"
  assumes "\<And>p. p < n \<Longrightarrow> g p \<le> K p \<and> (g p = K p \<longleftrightarrow> P p)"
  shows "(\<Sum>p<n. g p) \<le> (\<Sum>p<n. K p) \<and> ((\<Sum>p<n. g p) = (\<Sum>p<n. K p) \<longleftrightarrow> (\<forall>p<n. P p))"
proof -
  have "(\<Sum>p<n. g p) \<le> (\<Sum>p<n. K p)" by (rule sum_mono) (use assms in simp)
  moreover have "(\<Sum>p<n. g p) = (\<Sum>p<n. K p) \<longleftrightarrow> (\<forall>p\<in>{..<n}. g p = K p)"
    using sum_mono_inv [of g "{..<n}" K] assms by (auto intro: sum.cong)
  ultimately show ?thesis using assms by auto
qed

lemma sum_at_bound:
  fixes g :: "nat \<Rightarrow> nat"
  assumes "\<And>p. p < n \<Longrightarrow> g p \<le> K \<and> (g p = K \<longleftrightarrow> P p)"
  shows "(\<Sum>p<n. g p) \<le> n * K \<and> ((\<Sum>p<n. g p) = n * K \<longleftrightarrow> (\<forall>p<n. P p))"
  using sum_at_bounds [of n g "\<lambda>_. K"] assms by simp

text \<open>A machine that counts its steps: it cannot stop before it has finished, and it has finished
  after a fixed number of steps.\<close>

locale progress_system = invariant_system +
  fixes progress :: "'a \<Rightarrow> nat" and bound :: nat and finished :: "'a \<Rightarrow> bool"
  assumes progress_init: "init s \<Longrightarrow> progress s = 0"
    and progress_step: "inv s \<Longrightarrow> step s t \<Longrightarrow> progress t = Suc (progress s)"
    and progress_bound: "inv s \<Longrightarrow> progress s \<le> bound \<and> (progress s = bound \<longleftrightarrow> finished s)"
    and not_stuck: "inv s \<Longrightarrow> \<nexists>t. step s t \<Longrightarrow> finished s"
begin

lemma progress_steps:
  assumes "init s"
  shows "(step ^^ k) s t \<Longrightarrow> progress t = k"
proof (induction k arbitrary: t)
  case 0
  then show ?case using progress_init [OF assms] by simp
next
  case (Suc k)
  then obtain u where u: "(step ^^ k) s u" "step u t" by auto
  then have "inv u" using reachable_inv reachable_relpowp [of init, OF assms] by blast
  then show ?case using progress_step u Suc.IH [of u] by simp
qed

lemma completes:
  assumes "init s0" "(step ^^ k) s0 s"
  shows "k \<le> bound \<and> ((\<nexists>t. step s t) \<longleftrightarrow> finished s) \<and> (finished s \<longleftrightarrow> k = bound)"
proof -
  have inv: "inv s" using reachable_inv reachable_relpowp [of init, OF assms] by blast
  have k: "progress s = k" using progress_steps [OF assms] .
  have "\<nexists>t. step s t" if "finished s"
  proof
    assume "\<exists>t. step s t"
    then obtain t where t: "step s t" by blast
    then have "progress t = Suc bound" using progress_step [OF inv t] progress_bound [OF inv] that by simp
    then show False using progress_bound [OF inv_step [OF inv t]] by simp
  qed
  then show ?thesis using not_stuck [OF inv] progress_bound [OF inv] k by auto
qed

lemma runs_to_end:
  assumes "init s"
  shows "\<exists>t. reachable init step t \<and> finished t"
proof (rule ccontr)
  assume no: "\<not> ?thesis"
  have "\<exists>t. (step ^^ k) s t" for k
  proof (induction k)
    case (Suc k)
    then obtain t where t: "(step ^^ k) s t" by blast
    then have reach: "reachable init step t" using reachable_relpowp [of init, OF assms] by blast
    then obtain u where "step t u" using no not_stuck [OF reachable_inv [OF reach]] by blast
    then show ?case using t by auto
  qed auto
  then obtain t where "(step ^^ Suc bound) s t" by blast
  then show False using completes [OF assms] by fastforce
qed

end

end
