(* ===== verification/Team.thy ===== *)
theory Team
  imports Prelude
begin

text \<open>
  Teams of processing elements (\<open>src/team.hpp\<close>, \<open>src/team.cpp\<close>), the tracker of
  user teams (\<open>src/team_tracker.hpp\<close>, \<open>src/team_tracker.cpp\<close>) and the two split
  operations of \<open>src/rocshmem.cpp\<close>. A team handle is the address of a team
  object, \<open>None\<close> standing for \<open>ROCSHMEM_TEAM_INVALID\<close>; the objects live in the
  backend's store. The virtual call \<open>backend->create_new_team\<close> and MPI's
  \<open>Comm_split\<close> are arguments of the split operations; the locale \<open>team_creator\<close>
  is the contract of the former.
\<close>

section \<open>Data\<close>

type_synonym team_t = "nat option"
type_synonym comm = "nat option"

record team_info =
  parent_team :: team_t
  pe_start :: int
  stride :: int
  ti_size :: int

text \<open>\<open>pool_index_\<close> is the field that the subclasses \<open>IPCTeam\<close> and \<open>GDATeam\<close> add.\<close>

record team =
  world_size :: int
  my_pe_in_world :: int
  tinfo_wrt_world :: team_info
  tinfo_wrt_parent :: team_info
  team_num_pes :: int
  team_my_pe :: int
  mpi_comm :: comm
  pool_index :: int

record team_tracker =
  use_ipc :: bool
  teams :: "team_t list"
  max_num_teams :: u64
  team_world :: team_t
  team_shared :: team_t

record backend =
  num_pes :: int
  my_pe :: int
  tracker :: team_tracker
  team_objs :: "nat \<Rightarrow> team option"

type_synonym 'b creator =
  "'b backend_scheme \<Rightarrow> nat \<Rightarrow> team_info \<Rightarrow> team_info \<Rightarrow> int \<Rightarrow> int \<Rightarrow> comm
     \<Rightarrow> ('b backend_scheme \<times> team_t) result"

section \<open>Operations\<close>

subsection \<open>Rank translation\<close>

definition get_pe_in_world :: "team \<Rightarrow> int \<Rightarrow> int result" where
  "get_pe_in_world t pe =
     bind_r (c_mul (stride (tinfo_wrt_world t)) pe) (\<lambda>m.
       c_add (pe_start (tinfo_wrt_world t)) m)"

definition get_pe_in_my_team :: "team \<Rightarrow> int \<Rightarrow> int result" where
  "get_pe_in_my_team t pe_in_world =
     (if pe_in_world < pe_start (tinfo_wrt_world t) then Inr (- 1)
      else bind_r (c_sub pe_in_world (pe_start (tinfo_wrt_world t))) (\<lambda>d.
        bind_r (c_mod d (stride (tinfo_wrt_world t))) (\<lambda>r.
          if r \<noteq> 0 then Inr (- 1)
          else bind_r (c_div d (stride (tinfo_wrt_world t))) (\<lambda>q.
            if q \<ge> team_num_pes t then Inr (- 1) else Inr q))))"

definition get_internal_team :: "(nat \<Rightarrow> team option) \<Rightarrow> nat \<Rightarrow> team result" where
  "get_internal_team objs h = (case objs h of None \<Rightarrow> Inl Out_of_bounds | Some t \<Rightarrow> Inr t)"

definition team_translate_pe ::
  "(nat \<Rightarrow> team option) \<Rightarrow> team_t \<Rightarrow> int \<Rightarrow> team_t \<Rightarrow> int result" where
  "team_translate_pe objs src_team src_pe dst_team =
     (case (src_team, dst_team) of
        (Some s, Some d) \<Rightarrow>
          bind_r (get_internal_team objs s) (\<lambda>src.
          bind_r (get_internal_team objs d) (\<lambda>dst.
          bind_r (get_pe_in_world src src_pe) (\<lambda>w.
          get_pe_in_my_team dst w)))
      | _ \<Rightarrow> Inr (- 1))"

definition rocshmem_team_n_pes :: "(nat \<Rightarrow> team option) \<Rightarrow> team_t \<Rightarrow> int result" where
  "rocshmem_team_n_pes objs t =
     (case t of None \<Rightarrow> Inr (- 1) | Some h \<Rightarrow> bind_r (get_internal_team objs h) (\<lambda>t. Inr (team_num_pes t)))"

definition rocshmem_team_my_pe :: "(nat \<Rightarrow> team option) \<Rightarrow> team_t \<Rightarrow> int result" where
  "rocshmem_team_my_pe objs t =
     (case t of None \<Rightarrow> Inr (- 1) | Some h \<Rightarrow> bind_r (get_internal_team objs h) (\<lambda>t. Inr (team_my_pe t)))"

subsection \<open>The team tracker\<close>

definition NUM_RESERVED_TEAMS :: "bool \<Rightarrow> u64" where
  "NUM_RESERVED_TEAMS ipc = (if ipc then 2 else 1)"

definition new_tracker :: "bool \<Rightarrow> u64 \<Rightarrow> team_tracker" where
  "new_tracker ipc env_max =
     \<lparr>use_ipc = ipc, teams = [], max_num_teams = env_max + NUM_RESERVED_TEAMS ipc,
      team_world = None, team_shared = None\<rparr>"

definition track :: "team_t \<Rightarrow> team_tracker \<Rightarrow> team_tracker" where
  "track t k = (if t = None then k else k\<lparr>teams := teams k @ [t]\<rparr>)"

definition untrack :: "team_t \<Rightarrow> team_tracker \<Rightarrow> team_tracker result" where
  "untrack t k = assert_r (t \<in> set (teams k)) (Inr (k\<lparr>teams := remove1 t (teams k)\<rparr>))"

text \<open>\<open>destroy_all\<close> with the destroyer acting on a state of its own.\<close>

function destroy_all :: "(team_t \<Rightarrow> 's \<Rightarrow> 's) \<Rightarrow> team_tracker \<Rightarrow> 's \<Rightarrow> team_tracker \<times> 's" where
  "destroy_all f k s =
     (if teams k = [] then (k, s)
      else destroy_all f (k\<lparr>teams := butlast (teams k)\<rparr>) (f (last (teams k)) s))"
  by pat_completeness auto
termination by (relation "measure (\<lambda>(f, k, s). length (teams k))") auto

definition get_num_user_teams :: "team_tracker \<Rightarrow> u64" where
  "get_num_user_teams k = word_of_nat (length (teams k))"

text \<open>The \<open>size_t\<close> field is returned as an \<open>int\<close>.\<close>

definition get_max_num_teams :: "team_tracker \<Rightarrow> int" where
  "get_max_num_teams k = sint (ucast (max_num_teams k) :: u32)"

subsection \<open>Splitting a team\<close>

definition pe_in_active_set :: "int \<Rightarrow> int \<Rightarrow> int \<Rightarrow> int \<Rightarrow> int result" where
  "pe_in_active_set start str sz pe =
     bind_r (c_sub pe start) (\<lambda>d. bind_r (c_div d str) (\<lambda>q.
       if pe < start then Inr (- 1)
       else bind_r (c_mod d str) (\<lambda>r.
         if r \<noteq> 0 \<or> q \<ge> sz then Inr (- 1) else Inr q)))"

definition ROCSHMEM_SUCCESS :: int where "ROCSHMEM_SUCCESS = 0"
definition ROCSHMEM_ERROR :: int where "ROCSHMEM_ERROR = 1"

definition no_team_left :: "team_tracker \<Rightarrow> bool" where
  "no_team_left k \<longleftrightarrow>
     get_num_user_teams k \<ge> word_of_int (get_max_num_teams k) - NUM_RESERVED_TEAMS (use_ipc k)"

definition rocshmem_team_split_strided ::
  "(comm \<Rightarrow> int option \<Rightarrow> int \<Rightarrow> comm) \<Rightarrow> 'b creator \<Rightarrow> 'b backend_scheme
     \<Rightarrow> team_t \<Rightarrow> int \<Rightarrow> int \<Rightarrow> int \<Rightarrow> ('b backend_scheme \<times> int \<times> team_t) result" where
  "rocshmem_team_split_strided comm_split create b parent start str sz =
     (if no_team_left (tracker b) then Inr (b, - 1, None)
      else case parent of None \<Rightarrow> Inr (b, 0, None)
      | Some ph \<Rightarrow> bind_r (get_internal_team (team_objs b) ph) (\<lambda>p.
          if start < 0 \<or> start \<ge> team_num_pes p \<or> sz < 1 \<or> sz > team_num_pes p \<or> str < 1
          then Inr (b, - 1, None)
          else
            bind_r (get_pe_in_world p start) (\<lambda>pe_start_w.
            bind_r (c_mul str (stride (tinfo_wrt_world p))) (\<lambda>str_w.
            bind_r (bind_r (c_mul str_w (sz - 1)) (c_add pe_start_w)) (\<lambda>pe_end_w.
            if pe_end_w > num_pes b then Inr (b, - 1, None)
            else bind_r (pe_in_active_set pe_start_w str_w sz (my_pe b)) (\<lambda>my_new.
              let wrt_parent = \<lparr>parent_team = Some ph, pe_start = start, stride = str, ti_size = sz\<rparr>;
                  wrt_world = \<lparr>parent_team = team_world (tracker b), pe_start = pe_start_w,
                               stride = str_w, ti_size = sz\<rparr>;
                  team_comm = (if mpi_comm p \<noteq> None \<and> mpi_comm p \<noteq> Some 0
                               then comm_split (mpi_comm p) (if my_new < 0 then None else Some 1) (my_pe b)
                               else None)
              in if my_new < 0 then Inr (b, 0, None)
                 else bind_r (create b ph wrt_parent wrt_world sz my_new team_comm) (\<lambda>(b', t).
                   if t = None then Inr (b', ROCSHMEM_ERROR, None)
                   else Inr (b'\<lparr>tracker := track t (tracker b')\<rparr>, 0, t))))))))"

text \<open>The two loops of \<open>rocshmem_team_split_2d\<close>; \<open>split\<close> is \<open>rocshmem_team_split_strided\<close>
  on the parent, the last argument the remaining values of the loop variable.\<close>

fun xteam_loop ::
  "('b backend_scheme \<Rightarrow> int \<Rightarrow> int \<Rightarrow> int \<Rightarrow> ('b backend_scheme \<times> int \<times> team_t) result)
     \<Rightarrow> int \<Rightarrow> int \<Rightarrow> int \<Rightarrow> 'b backend_scheme \<Rightarrow> int \<Rightarrow> team_t \<Rightarrow> int list
     \<Rightarrow> ('b backend_scheme \<times> int \<times> team_t) result" where
  "xteam_loop split xr n rem b start xaxis [] = Inr (b, ROCSHMEM_SUCCESS, xaxis)"
| "xteam_loop split xr n rem b start xaxis (i # is) =
     bind_r (split b start 1 (if i = n - 1 \<and> rem \<noteq> 0 then rem else xr)) (\<lambda>(b', ret, t).
       if ret \<noteq> 0 then Inr (b', ROCSHMEM_ERROR, xaxis)
       else bind_r (c_add start xr) (\<lambda>start'.
         xteam_loop split xr n rem b' start' (if t \<noteq> None then t else xaxis) is))"

fun yteam_loop ::
  "('b backend_scheme \<Rightarrow> int \<Rightarrow> int \<Rightarrow> int \<Rightarrow> ('b backend_scheme \<times> int \<times> team_t) result)
     \<Rightarrow> int \<Rightarrow> int \<Rightarrow> int \<Rightarrow> 'b backend_scheme \<Rightarrow> int \<Rightarrow> team_t \<Rightarrow> int list
     \<Rightarrow> ('b backend_scheme \<times> int \<times> team_t) result" where
  "yteam_loop split xr yr rem b start yaxis [] = Inr (b, ROCSHMEM_SUCCESS, yaxis)"
| "yteam_loop split xr yr rem b start yaxis (i # is) =
     bind_r (split b start xr (if rem \<noteq> 0 \<and> i < rem then yr + 1 else yr)) (\<lambda>(b', ret, t).
       if ret \<noteq> 0 then Inr (b', ROCSHMEM_ERROR, yaxis)
       else bind_r (c_add start 1) (\<lambda>start'.
         yteam_loop split xr yr rem b' start' (if t \<noteq> None then t else yaxis) is))"

definition rocshmem_team_split_2d ::
  "(comm \<Rightarrow> int option \<Rightarrow> int \<Rightarrow> comm) \<Rightarrow> 'b creator \<Rightarrow> 'b backend_scheme
     \<Rightarrow> team_t \<Rightarrow> int \<Rightarrow> ('b backend_scheme \<times> int \<times> team_t \<times> team_t) result" where
  "rocshmem_team_split_2d comm_split create b parent xrange =
     (if parent = None \<or> xrange < 1 then Inr (b, ROCSHMEM_ERROR, None, None)
      else bind_r (get_internal_team (team_objs b) (the parent)) (\<lambda>p.
        let parent_size = team_num_pes p;
            xr = (if xrange > parent_size then parent_size else xrange);
            split = (\<lambda>b. rocshmem_team_split_strided comm_split create b parent)
        in bind_r (c_div parent_size xr) (\<lambda>yr.
           bind_r (c_add parent_size xr) (\<lambda>s.
           bind_r (c_div (s - 1) xr) (\<lambda>num_xteams.
           bind_r (c_mod parent_size xr) (\<lambda>rem.
           bind_r (xteam_loop split xr num_xteams rem b 0 None [0..num_xteams - 1]) (\<lambda>(b1, ret1, xaxis).
             if ret1 \<noteq> ROCSHMEM_SUCCESS then Inr (b1, ROCSHMEM_ERROR, xaxis, None)
             else bind_r (yteam_loop split xr yr rem b1 0 None [0..xr - 1]) (\<lambda>(b2, ret2, yaxis).
               Inr (b2, ret2, xaxis, yaxis)))))))))"

section \<open>Specification\<close>

text \<open>The world rank of member \<open>k\<close>, and a team whose members are PEs of a world of size \<open>w\<close>.\<close>

definition world_rank :: "team \<Rightarrow> int \<Rightarrow> int" where
  "world_rank t k = pe_start (tinfo_wrt_world t) + stride (tinfo_wrt_world t) * k"

definition members :: "team \<Rightarrow> int set" where
  "members t = world_rank t ` {0..<team_num_pes t}"

definition team_wf :: "int \<Rightarrow> team \<Rightarrow> bool" where
  "team_wf w t \<longleftrightarrow> 0 \<le> pe_start (tinfo_wrt_world t) \<and> 1 \<le> stride (tinfo_wrt_world t)
     \<and> 1 \<le> team_num_pes t \<and> world_rank t (team_num_pes t - 1) < w \<and> w \<le> int_max"

definition tracker_ok :: "team_tracker \<Rightarrow> bool" where
  "tracker_ok k \<longleftrightarrow> unat (max_num_teams k) \<le> 2147483647
     \<and> length (teams k) + unat (NUM_RESERVED_TEAMS (use_ipc k)) \<le> unat (max_num_teams k)"

definition free_teams :: "team_tracker \<Rightarrow> nat" where
  "free_teams k = unat (max_num_teams k) - unat (NUM_RESERVED_TEAMS (use_ipc k)) - length (teams k)"

text \<open>Backend \<open>b\<close> knows parent team \<open>P\<close> under handle \<open>p\<close> and is its member \<open>r\<close>.\<close>

definition member_of :: "'b backend_scheme \<Rightarrow> nat \<Rightarrow> team \<Rightarrow> int \<Rightarrow> bool" where
  "member_of b p P r \<longleftrightarrow> team_objs b p = Some P \<and> team_wf (num_pes b) P
     \<and> 0 \<le> r \<and> r < team_num_pes P \<and> my_pe b = world_rank P r"

text \<open>The effect of a successful team creation: a fresh object with the given layout.\<close>

definition team_added ::
  "'b backend_scheme \<Rightarrow> 'b backend_scheme \<Rightarrow> nat \<Rightarrow> team \<Rightarrow> bool" where
  "team_added b b' h t \<longleftrightarrow> team_objs b h = None \<and> team_objs b' = (team_objs b)(h \<mapsto> t)
     \<and> num_pes b' = num_pes b \<and> my_pe b' = my_pe b"

definition layout_ok :: "team_info \<Rightarrow> int \<Rightarrow> int \<Rightarrow> bool" where
  "layout_ok ww n m \<longleftrightarrow> 0 \<le> pe_start ww \<and> 1 \<le> stride ww \<and> 0 \<le> m \<and> m < n
     \<and> pe_start ww + stride ww * (n - 1) \<le> int_max"

text \<open>The argument checks of \<open>rocshmem_team_split_strided\<close> against a parent and a world size.\<close>

definition split_accepted :: "int \<Rightarrow> team \<Rightarrow> int \<Rightarrow> int \<Rightarrow> int \<Rightarrow> bool" where
  "split_accepted w P start str sz \<longleftrightarrow> 0 \<le> start \<and> start < team_num_pes P \<and> 1 \<le> sz
     \<and> sz \<le> team_num_pes P \<and> 1 \<le> str \<and> world_rank P (start + str * (sz - 1)) \<le> w"

section \<open>Rank translation\<close>

lemma world_rank_bounds:
  assumes "team_wf w t" "0 \<le> k" "k < team_num_pes t"
  shows "0 \<le> stride (tinfo_wrt_world t) * k" "0 \<le> world_rank t k" "world_rank t k < w"
    "stride (tinfo_wrt_world t) * k \<le> world_rank t k"
proof -
  have "stride (tinfo_wrt_world t) * k \<le> stride (tinfo_wrt_world t) * (team_num_pes t - 1)"
    using assms by (intro mult_left_mono) (auto simp: team_wf_def)
  moreover show "0 \<le> stride (tinfo_wrt_world t) * k" using assms by (simp add: team_wf_def)
  ultimately show "0 \<le> world_rank t k" "world_rank t k < w"
    "stride (tinfo_wrt_world t) * k \<le> world_rank t k"
    using assms(1) unfolding team_wf_def world_rank_def by linarith+
qed

lemma world_rank_c_int:
  assumes "team_wf w t" "0 \<le> k" "k < team_num_pes t"
  shows "is_c_int (stride (tinfo_wrt_world t) * k)" "is_c_int (world_rank t k)"
  using world_rank_bounds [OF assms] assms(1) by (auto simp: is_c_int_nonneg team_wf_def)

lemma get_pe_in_world_ok [c_arith]:
  assumes "team_wf w t" "0 \<le> k" "k < team_num_pes t"
  shows "get_pe_in_world t k = Inr (world_rank t k)"
  using world_rank_c_int [OF assms]
  by (simp add: get_pe_in_world_def world_rank_def c_arith)

lemma get_pe_in_my_team_ok:
  assumes "team_wf w t" "0 \<le> p" "p < w"
  shows "get_pe_in_my_team t p =
    Inr (if p \<in> members t then (p - pe_start (tinfo_wrt_world t)) div stride (tinfo_wrt_world t) else - 1)"
proof -
  let ?a = "pe_start (tinfo_wrt_world t)" and ?s = "stride (tinfo_wrt_world t)"
  have a: "0 \<le> ?a" "1 \<le> ?s" "w \<le> int_max" using assms by (auto simp: team_wf_def)
  have mem: "p \<in> members t \<longleftrightarrow> ?a \<le> p \<and> (p - ?a) mod ?s = 0 \<and> (p - ?a) div ?s < team_num_pes t"
  proof
    assume "p \<in> members t"
    then show "?a \<le> p \<and> (p - ?a) mod ?s = 0 \<and> (p - ?a) div ?s < team_num_pes t"
      using a by (auto simp: members_def world_rank_def)
  next
    assume r: "?a \<le> p \<and> (p - ?a) mod ?s = 0 \<and> (p - ?a) div ?s < team_num_pes t"
    then have "p = world_rank t ((p - ?a) div ?s)" by (auto simp: world_rank_def)
    moreover have "0 \<le> (p - ?a) div ?s" using r a by (simp add: pos_imp_zdiv_nonneg_iff)
    ultimately show "p \<in> members t" using r unfolding members_def by (metis atLeastLessThan_iff imageI)
  qed
  show ?thesis
  proof (cases "?a \<le> p")
    case True
    then have "is_c_int (p - ?a)" using assms a by (simp add: is_c_int_nonneg)
    then show ?thesis using True a mem by (simp add: get_pe_in_my_team_def c_arith)
  qed (use mem in \<open>auto simp: get_pe_in_my_team_def\<close>)
qed

lemma get_pe_in_my_team_member [c_arith]:
  assumes "team_wf w t" "0 \<le> k" "k < team_num_pes t"
  shows "get_pe_in_my_team t (world_rank t k) = Inr k"
proof -
  have "world_rank t k \<in> members t" using assms by (auto simp: members_def)
  moreover have "1 \<le> stride (tinfo_wrt_world t)" using assms by (simp add: team_wf_def)
  ultimately show ?thesis
    using get_pe_in_my_team_ok [OF assms(1) world_rank_bounds(2,3) [OF assms]]
    by (simp add: world_rank_def)
qed

lemma pe_in_active_set_ok:
  assumes "0 \<le> start" "1 \<le> str" "0 \<le> pe" "is_c_int pe" "is_c_int start"
  shows "pe_in_active_set start str sz pe =
    Inr (if start \<le> pe \<and> (pe - start) mod str = 0 \<and> (pe - start) div str < sz
         then (pe - start) div str else - 1)"
proof (cases "start \<le> pe")
  case True
  then have "is_c_int (pe - start)" using assms by (simp add: is_c_int_def int_min_def)
  then show ?thesis using True assms by (auto simp: pe_in_active_set_def c_arith)
next
  case False
  let ?m = "(start - pe) div str"
  have "0 \<le> ?m" "?m \<le> start - pe"
    using assms False zdiv_mono2 [of "start - pe" 1 str] by (simp_all add: pos_imp_zdiv_nonneg_iff)
  moreover have "trunc_div (pe - start) str = - ?m"
    using False assms by (simp add: trunc_div_def sgn_if)
  ultimately show ?thesis
    using False assms by (simp add: pe_in_active_set_def c_sub_def c_div_def c_int_def is_c_int_def
      int_max_def int_min_def)
qed

section \<open>The tracker\<close>

lemma no_team_left_iff:
  assumes "tracker_ok k"
  shows "no_team_left k \<longleftrightarrow> free_teams k = 0"
proof -
  let ?m = "unat (max_num_teams k)"
  have m: "?m \<le> 2147483647" and l: "length (teams k) + unat (NUM_RESERVED_TEAMS (use_ipc k)) \<le> ?m"
    using assms by (simp_all add: tracker_ok_def)
  have "word_of_int (get_max_num_teams k) = max_num_teams k"
    using m by (simp add: get_max_num_teams_def sint_ucast_small)
  moreover have "unat (max_num_teams k - NUM_RESERVED_TEAMS (use_ipc k))
      = ?m - unat (NUM_RESERVED_TEAMS (use_ipc k))"
    using l by (intro unat_sub) (simp add: word_le_nat_alt)
  moreover have "unat (get_num_user_teams k) = length (teams k)"
    using l m by (simp add: get_num_user_teams_def unat_of_nat take_bit_nat_eq_self_iff)
  ultimately show ?thesis
    using l by (auto simp: no_team_left_def free_teams_def word_le_nat_alt)
qed

lemma track_tracker_ok:
  "tracker_ok k \<Longrightarrow> 0 < free_teams k \<Longrightarrow>
     tracker_ok (track (Some h) k) \<and> free_teams (track (Some h) k) = free_teams k - 1"
  by (auto simp: tracker_ok_def free_teams_def track_def)

lemma track_fields [simp]:
  "use_ipc (track t k) = use_ipc k" "max_num_teams (track t k) = max_num_teams k"
  "team_world (track t k) = team_world k" "team_shared (track t k) = team_shared k"
  by (simp_all add: track_def)

lemma untrack_track:
  "Some h \<notin> set (teams k) \<Longrightarrow> untrack (Some h) (track (Some h) k) = Inr k"
  by (simp add: untrack_def track_def assert_r_def remove1_append)

declare destroy_all.simps [simp del]

lemma destroy_all_fold:
  "destroy_all f k s = (k\<lparr>teams := []\<rparr>, fold f (rev (teams k)) s)"
proof (induction f k s rule: destroy_all.induct)
  case (1 f k s)
  show ?case
  proof (cases "teams k = []")
    case False
    then have "rev (teams k) = last (teams k) # rev (butlast (teams k))"
      by (metis append_butlast_last_id rev_eq_Cons_iff rev_rev_ident)
    then have "fold f (rev (teams k)) s = fold f (rev (butlast (teams k))) (f (last (teams k)) s)"
      by (metis fold_simps(2))
    then show ?thesis using 1 [OF False] False by (subst destroy_all.simps) (simp del: destroy_all.simps)
  qed (simp add: destroy_all.simps)
qed

section \<open>Splitting: the contract of team creation and what the split operations make of it\<close>

lemma split_accepted_inside:
  assumes "member_of b p P r"
    and a: "0 \<le> start" "1 \<le> str" "1 \<le> sz" "start + str * (sz - 1) < team_num_pes P"
  shows "split_accepted (num_pes b) P start str sz"
proof -
  have "0 \<le> str * (sz - 1)" using a by simp
  moreover have "sz - 1 \<le> str * (sz - 1)" using a mult_right_mono [of 1 str "sz - 1"] by simp
  moreover have "world_rank P (start + str * (sz - 1)) < num_pes b"
    using assms calculation(1) by (intro world_rank_bounds(3)) (auto simp: member_of_def)
  ultimately show ?thesis using a by (auto simp: split_accepted_def)
qed

lemma split_layout:
  assumes m: "member_of b p P r"
    and a: "split_accepted (num_pes b) P start str sz"
  shows "1 \<le> stride (tinfo_wrt_world P)" "sz \<le> team_num_pes P" "start < team_num_pes P"
    and "0 \<le> world_rank P start" "world_rank P start \<le> int_max"
    and "1 \<le> str * stride (tinfo_wrt_world P)"
    and "is_c_int (str * stride (tinfo_wrt_world P) * (sz - 1))"
    and "is_c_int (world_rank P start + str * stride (tinfo_wrt_world P) * (sz - 1))"
    and "world_rank P start + str * stride (tinfo_wrt_world P) * (sz - 1) \<le> num_pes b"
    and "world_rank P start + str * stride (tinfo_wrt_world P) * (sz - 1) \<le> int_max"
    and "0 \<le> my_pe b" "my_pe b \<le> int_max"
proof -
  let ?s = "stride (tinfo_wrt_world P)" and ?n = "team_num_pes P"
  have wf: "team_wf (num_pes b) P" and me: "my_pe b = world_rank P r" "0 \<le> r" "r < ?n"
    using m by (auto simp: member_of_def)
  show s: "1 \<le> ?s" using wf by (simp add: team_wf_def)
  have np: "num_pes b \<le> int_max" using wf by (simp add: team_wf_def)
  have a': "0 \<le> start" "1 \<le> str" "1 \<le> sz" and sz: "sz \<le> ?n" "start < ?n"
    and last: "world_rank P (start + str * (sz - 1)) \<le> num_pes b"
    using a by (auto simp: split_accepted_def)
  then show "sz \<le> ?n" "start < ?n" by simp_all
  have end_w: "world_rank P start + str * ?s * (sz - 1) = world_rank P (start + str * (sz - 1))"
    by (simp add: world_rank_def algebra_simps)
  show first: "0 \<le> world_rank P start" using world_rank_bounds [OF wf a'(1) sz(2)] by auto
  show "world_rank P start \<le> int_max" using world_rank_bounds [OF wf a'(1) sz(2)] np by auto
  show "1 \<le> str * ?s" using a' s mult_mono [of 1 str 1 ?s] by simp
  have d: "0 \<le> str * ?s * (sz - 1)" using a' s by simp
  then show "is_c_int (str * ?s * (sz - 1))"
    using last np first end_w by (simp add: is_c_int_nonneg)
  have "0 \<le> world_rank P start + str * ?s * (sz - 1)" using first d by linarith
  then show "is_c_int (world_rank P start + str * ?s * (sz - 1))"
    using last np unfolding end_w by (simp add: is_c_int_nonneg)
  show "world_rank P start + str * ?s * (sz - 1) \<le> num_pes b"
    "world_rank P start + str * ?s * (sz - 1) \<le> int_max"
    using last np unfolding end_w by simp_all
  show "0 \<le> my_pe b" "my_pe b \<le> int_max"
    using world_rank_bounds [OF wf me(2,3)] me np by auto
qed

text \<open>Arithmetic of a grid with rows of length \<open>xr\<close>.\<close>

lemma div_mod_vars:
  fixes n xr :: int
  assumes "1 \<le> xr" "xr \<le> n"
  obtains q r where "n = q * xr + r" "0 \<le> r" "r < xr" "1 \<le> q" "n div xr = q" "n mod xr = r"
proof (rule that)
  show "1 \<le> n div xr" using assms by (simp add: int_one_le_iff_zero_less pos_imp_zdiv_pos_iff)
qed (use assms in simp_all)

lemma grid_rows:
  fixes n xr :: int
  assumes "1 \<le> xr" "xr \<le> n"
  shows "(n + xr - 1) div xr = n div xr + (if n mod xr = 0 then 0 else 1)"
    and "n \<le> (n + xr - 1) div xr * xr" "(n + xr - 1) div xr * xr \<le> n + xr"
proof -
  obtain q r where v: "n = q * xr + r" "0 \<le> r" "r < xr" "1 \<le> q" "n div xr = q" "n mod xr = r"
    using assms by (rule div_mod_vars)
  have "n + xr - 1 = (r + xr - 1) + q * xr" using v by linarith
  then have "(n + xr - 1) div xr = q + (r + xr - 1) div xr"
    using assms(1) by (simp only: div_mult_self1)
  moreover have "(r + xr - 1) div xr = (if r = 0 then 0 else 1)"
  proof (cases "r = 0")
    case False
    have "r + xr - 1 = (r - 1) + xr" by simp
    then have "(r + xr - 1) div xr = (r - 1) div xr + 1" using assms(1) by (simp only: div_add_self2)
    moreover have "(r - 1) div xr = 0" using False v by (intro div_pos_pos_trivial) auto
    ultimately show ?thesis using False by simp
  qed (use assms in simp)
  ultimately show *: "(n + xr - 1) div xr = n div xr + (if n mod xr = 0 then 0 else 1)" by (simp add: v(5,6))
  show "n \<le> (n + xr - 1) div xr * xr" "(n + xr - 1) div xr * xr \<le> n + xr"
    unfolding * v(5,6) using v(1-4) by (auto simp: distrib_right)
qed

lemma grid_row_fits:
  fixes n xr :: int
  assumes "1 \<le> xr" "xr \<le> n" "0 \<le> i" "i < (n + xr - 1) div xr"
  defines "sz \<equiv> (if i = (n + xr - 1) div xr - 1 \<and> n mod xr \<noteq> 0 then n mod xr else xr)"
  shows "1 \<le> sz \<and> sz \<le> xr \<and> i * xr + sz - 1 < n \<and> sz = min xr (n - i * xr)"
proof -
  obtain q r where v: "n = q * xr + r" "0 \<le> r" "r < xr" "1 \<le> q" "n div xr = q" "n mod xr = r"
    using assms(1,2) by (rule div_mod_vars)
  have rows: "(n + xr - 1) div xr = q + (if r = 0 then 0 else 1)"
    using grid_rows(1) [OF assms(1,2)] by (simp only: v(5,6))
  have sz: "sz = (if i = q + (if r = 0 then 0 else 1) - 1 \<and> r \<noteq> 0 then r else xr)"
    by (simp only: sz_def rows v(6))
  have "i < q + (if r = 0 then 0 else 1)" using assms(4) by (simp only: rows)
  then have "i = q \<and> r \<noteq> 0 \<and> sz = r \<or> i + 1 \<le> q \<and> sz = xr"
    by (cases "r = 0") (auto simp: sz)
  then show ?thesis
  proof (elim disjE)
    assume *: "i + 1 \<le> q \<and> sz = xr"
    then have "(i + 1) * xr \<le> q * xr" using assms(1) by (intro mult_right_mono) auto
    then show ?thesis using * v(1-4) assms(1) by (auto simp: distrib_right)
  qed (use v(1-4) in auto)
qed

lemma grid_column_fits:
  fixes n xr :: int
  assumes "1 \<le> xr" "xr \<le> n" "0 \<le> i" "i < xr"
  defines "sz \<equiv> (if n mod xr \<noteq> 0 \<and> i < n mod xr then n div xr + 1 else n div xr)"
  shows "1 \<le> sz \<and> i + xr * (sz - 1) < n \<and> sz = (n - i + xr - 1) div xr"
proof -
  obtain q r where v: "n = q * xr + r" "0 \<le> r" "r < xr" "1 \<le> q" "n div xr = q" "n mod xr = r"
    using assms(1,2) by (rule div_mod_vars)
  have sz: "sz = (if i < r then q + 1 else q)" using assms(3) by (simp add: sz_def v(5,6))
  have "n - i + xr - 1 = (r - i + xr - 1) + q * xr" using v by linarith
  then have "(n - i + xr - 1) div xr = q + (r - i + xr - 1) div xr"
    using assms(1) by (simp only: div_mult_self1)
  moreover have "(r - i + xr - 1) div xr = (if i < r then 1 else 0)"
  proof (cases "i < r")
    case True
    have "r - i + xr - 1 = (r - i - 1) + xr" by simp
    then have "(r - i + xr - 1) div xr = (r - i - 1) div xr + 1" using assms(1) by (simp only: div_add_self2)
    moreover have "(r - i - 1) div xr = 0" using True v assms by (intro div_pos_pos_trivial) auto
    ultimately show ?thesis using True by simp
  qed (use assms v in \<open>auto intro!: div_pos_pos_trivial\<close>)
  ultimately have "sz = (n - i + xr - 1) div xr" by (simp add: sz)
  moreover have "1 \<le> sz" "i + xr * (sz - 1) < n"
    using v(1-4) assms(1-4) unfolding sz by (cases "i < r"; simp add: algebra_simps)+
  ultimately show ?thesis by simp
qed

definition row_size :: "int \<Rightarrow> int \<Rightarrow> int \<Rightarrow> int" where
  "row_size n xr i = (if i = (n + xr - 1) div xr - 1 \<and> n mod xr \<noteq> 0 then n mod xr else xr)"

definition column_size :: "int \<Rightarrow> int \<Rightarrow> int \<Rightarrow> int" where
  "column_size n xr i = (if n mod xr \<noteq> 0 \<and> i < n mod xr then n div xr + 1 else n div xr)"

lemma grid_coordinates:
  fixes n xr k :: int
  assumes "1 \<le> xr" "xr \<le> n" "0 \<le> k" "k < n"
  defines "c \<equiv> k div xr" and "d \<equiv> k mod xr"
  shows "k = c * xr + d" "0 \<le> d" "d < xr" "0 \<le> c" "c < (n + xr - 1) div xr"
    "d < row_size n xr c" "c < column_size n xr d"
proof -
  show k: "k = c * xr + d" and d: "0 \<le> d" "d < xr" and c: "0 \<le> c"
    using assms by (simp_all add: c_def d_def pos_imp_zdiv_nonneg_iff)
  show N: "c < (n + xr - 1) div xr"
  proof (rule ccontr)
    assume "\<not> ?thesis"
    then have "(n + xr - 1) div xr * xr \<le> c * xr" using assms(1) by (intro mult_right_mono) auto
    then show False using grid_rows(2) [OF assms(1,2)] k d assms(4) by linarith
  qed
  have "row_size n xr c = min xr (n - c * xr)"
    using grid_row_fits [OF assms(1,2) c N] by (simp add: row_size_def)
  then show "d < row_size n xr c" using k d assms(4) by simp
  have "column_size n xr d = (n - d + xr - 1) div xr"
    using grid_column_fits [OF assms(1,2) d] by (simp add: column_size_def)
  moreover have "c + 1 = (c * xr + xr) div xr" using assms(1) by simp
  moreover have "(c * xr + xr) div xr \<le> (n - d + xr - 1) div xr"
    using k assms(1,4) by (intro zdiv_mono1) auto
  ultimately show "c < column_size n xr d" by simp
qed

lemma row_size_fits:
  fixes n xr :: int
  assumes "1 \<le> xr" "xr \<le> n" "0 \<le> i" "i < (n + xr - 1) div xr"
  shows "1 \<le> row_size n xr i" "row_size n xr i \<le> xr" "i * xr + (row_size n xr i - 1) < n"
    "row_size n xr i = min xr (n - i * xr)"
  using grid_row_fits [OF assms] by (simp_all add: row_size_def)

lemma column_size_fits:
  fixes n xr :: int
  assumes "1 \<le> xr" "xr \<le> n" "0 \<le> i" "i < xr"
  shows "1 \<le> column_size n xr i" "i + xr * (column_size n xr i - 1) < n"
    "column_size n xr i = (n - i + xr - 1) div xr"
  unfolding column_size_def using grid_column_fits [OF assms] by blast+

text \<open>The loops of the 2-D split: every call but one leaves the state alone.\<close>

lemma xteam_loop_skip:
  assumes "\<And>i. a \<le> i \<Longrightarrow> i < n \<Longrightarrow> split b (i * xr) 1 (if i = n - 1 \<and> rem \<noteq> 0 then rem else xr) = Inr (b, 0, None)"
    and "n * xr \<le> int_max" "0 \<le> a" "0 \<le> xr"
  shows "xteam_loop split xr n rem b (a * xr) x [a..n - 1] = Inr (b, ROCSHMEM_SUCCESS, x)"
  using assms
proof (induction "nat (n - a)" arbitrary: a)
  case 0
  then show ?case by simp
next
  case (Suc m)
  then have a: "a \<le> n - 1" by simp
  then have "(a + 1) * xr \<le> int_max"
    using Suc.prems mult_right_mono [of "a + 1" n xr] by simp
  then have "c_add (a * xr) xr = Inr ((a + 1) * xr)"
    using Suc.prems by (simp add: c_add_def c_int_def is_c_int_nonneg algebra_simps)
  then show ?case
    using Suc.hyps(1) [of "a + 1"] Suc.hyps(2) Suc.prems a
    by (simp add: upto_rec1 [OF a])
qed

lemma xteam_loop_hit:
  assumes "\<And>i. a \<le> i \<Longrightarrow> i < c \<Longrightarrow> split b (i * xr) 1 (if i = n - 1 \<and> rem \<noteq> 0 then rem else xr) = Inr (b, 0, None)"
    and "split b (c * xr) 1 (if c = n - 1 \<and> rem \<noteq> 0 then rem else xr) = Inr (b1, 0, Some h)"
    and "\<And>i. c < i \<Longrightarrow> i < n \<Longrightarrow> split b1 (i * xr) 1 (if i = n - 1 \<and> rem \<noteq> 0 then rem else xr) = Inr (b1, 0, None)"
    and "n * xr \<le> int_max" "0 \<le> a" "0 \<le> xr" "a \<le> c" "c < n"
  shows "xteam_loop split xr n rem b (a * xr) x [a..n - 1] = Inr (b1, ROCSHMEM_SUCCESS, Some h)"
  using assms
proof (induction "nat (c - a)" arbitrary: a)
  case 0
  then have c: "c = a" "a \<le> n - 1" by simp_all
  have "(a + 1) * xr \<le> int_max"
    using 0 mult_right_mono [of "a + 1" n xr] by simp
  then have "c_add (a * xr) xr = Inr ((a + 1) * xr)"
    using 0 by (simp add: c_add_def c_int_def is_c_int_nonneg algebra_simps)
  then show ?case
    using xteam_loop_skip [of "a + 1" n split b1 xr rem "Some h"] 0 c
    by (simp add: upto_rec1 [OF c(2)])
next
  case (Suc m)
  then have a: "a \<le> n - 1" "a \<noteq> n - 1" by simp_all
  then have "(a + 1) * xr \<le> int_max"
    using Suc.prems mult_right_mono [of "a + 1" n xr] by simp
  then have "c_add (a * xr) xr = Inr ((a + 1) * xr)"
    using Suc.prems by (simp add: c_add_def c_int_def is_c_int_nonneg algebra_simps)
  then show ?case
    using Suc.hyps(1) [of "a + 1"] Suc.hyps(2) Suc.prems a
    by (simp add: upto_rec1 [OF a(1)])
qed

lemma yteam_loop_skip:
  assumes "\<And>i. a \<le> i \<Longrightarrow> i < xr \<Longrightarrow> split b i xr (if rem \<noteq> 0 \<and> i < rem then yr + 1 else yr) = Inr (b, 0, None)"
    and "xr \<le> int_max" "0 \<le> a"
  shows "yteam_loop split xr yr rem b a x [a..xr - 1] = Inr (b, ROCSHMEM_SUCCESS, x)"
  using assms
proof (induction "nat (xr - a)" arbitrary: a)
  case (Suc m)
  then have a: "a \<le> xr - 1" by simp
  then have "c_add a 1 = Inr (a + 1)"
    using Suc.prems by (simp add: c_add_def c_int_def is_c_int_nonneg)
  then show ?case
    using Suc.hyps(1) [of "a + 1"] Suc.hyps(2) Suc.prems a
    by (simp add: upto_rec1 [OF a])
qed simp

lemma yteam_loop_hit:
  assumes "\<And>i. a \<le> i \<Longrightarrow> i < c \<Longrightarrow> split b i xr (if rem \<noteq> 0 \<and> i < rem then yr + 1 else yr) = Inr (b, 0, None)"
    and "split b c xr (if rem \<noteq> 0 \<and> c < rem then yr + 1 else yr) = Inr (b1, 0, Some h)"
    and "\<And>i. c < i \<Longrightarrow> i < xr \<Longrightarrow> split b1 i xr (if rem \<noteq> 0 \<and> i < rem then yr + 1 else yr) = Inr (b1, 0, None)"
    and "xr \<le> int_max" "0 \<le> a" "a \<le> c" "c < xr"
  shows "yteam_loop split xr yr rem b a x [a..xr - 1] = Inr (b1, ROCSHMEM_SUCCESS, Some h)"
  using assms
proof (induction "nat (c - a)" arbitrary: a)
  case 0
  then have c: "c = a" "a \<le> xr - 1" by simp_all
  have "c_add a 1 = Inr (a + 1)"
    using 0 by (simp add: c_add_def c_int_def is_c_int_nonneg)
  then show ?case
    using yteam_loop_skip [of "a + 1" xr split b1 rem yr "Some h"] 0 c
    by (simp add: upto_rec1 [OF c(2)])
next
  case (Suc m)
  then have a: "a \<le> xr - 1" by simp
  then have "c_add a 1 = Inr (a + 1)"
    using Suc.prems by (simp add: c_add_def c_int_def is_c_int_nonneg)
  then show ?case
    using Suc.hyps(1) [of "a + 1"] Suc.hyps(2) Suc.prems a
    by (simp add: upto_rec1 [OF a])
qed

lemmas xteam_loop_rows =
  xteam_loop_hit [where xr = xr and n = "(m + xr - 1) div xr" and rem = "m mod xr" for xr m, folded row_size_def]

lemmas yteam_loop_columns =
  yteam_loop_hit [where xr = xr and yr = "m div xr" and rem = "m mod xr" for xr m, folded column_size_def]

locale team_creator =
  fixes create :: "'b creator" and ready :: "nat \<Rightarrow> 'b backend_scheme \<Rightarrow> bool"
  assumes create_ok: "ready (Suc k) b \<Longrightarrow> layout_ok ww n m \<Longrightarrow>
      \<exists>b' h t. create b p wp ww n m c = Inr (b', Some h) \<and> team_added b b' h t
        \<and> tinfo_wrt_parent t = wp \<and> tinfo_wrt_world t = ww \<and> team_num_pes t = n \<and> team_my_pe t = m
        \<and> tracker b' = tracker b \<and> ready k b'"
    and ready_track: "ready k b \<Longrightarrow> ready k (b\<lparr>tracker := track t (tracker b)\<rparr>)"
begin

lemma split_strided_member:
  assumes m: "member_of b p P r" and rdy: "ready (Suc k) b"
    and trk: "tracker_ok (tracker b)" "0 < free_teams (tracker b)"
    and a: "split_accepted (num_pes b) P start str sz"
    and w: "is_c_int (str * stride (tinfo_wrt_world P))"
    and j: "0 \<le> j" "j < sz" "r = start + str * j"
  shows "\<exists>b' h t. rocshmem_team_split_strided cs create b (Some p) start str sz = Inr (b', 0, Some h)
      \<and> team_added b b' h t \<and> team_num_pes t = sz \<and> team_my_pe t = j
      \<and> (\<forall>i. world_rank t i = world_rank P (start + str * i))
      \<and> tracker b' = track (Some h) (tracker b) \<and> ready k b'"
proof -
  let ?s = "stride (tinfo_wrt_world P)"
  note l = split_layout [OF m a]
  have wf: "team_wf (num_pes b) P" and obj: "team_objs b p = Some P" and me: "my_pe b = world_rank P r"
    using m by (auto simp: member_of_def)
  have d: "my_pe b - world_rank P start = str * ?s * j"
    using me j by (simp add: world_rank_def algebra_simps)
  have "0 \<le> str * ?s * j" using l(6) j by simp
  then have ge: "world_rank P start \<le> my_pe b" using d by linarith
  have dm: "(my_pe b - world_rank P start) div (str * ?s) = j" "(my_pe b - world_rank P start) mod (str * ?s) = 0"
    unfolding d using nonzero_mult_div_cancel_left [of "str * ?s" j] l(6) by auto
  have act: "pe_in_active_set (world_rank P start) (str * ?s) sz (my_pe b) = Inr j"
    using pe_in_active_set_ok [of "world_rank P start" "str * ?s" "my_pe b" sz] l(4,5,6,11,12) j ge
    by (simp add: is_c_int_nonneg dm)
  let ?ww = "\<lparr>parent_team = team_world (tracker b), pe_start = world_rank P start,
    stride = str * ?s, ti_size = sz\<rparr>"
  have "layout_ok ?ww sz j"
    using l j by (simp add: layout_ok_def)
  from create_ok [OF rdy this] obtain b' h t where
    c: "create b p \<lparr>parent_team = Some p, pe_start = start, stride = str, ti_size = sz\<rparr> ?ww sz j
      (if mpi_comm P \<noteq> None \<and> mpi_comm P \<noteq> Some 0 then cs (mpi_comm P) (Some 1) (my_pe b) else None)
      = Inr (b', Some h)"
    and t: "team_added b b' h t" "tinfo_wrt_world t = ?ww" "team_num_pes t = sz" "team_my_pe t = j"
      "tracker b' = tracker b" "ready k b'" by metis
  have "rocshmem_team_split_strided cs create b (Some p) start str sz
    = Inr (b'\<lparr>tracker := track (Some h) (tracker b')\<rparr>, 0, Some h)"
    using trk obj a [unfolded split_accepted_def] l w c j
    by (simp add: rocshmem_team_split_strided_def no_team_left_iff get_internal_team_def
        get_pe_in_world_ok [OF wf] c_arith act Let_def cong: if_cong split del: if_split)
  moreover have "world_rank t i = world_rank P (start + str * i)" for i
    using t by (simp add: world_rank_def algebra_simps)
  ultimately show ?thesis
    using t ready_track [OF t(6)] by (intro exI [of _ "b'\<lparr>tracker := track (Some h) (tracker b')\<rparr>"] exI)
      (auto simp: team_added_def)
qed

lemma split_strided_other:
  assumes m: "member_of b p P r"
    and trk: "tracker_ok (tracker b)" "0 < free_teams (tracker b)"
    and a: "split_accepted (num_pes b) P start str sz"
    and w: "is_c_int (str * stride (tinfo_wrt_world P))"
    and j: "\<nexists>j. 0 \<le> j \<and> j < sz \<and> r = start + str * j"
  shows "rocshmem_team_split_strided cs create b (Some p) start str sz = Inr (b, 0, None)"
proof -
  note l = split_layout [OF m a]
  have "\<not> (world_rank P start \<le> my_pe b \<and> (my_pe b - world_rank P start) mod (str * stride (tinfo_wrt_world P)) = 0
      \<and> (my_pe b - world_rank P start) div (str * stride (tinfo_wrt_world P)) < sz)"
  proof
    let ?d = "my_pe b - world_rank P start" and ?s = "stride (tinfo_wrt_world P)"
    assume *: "world_rank P start \<le> my_pe b \<and> ?d mod (str * ?s) = 0 \<and> ?d div (str * ?s) < sz"
    then have "?d = str * ?s * (?d div (str * ?s))" by auto
    then have "?s * (r - start) = ?s * (str * (?d div (str * ?s)))"
      using m by (simp add: member_of_def world_rank_def algebra_simps)
    then have "r = start + str * (?d div (str * ?s))" using l(1) by simp
    moreover have "0 \<le> ?d div (str * ?s)" using * l(6) by (simp add: pos_imp_zdiv_nonneg_iff)
    ultimately show False using j * by blast
  qed
  then have act: "pe_in_active_set (world_rank P start) (str * stride (tinfo_wrt_world P)) sz (my_pe b) = Inr (- 1)"
    using pe_in_active_set_ok [of "world_rank P start" "str * stride (tinfo_wrt_world P)" "my_pe b" sz] l
    by (auto simp: is_c_int_nonneg)
  show ?thesis
    using trk m a [unfolded split_accepted_def] l w act
    by (simp add: rocshmem_team_split_strided_def no_team_left_iff get_internal_team_def member_of_def
        get_pe_in_world_ok [of "num_pes b"] c_arith Let_def)
qed

lemma split_row_other:
  assumes m: "member_of b p P r" "tracker_ok (tracker b)" "0 < free_teams (tracker b)"
    and xr: "1 \<le> xr" "xr \<le> team_num_pes P"
    and w: "is_c_int (stride (tinfo_wrt_world P))"
    and i: "0 \<le> i" "i < (team_num_pes P + xr - 1) div xr" "i \<noteq> r div xr"
  shows "rocshmem_team_split_strided cs create b (Some p) (i * xr) 1 (row_size (team_num_pes P) xr i) = Inr (b, 0, None)"
proof (rule split_strided_other [OF m])
  note f = row_size_fits [OF xr i(1,2)]
  show "split_accepted (num_pes b) P (i * xr) 1 (row_size (team_num_pes P) xr i)"
    using f i xr by (intro split_accepted_inside [OF m(1)]) auto
  show "\<nexists>j. 0 \<le> j \<and> j < row_size (team_num_pes P) xr i \<and> r = i * xr + 1 * j"
  proof clarify
    fix j assume "0 \<le> j" "j < row_size (team_num_pes P) xr i" "r = i * xr + 1 * j"
    moreover from this have "j < xr" using f by linarith
    ultimately show False using i(3) by simp
  qed
qed (use row_size_fits [OF xr i(1,2)] i xr w in auto)

lemma split_column_other:
  assumes m: "member_of b p P r" "tracker_ok (tracker b)" "0 < free_teams (tracker b)"
    and xr: "1 \<le> xr" "xr \<le> team_num_pes P"
    and w: "is_c_int (xr * stride (tinfo_wrt_world P))"
    and i: "0 \<le> i" "i < xr" "i \<noteq> r mod xr"
  shows "rocshmem_team_split_strided cs create b (Some p) i xr (column_size (team_num_pes P) xr i) = Inr (b, 0, None)"
proof (rule split_strided_other [OF m])
  show "split_accepted (num_pes b) P i xr (column_size (team_num_pes P) xr i)"
    using column_size_fits [OF xr i(1,2)] i xr by (intro split_accepted_inside [OF m(1)]) auto
qed (use i xr w in \<open>auto simp: mod_pos_pos_trivial\<close>)

text \<open>
  The 2-D split of a parent of size \<open>n\<close> into rows of \<open>xr\<close> PEs: member \<open>r\<close> gets row
  \<open>r div xr\<close> and column \<open>r mod xr\<close>. Three user teams must be available, not two: the
  calls that follow the creation of the second team test for a free team again.
\<close>

lemma split_2d_member:
  assumes m: "member_of b p P r" and rdy: "ready 2 b"
    and trk: "tracker_ok (tracker b)" "3 \<le> free_teams (tracker b)"
    and x: "1 \<le> xrange"
    and w: "is_c_int (team_num_pes P * stride (tinfo_wrt_world P))" "2 * team_num_pes P \<le> int_max"
  defines "xr \<equiv> min xrange (team_num_pes P)"
  shows "\<exists>b1 b2 hx tx hy ty.
      rocshmem_team_split_2d cs create b (Some p) xrange = Inr (b2, ROCSHMEM_SUCCESS, Some hx, Some hy)
      \<and> team_added b b1 hx tx \<and> team_added b1 b2 hy ty
      \<and> team_my_pe tx = r mod xr \<and> team_num_pes tx = min xr (team_num_pes P - r div xr * xr)
      \<and> (\<forall>i. world_rank tx i = world_rank P (r div xr * xr + i))
      \<and> team_my_pe ty = r div xr \<and> team_num_pes ty = (team_num_pes P - r mod xr + xr - 1) div xr
      \<and> (\<forall>i. world_rank ty i = world_rank P (r mod xr + xr * i))"


proof -
  let ?n = "team_num_pes P"
  let ?split = "\<lambda>b. rocshmem_team_split_strided cs create b (Some p)"
  let ?c = "r div xr" and ?d = "r mod xr" and ?N = "(?n + xr - 1) div xr"
  have obj: "team_objs b p = Some P" and r: "0 \<le> r" "r < ?n" and n: "1 \<le> ?n"
    and s1: "1 \<le> stride (tinfo_wrt_world P)"
    using m by (auto simp: member_of_def team_wf_def)
  have xr: "1 \<le> xr" "xr \<le> ?n" using x n by (auto simp: xr_def)
  have w': "is_c_int (str * stride (tinfo_wrt_world P))" if "1 \<le> str" "str \<le> ?n" for str
    by (rule is_c_int_mono [OF _ _ w(1)]) (use that s1 in \<open>auto intro: mult_right_mono\<close>)
  note g = grid_coordinates [OF xr r]
  note fx = row_size_fits [OF xr g(4,5)] and fy = column_size_fits [OF xr g(2,3)]
  obtain b1 hx tx where x1: "?split b (?c * xr) 1 (row_size ?n xr ?c) = Inr (b1, 0, Some hx)"
    and x2: "team_added b b1 hx tx" "team_num_pes tx = row_size ?n xr ?c" "team_my_pe tx = ?d"
      "\<forall>i. world_rank tx i = world_rank P (?c * xr + 1 * i)"
      "tracker b1 = track (Some hx) (tracker b)" "ready 1 b1"
    using split_strided_member [OF m, of 1 "?c * xr" 1 "row_size ?n xr ?c" ?d cs] rdy trk xr g w' [of 1] n
      split_accepted_inside [OF m, of "?c * xr" 1 "row_size ?n xr ?c"] fx
    by (auto simp: numeral_2_eq_2)
  have m1: "member_of b1 p P r" using m x2(1) obj by (auto simp: member_of_def team_added_def)
  have t1: "tracker_ok (tracker b1)" "2 \<le> free_teams (tracker b1)"
    using track_tracker_ok [OF trk(1), of hx] trk(2) x2(5) by auto
  obtain b2 hy ty where y1: "?split b1 ?d xr (column_size ?n xr ?d) = Inr (b2, 0, Some hy)"
    and y2: "team_added b1 b2 hy ty" "team_num_pes ty = column_size ?n xr ?d" "team_my_pe ty = ?c"
      "\<forall>i. world_rank ty i = world_rank P (?d + xr * i)"
      "tracker b2 = track (Some hy) (tracker b1)"
    using split_strided_member [OF m1, of 0 ?d xr "column_size ?n xr ?d" ?c cs] x2(6) t1 xr g w' [of xr]
      split_accepted_inside [OF m1 g(2) xr(1) fy(1,2)]
    by (auto simp: algebra_simps)
  have m2: "member_of b2 p P r" using m1 y2(1) by (auto simp: member_of_def team_added_def)
  have t2: "tracker_ok (tracker b2)" "0 < free_teams (tracker b2)"
    using track_tracker_ok [OF t1(1), of hy] t1(2) y2(5) by auto
  have X: "xteam_loop ?split xr ?N (?n mod xr) b (0 * xr) None [0..?N - 1] = Inr (b1, ROCSHMEM_SUCCESS, Some hx)"
  proof (rule xteam_loop_rows [where c = ?c])
    fix i assume "0 \<le> i" "i < ?c"
    then show "?split b (i * xr) 1 (row_size ?n xr i) = Inr (b, 0, None)"
      using split_row_other [OF m trk(1) _ xr] trk g(5) w' [of 1] n by auto
  next
    fix i assume "?c < i" "i < ?N"
    then show "?split b1 (i * xr) 1 (row_size ?n xr i) = Inr (b1, 0, None)"
      using split_row_other [OF m1 t1(1) _ xr] t1 g(4) w' [of 1] n by auto
  qed (use x1 g xr grid_rows(3) [OF xr] w(2) in auto)
  have Y: "yteam_loop ?split xr (?n div xr) (?n mod xr) b1 0 None [0..xr - 1] = Inr (b2, ROCSHMEM_SUCCESS, Some hy)"
  proof (rule yteam_loop_columns [where c = ?d])
    fix i assume "0 \<le> i" "i < ?d"
    moreover from this have "i < xr" using g(3) by linarith
    ultimately show "?split b1 i xr (column_size ?n xr i) = Inr (b1, 0, None)"
      using t1 w' [of xr] xr by (intro split_column_other [OF m1 t1(1) _ xr]) linarith+
  next
    fix i assume "?d < i" "i < xr"
    then show "?split b2 i xr (column_size ?n xr i) = Inr (b2, 0, None)"
      using w' [of xr] xr g(2) by (intro split_column_other [OF m2 t2 xr]) linarith+
  qed (use y1 g xr w(2) n in auto)
  have xr': "(if ?n < xrange then ?n else xrange) = xr" by (simp add: xr_def)
  have "rocshmem_team_split_2d cs create b (Some p) xrange = Inr (b2, ROCSHMEM_SUCCESS, Some hx, Some hy)"
    using x obj X Y xr w(2)
    by (simp add: rocshmem_team_split_2d_def get_internal_team_def xr' Let_def c_arith is_c_int_nonneg)
  then show ?thesis using x2 y2 fx(4) fy(3) by auto
qed
end

section \<open>Properties\<close>

text \<open>C37. Translating a PE number between two teams of the same world succeeds without overflow.
  If the PE is a member of the destination team the result is its rank there, and translating
  back gives the number started from; otherwise the result is -1.\<close>

theorem team_translate_pe_round_trip:
  assumes "objs s = Some S" "objs d = Some D" "team_wf w S" "team_wf w D"
    and "0 \<le> k" "k < team_num_pes S"
  shows "\<exists>j. team_translate_pe objs (Some s) k (Some d) = Inr j \<and>
    (if world_rank S k \<in> members D
     then 0 \<le> j \<and> j < team_num_pes D \<and> world_rank D j = world_rank S k
       \<and> team_translate_pe objs (Some d) j (Some s) = Inr k
     else j = - 1)"
proof (cases "world_rank S k \<in> members D")
  case True
  then obtain j where j: "0 \<le> j" "j < team_num_pes D" "world_rank S k = world_rank D j"
    by (auto simp: members_def)
  have "get_pe_in_my_team D (world_rank S k) = Inr j"
    using j get_pe_in_my_team_member [OF assms(4)] by simp
  moreover have "get_pe_in_my_team S (world_rank D j) = Inr k"
    using j get_pe_in_my_team_member [OF assms(3,5,6)] by simp
  ultimately show ?thesis
    using True j assms get_pe_in_world_ok [OF assms(3,5,6)] get_pe_in_world_ok [OF assms(4) j(1,2)]
    by (simp add: team_translate_pe_def get_internal_team_def)
next
  case False
  then show ?thesis
    using assms get_pe_in_world_ok [OF assms(3,5,6)]
      get_pe_in_my_team_ok [OF assms(4) world_rank_bounds(2,3) [OF assms(3,5,6)]]
    by (simp add: team_translate_pe_def get_internal_team_def)
qed

definition example_team :: "int \<Rightarrow> int \<Rightarrow> int \<Rightarrow> team" where
  "example_team a s n = \<lparr>world_size = 8, my_pe_in_world = a,
     tinfo_wrt_world = \<lparr>parent_team = None, pe_start = a, stride = s, ti_size = n\<rparr>,
     tinfo_wrt_parent = \<lparr>parent_team = None, pe_start = a, stride = s, ti_size = n\<rparr>,
     team_num_pes = n, team_my_pe = 0, mpi_comm = None, pool_index = 0\<rparr>"

definition example_objs :: "nat \<Rightarrow> team option" where
  "example_objs = [1 \<mapsto> example_team 0 2 4, 2 \<mapsto> example_team 2 3 2]"

theorem team_translate_pe_round_trip_witness:
  "\<exists>j. team_translate_pe example_objs (Some 1) 1 (Some 2) = Inr j
    \<and> world_rank (example_team 2 3 2) j = world_rank (example_team 0 2 4) 1
    \<and> team_translate_pe example_objs (Some 2) j (Some 1) = Inr 1"
proof -
  have a: "team_wf 8 (example_team 0 2 4)" and b: "team_wf 8 (example_team 2 3 2)"
    by (simp_all add: team_wf_def example_team_def world_rank_def int_max_def)
  have n: "team_num_pes (example_team 0 2 4) = 4" by (simp add: example_team_def)
  have o: "example_objs 1 = Some (example_team 0 2 4)" "example_objs 2 = Some (example_team 2 3 2)"
    by (simp_all add: example_objs_def)
  have "world_rank (example_team 0 2 4) 1 \<in> members (example_team 2 3 2)"
    by (auto simp: members_def world_rank_def example_team_def intro!: image_eqI [of _ _ 0])
  then show ?thesis
    using team_translate_pe_round_trip [OF o a b, of 1] by (auto simp: n)
qed

end
