(* ===== verification/Team_Pool.thy ===== *)
theory Team_Pool
  imports Team
begin

unbundle bit_operations_syntax

text \<open>
  The pool of team resources of the IPC backend (\<open>src/ipc/backend_ipc.cpp\<close>,
  \<open>src/ipc/ipc_team.cpp\<close>): the carve-up of the work/sync buffer, the bit mask of
  free pool indices, the agreement on an index when a team is created and its
  return when the team is destroyed. The masks of the other members arrive
  through the bootstrap or through MPI; both are fields of \<open>team_env\<close>.
\<close>

section \<open>Data\<close>

record ipc_backend = backend +
  team_pool_bitmask :: "u8 list"
  team_reduced_bitmask :: "u8 list"

record team_env =
  peer_mask :: "int \<Rightarrow> u8 list"
  mpi_allreduce_band :: "nat \<Rightarrow> u8 list \<Rightarrow> u8 list option"
  mpi_comm_dup :: "nat \<Rightarrow> nat"
  hip_malloc :: "(nat \<Rightarrow> team option) \<Rightarrow> nat"

record wrk_sync =
  wrk_sync_pool :: nat
  wrk_sync_pool_size :: nat
  wrk_sync_pool_top :: nat
  barrier_sync :: nat
  barrier_pSync_pool :: nat
  reduce_pSync_pool :: nat
  bcast_pSync_pool :: nat
  alltoall_pSync_pool :: nat
  pWrk_pool :: nat
  fence_pool :: nat
  wmem :: "nat \<Rightarrow> int"

definition ROCSHMEM_REDUCE_MIN_WRKDATA_SIZE :: nat where "ROCSHMEM_REDUCE_MIN_WRKDATA_SIZE = 1048576"
definition ROCSHMEM_BARRIER_SYNC_SIZE :: nat where "ROCSHMEM_BARRIER_SYNC_SIZE = 256"
definition ROCSHMEM_REDUCE_SYNC_SIZE :: nat where "ROCSHMEM_REDUCE_SYNC_SIZE = 256"
definition ROCSHMEM_BCAST_SYNC_SIZE :: nat where "ROCSHMEM_BCAST_SYNC_SIZE = ROCSHMEM_BARRIER_SYNC_SIZE"
definition ROCSHMEM_ALLTOALL_SYNC_SIZE :: nat where "ROCSHMEM_ALLTOALL_SYNC_SIZE = ROCSHMEM_BARRIER_SYNC_SIZE + 1"
definition ROCSHMEM_SYNC_VALUE :: int where "ROCSHMEM_SYNC_VALUE = 0"

lemmas sync_sizes = ROCSHMEM_REDUCE_MIN_WRKDATA_SIZE_def ROCSHMEM_BARRIER_SYNC_SIZE_def
  ROCSHMEM_REDUCE_SYNC_SIZE_def ROCSHMEM_BCAST_SYNC_SIZE_def ROCSHMEM_ALLTOALL_SYNC_SIZE_def

section \<open>The bit mask\<close>

text \<open>A mask is an array of \<open>char\<close>; bit \<open>i\<close> is bit \<open>i % CHAR_BIT\<close> of byte \<open>i / CHAR_BIT\<close>.\<close>

definition mask_bit :: "u8 list \<Rightarrow> nat \<Rightarrow> bool" where
  "mask_bit bm i \<longleftrightarrow> i div 8 < length bm \<and> (bm ! (i div 8)) AND push_bit (i mod 8) 1 \<noteq> 0"

definition mask_set :: "nat \<Rightarrow> u8 list \<Rightarrow> u8 list" where
  "mask_set i bm = bm[i div 8 := (bm ! (i div 8)) OR push_bit (i mod 8) 1]"

definition mask_clear :: "nat \<Rightarrow> u8 list \<Rightarrow> u8 list" where
  "mask_clear i bm = bm[i div 8 := (bm ! (i div 8)) AND NOT (push_bit (i mod 8) 1)]"

fun ls_bit_loop :: "u8 list \<Rightarrow> nat list \<Rightarrow> int" where
  "ls_bit_loop bm [] = - 1"
| "ls_bit_loop bm (bit_i # rest) = (if mask_bit bm bit_i then int bit_i else ls_bit_loop bm rest)"

definition get_ls_non_zero_bit :: "u8 list \<Rightarrow> int \<Rightarrow> int" where
  "get_ls_non_zero_bit bm mask_length = ls_bit_loop bm [0..<nat mask_length]"

definition team_bitmask_size :: "nat \<Rightarrow> nat" where
  "team_bitmask_size maxt = (if maxt mod 8 \<noteq> 0 then maxt div 8 + 1 else maxt div 8)"

text \<open>The part of \<open>teams_init\<close> that marks every index but the reserved ones as free.\<close>

definition init_bitmask :: "nat \<Rightarrow> nat \<Rightarrow> u8 list" where
  "init_bitmask reserved maxt =
     fold mask_set [reserved..<maxt] (replicate (team_bitmask_size maxt) 0)"

section \<open>Creation and destruction of teams\<close>

text \<open>The gathered chunks in team order; chunk \<open>my\<close> is the caller's own.\<close>

definition gather_masks :: "team_env \<Rightarrow> u8 list \<Rightarrow> team_info \<Rightarrow> int \<Rightarrow> int \<Rightarrow> u8 list list" where
  "gather_masks env inbuf ww n my =
     map (\<lambda>i. if i = my then inbuf else peer_mask env (pe_start ww + i * stride ww)) [0..n - 1]"

definition Allreduce_char_BAND :: "team_env \<Rightarrow> u8 list \<Rightarrow> nat \<Rightarrow> team_info \<Rightarrow> int \<Rightarrow> int \<Rightarrow> u8 list" where
  "Allreduce_char_BAND env inbuf num_bytes ww n my =
     (let tmp = gather_masks env inbuf ww n my
      in map (\<lambda>i. fold (\<lambda>chunk acc. acc AND chunk ! i) (tl tmp) (hd tmp ! i)) [0..<num_bytes])"

definition reduce_masks ::
  "team_env \<Rightarrow> ipc_backend \<Rightarrow> team_info \<Rightarrow> int \<Rightarrow> int \<Rightarrow> comm \<Rightarrow> u8 list result" where
  "reduce_masks env b ww n my c =
     (case c of
        Some c' \<Rightarrow> (case mpi_allreduce_band env c' (team_pool_bitmask b) of
                     None \<Rightarrow> Inl Aborted | Some red \<Rightarrow> Inr red)
      | None \<Rightarrow> Inr (Allreduce_char_BAND env (team_pool_bitmask b)
                  (team_bitmask_size (nat (get_max_num_teams (tracker b)))) ww n my))"

definition new_ipc_team ::
  "team_env \<Rightarrow> ipc_backend \<Rightarrow> team_info \<Rightarrow> team_info \<Rightarrow> int \<Rightarrow> int \<Rightarrow> comm \<Rightarrow> int \<Rightarrow> team" where
  "new_ipc_team env b wp ww n my c idx =
     \<lparr>world_size = num_pes b, my_pe_in_world = my_pe b, tinfo_wrt_world = ww, tinfo_wrt_parent = wp,
      team_num_pes = n, team_my_pe = my, mpi_comm = map_option (mpi_comm_dup env) c, pool_index = idx\<rparr>"

definition create_new_team :: "team_env \<Rightarrow> ipc_backend \<Rightarrow> nat \<Rightarrow> team_info \<Rightarrow> team_info \<Rightarrow> int \<Rightarrow> int
    \<Rightarrow> comm \<Rightarrow> (ipc_backend \<times> team_t) result" where
  "create_new_team env b parent wp ww n my c =
     bind_r (reduce_masks env b ww n my c) (\<lambda>red.
       let common_index = get_ls_non_zero_bit red (get_max_num_teams (tracker b))
       in if common_index < 0 then Inl Aborted
          else let h = hip_malloc env (team_objs b);
                   t = new_ipc_team env b wp ww n my c common_index
               in Inr (b\<lparr>team_reduced_bitmask := red,
                        team_pool_bitmask := mask_clear (nat common_index) (team_pool_bitmask b),
                        team_objs := (team_objs b)(h \<mapsto> t)\<rparr>, Some h))"

definition team_destroy :: "ipc_backend \<Rightarrow> nat \<Rightarrow> ipc_backend result" where
  "team_destroy b h =
     bind_r (get_internal_team (team_objs b) h) (\<lambda>t.
       Inr (b\<lparr>team_pool_bitmask := mask_set (nat (pool_index t)) (team_pool_bitmask b),
             team_objs := (team_objs b)(h := None)\<rparr>))"

section \<open>The work/sync buffer\<close>

definition align_up :: "nat \<Rightarrow> nat \<Rightarrow> nat" where
  "align_up x a = (x + a - 1) div a * a"

definition wrk_sync_pool_alignment :: nat where "wrk_sync_pool_alignment = 8"

definition setup_wrk_sync_buffers :: "nat \<Rightarrow> nat \<Rightarrow> nat \<Rightarrow> wrk_sync \<Rightarrow> wrk_sync" where
  "setup_wrk_sync_buffers base maxt np w =
     w\<lparr>wrk_sync_pool_size := align_up (8 * ROCSHMEM_BARRIER_SYNC_SIZE
          + 8 * maxt * (ROCSHMEM_BARRIER_SYNC_SIZE + ROCSHMEM_REDUCE_SYNC_SIZE + ROCSHMEM_BCAST_SYNC_SIZE
                       + ROCSHMEM_ALLTOALL_SYNC_SIZE)
          + 8 * maxt * ROCSHMEM_REDUCE_MIN_WRKDATA_SIZE + 4 * np) wrk_sync_pool_alignment,
       wrk_sync_pool := base, wrk_sync_pool_top := base\<rparr>"

definition fill_words :: "nat \<Rightarrow> nat \<Rightarrow> (nat \<Rightarrow> int) \<Rightarrow> nat \<Rightarrow> int" where
  "fill_words base n m = fold (\<lambda>i m. m(base + 8 * i := ROCSHMEM_SYNC_VALUE)) [0..<n] m"

definition rocshmem_collective_init :: "wrk_sync \<Rightarrow> wrk_sync" where
  "rocshmem_collective_init w =
     (let top = align_up (wrk_sync_pool_top w) wrk_sync_pool_alignment
      in w\<lparr>barrier_sync := top,
           wrk_sync_pool_top := top + 8 * ROCSHMEM_BARRIER_SYNC_SIZE,
           wmem := fill_words top ROCSHMEM_BARRIER_SYNC_SIZE (wmem w)\<rparr>)"

definition init_team_syncs :: "wrk_sync \<Rightarrow> nat \<Rightarrow> (nat \<Rightarrow> int) \<Rightarrow> nat \<Rightarrow> int" where
  "init_team_syncs w i m =
     fill_words (alltoall_pSync_pool w + 8 * (i * ROCSHMEM_ALLTOALL_SYNC_SIZE)) ROCSHMEM_ALLTOALL_SYNC_SIZE
    (fill_words (bcast_pSync_pool w + 8 * (i * ROCSHMEM_BCAST_SYNC_SIZE)) ROCSHMEM_BCAST_SYNC_SIZE
    (fill_words (reduce_pSync_pool w + 8 * (i * ROCSHMEM_REDUCE_SYNC_SIZE)) ROCSHMEM_REDUCE_SYNC_SIZE
    (fill_words (barrier_pSync_pool w + 8 * (i * ROCSHMEM_BARRIER_SYNC_SIZE)) ROCSHMEM_BARRIER_SYNC_SIZE m)))"

definition teams_init :: "nat \<Rightarrow> wrk_sync \<Rightarrow> wrk_sync" where
  "teams_init maxt w =
     (let top0 = align_up (wrk_sync_pool_top w) wrk_sync_pool_alignment;
          top1 = top0 + 8 * ROCSHMEM_BARRIER_SYNC_SIZE * maxt;
          top2 = top1 + 8 * ROCSHMEM_REDUCE_SYNC_SIZE * maxt;
          top3 = top2 + 8 * ROCSHMEM_BCAST_SYNC_SIZE * maxt;
          top4 = top3 + 8 * ROCSHMEM_ALLTOALL_SYNC_SIZE * maxt;
          top5 = top4 + 8 * ROCSHMEM_REDUCE_MIN_WRKDATA_SIZE * maxt;
          w' = w\<lparr>barrier_pSync_pool := top0, reduce_pSync_pool := top1, bcast_pSync_pool := top2,
                 alltoall_pSync_pool := top3, pWrk_pool := top4, wrk_sync_pool_top := top5\<rparr>
      in w'\<lparr>wmem := fold (init_team_syncs w') [0..<maxt] (wmem w)\<rparr>)"

definition setup_fence_buffer :: "nat \<Rightarrow> wrk_sync \<Rightarrow> wrk_sync" where
  "setup_fence_buffer np w =
     w\<lparr>fence_pool := wrk_sync_pool_top w, wrk_sync_pool_top := wrk_sync_pool_top w + 4 * np\<rparr>"

text \<open>The order of the calls in \<open>IPCBackend::init\<close>.\<close>

definition init_buffers :: "nat \<Rightarrow> nat \<Rightarrow> nat \<Rightarrow> wrk_sync \<Rightarrow> wrk_sync" where
  "init_buffers base maxt np w =
     setup_fence_buffer np (teams_init maxt (rocshmem_collective_init (setup_wrk_sync_buffers base maxt np w)))"

text \<open>The slices a team of the given pool index works in, as pairs of first address and length
  (constructor of \<open>IPCTeam\<close>).\<close>

definition team_slices :: "wrk_sync \<Rightarrow> nat \<Rightarrow> (nat \<times> nat) list" where
  "team_slices w idx =
     [(barrier_pSync_pool w + 8 * (idx * ROCSHMEM_BARRIER_SYNC_SIZE), 8 * ROCSHMEM_BARRIER_SYNC_SIZE),
      (reduce_pSync_pool w + 8 * (idx * ROCSHMEM_REDUCE_SYNC_SIZE), 8 * ROCSHMEM_REDUCE_SYNC_SIZE),
      (bcast_pSync_pool w + 8 * (idx * ROCSHMEM_BCAST_SYNC_SIZE), 8 * ROCSHMEM_BCAST_SYNC_SIZE),
      (alltoall_pSync_pool w + 8 * (idx * ROCSHMEM_ALLTOALL_SYNC_SIZE), 8 * ROCSHMEM_ALLTOALL_SYNC_SIZE),
      (pWrk_pool w + ROCSHMEM_REDUCE_MIN_WRKDATA_SIZE * 8 * idx, ROCSHMEM_REDUCE_MIN_WRKDATA_SIZE * 8)]"

section \<open>Lemmas on masks\<close>

lemma mask_bit_iff: "mask_bit bm i \<longleftrightarrow> i div 8 < length bm \<and> bit (bm ! (i div 8)) (i mod 8)"
  by (simp add: mask_bit_def bit_iff_and_push_bit_not_eq_0)

lemma length_mask [simp]:
  "length (mask_set i bm) = length bm" "length (mask_clear i bm) = length bm"
  by (simp_all add: mask_set_def mask_clear_def)

lemma same_byte_and_bit: "i div 8 = j div 8 \<Longrightarrow> i mod 8 = j mod 8 \<Longrightarrow> i = (j::nat)"
  by (metis div_mult_mod_eq)

lemma mask_bit_set:
  "mask_bit (mask_set i bm) j \<longleftrightarrow> mask_bit bm j \<or> i = j \<and> i div 8 < length bm"
  by (cases "i div 8 = j div 8")
    (auto simp: mask_bit_iff mask_set_def bit_simps nth_list_update dest: same_byte_and_bit)

lemma mask_bit_clear: "mask_bit (mask_clear i bm) j \<longleftrightarrow> mask_bit bm j \<and> i \<noteq> j"
  by (cases "i div 8 = j div 8")
    (auto simp: mask_bit_iff mask_clear_def bit_simps nth_list_update dest: same_byte_and_bit)

lemma team_bitmask_size_covers: "i < maxt \<Longrightarrow> i div 8 < team_bitmask_size maxt"
  by (auto simp: team_bitmask_size_def less_Suc_eq_le div_le_mono div_less_iff_less_mult)

lemma mask_bit_fold_set:
  "mask_bit (fold mask_set xs bm) j \<longleftrightarrow> mask_bit bm j \<or> j \<in> set xs \<and> j div 8 < length bm"
  by (induction xs arbitrary: bm) (auto simp: mask_bit_set)

lemma length_fold_mask_set [simp]: "length (fold mask_set xs bm) = length bm"
  by (induction xs arbitrary: bm) simp_all

lemma mask_bit_init: "mask_bit (init_bitmask reserved maxt) j \<longleftrightarrow> reserved \<le> j \<and> j < maxt"
  using team_bitmask_size_covers [of j maxt]
  by (auto simp: init_bitmask_def mask_bit_fold_set) (auto simp: mask_bit_iff)

lemma ls_bit_loop_cases:
  "ls_bit_loop bm xs = - 1 \<and> (\<forall>i\<in>set xs. \<not> mask_bit bm i)
   \<or> (\<exists>i\<in>set xs. ls_bit_loop bm xs = int i \<and> mask_bit bm i)"
  by (induction xs) auto

lemma get_ls_non_zero_bit_found:
  assumes "mask_bit bm i" "i < nat len"
  obtains k where "get_ls_non_zero_bit bm len = int k" "mask_bit bm k" "k < nat len"
  using ls_bit_loop_cases [of bm "[0..<nat len]"] assms
  by (fastforce simp: get_ls_non_zero_bit_def)

lemma bit_fold_and:
  "bit (fold (\<lambda>chunk acc. acc AND chunk ! i) cs (a :: u8)) k \<longleftrightarrow> bit a k \<and> (\<forall>c\<in>set cs. bit (c ! i) k)"
  by (induction cs arbitrary: a) (auto simp: bit_simps)

lemma mask_bit_Allreduce:
  assumes "1 \<le> n" "0 \<le> my" "my < n"
  shows "mask_bit (Allreduce_char_BAND env bm nb ww n my) i \<longleftrightarrow>
    i div 8 < nb \<and> (\<forall>j\<in>{0..<n}. bit ((if j = my then bm else peer_mask env (pe_start ww + j * stride ww)) ! (i div 8)) (i mod 8))"
proof -
  let ?tmp = "gather_masks env bm ww n my"
  have "?tmp \<noteq> []" using assms by (simp add: gather_masks_def)
  then have "(bit (hd ?tmp ! (i div 8)) (i mod 8) \<and> (\<forall>c\<in>set (tl ?tmp). bit (c ! (i div 8)) (i mod 8)))
    \<longleftrightarrow> (\<forall>c\<in>set ?tmp. bit (c ! (i div 8)) (i mod 8))"
    by (cases ?tmp) auto
  then show ?thesis
    by (auto simp: mask_bit_iff Allreduce_char_BAND_def Let_def bit_fold_and) (auto simp: gather_masks_def)
qed

section \<open>The pool is a team creator\<close>

text \<open>What the external calls promise: \<open>hipMalloc\<close> returns an address not in use, MPI's
  \<open>MPI_BAND\<close> reduction keeps exactly the bits that the caller and its peers have set.\<close>

definition env_ok :: "team_env \<Rightarrow> nat \<Rightarrow> bool" where
  "env_ok env maxt \<longleftrightarrow>
     (\<forall>objs. finite (dom objs) \<longrightarrow> objs (hip_malloc env objs) = None)
     \<and> (\<forall>q. length (peer_mask env q) = team_bitmask_size maxt)
     \<and> (\<forall>c bm. \<exists>red. mpi_allreduce_band env c bm = Some red
          \<and> (\<forall>i. mask_bit red i \<longrightarrow> mask_bit bm i)
          \<and> (\<forall>i. mask_bit bm i \<and> (\<forall>q. mask_bit (peer_mask env q) i) \<longrightarrow> mask_bit red i))"

definition pool_max :: "'b backend_scheme \<Rightarrow> nat" where
  "pool_max b = nat (get_max_num_teams (tracker b))"

definition common_indices :: "team_env \<Rightarrow> ipc_backend \<Rightarrow> nat set" where
  "common_indices env b =
     {i. i < pool_max b \<and> mask_bit (team_pool_bitmask b) i \<and> (\<forall>q. mask_bit (peer_mask env q) i)}"

definition pool_ready :: "team_env \<Rightarrow> nat \<Rightarrow> ipc_backend \<Rightarrow> bool" where
  "pool_ready env k b \<longleftrightarrow> env_ok env (pool_max b) \<and> finite (dom (team_objs b))
     \<and> length (team_pool_bitmask b) = team_bitmask_size (pool_max b) \<and> k \<le> card (common_indices env b)"

lemma finite_common_indices [simp]: "finite (common_indices env b)"
  by (rule finite_subset [of _ "{..<pool_max b}"]) (auto simp: common_indices_def)

lemma reduce_masks_ok:
  assumes "env_ok env (pool_max b)" "length (team_pool_bitmask b) = team_bitmask_size (pool_max b)"
    and "layout_ok ww n my"
  obtains red where "reduce_masks env b ww n my c = Inr red"
    "\<And>i. mask_bit red i \<Longrightarrow> mask_bit (team_pool_bitmask b) i"
    "\<And>i. i \<in> common_indices env b \<Longrightarrow> mask_bit red i"
proof (cases c)
  case None
  have n: "1 \<le> n" "0 \<le> my" "my < n" using assms(3) by (auto simp: layout_ok_def)
  show ?thesis
  proof (rule that)
    show "reduce_masks env b ww n my c = Inr (Allreduce_char_BAND env (team_pool_bitmask b)
        (team_bitmask_size (pool_max b)) ww n my)"
      by (simp add: reduce_masks_def None pool_max_def)
  next
    fix i assume "mask_bit (Allreduce_char_BAND env (team_pool_bitmask b) (team_bitmask_size (pool_max b)) ww n my) i"
    then show "mask_bit (team_pool_bitmask b) i"
      using n assms(2) unfolding mask_bit_Allreduce [OF n] by (force simp: mask_bit_iff)
  next
    fix i assume "i \<in> common_indices env b"
    then show "mask_bit (Allreduce_char_BAND env (team_pool_bitmask b) (team_bitmask_size (pool_max b)) ww n my) i"
      using assms(2) unfolding mask_bit_Allreduce [OF n] by (auto simp: common_indices_def mask_bit_iff)
  qed
next
  case (Some c')
  obtain red where "mpi_allreduce_band env c' (team_pool_bitmask b) = Some red"
    "\<And>i. mask_bit red i \<Longrightarrow> mask_bit (team_pool_bitmask b) i"
    "\<And>i. mask_bit (team_pool_bitmask b) i \<Longrightarrow> (\<forall>q. mask_bit (peer_mask env q) i) \<Longrightarrow> mask_bit red i"
    using assms(1) unfolding env_ok_def by meson
  then show ?thesis by (intro that [of red]) (auto simp: reduce_masks_def Some common_indices_def)
qed

text \<open>Every creation takes an index whose bit was set in the caller's own mask and clears it.\<close>

lemma create_new_team_ok:
  assumes "pool_ready env (Suc k) b" "layout_ok ww n my"
  obtains red idx where
    "create_new_team env b p wp ww n my c =
       Inr (b\<lparr>team_reduced_bitmask := red, team_pool_bitmask := mask_clear idx (team_pool_bitmask b),
             team_objs := (team_objs b)(hip_malloc env (team_objs b) \<mapsto> new_ipc_team env b wp ww n my c (int idx))\<rparr>,
           Some (hip_malloc env (team_objs b)))"
    "reduce_masks env b ww n my c = Inr red"
    "mask_bit (team_pool_bitmask b) idx" "idx < pool_max b"
proof -
  obtain red where red: "reduce_masks env b ww n my c = Inr red"
    "\<And>i. mask_bit red i \<Longrightarrow> mask_bit (team_pool_bitmask b) i"
    "\<And>i. i \<in> common_indices env b \<Longrightarrow> mask_bit red i"
    using reduce_masks_ok assms unfolding pool_ready_def by metis
  have "common_indices env b \<noteq> {}" using assms(1) by (auto simp: pool_ready_def)
  then obtain i where "i \<in> common_indices env b" by blast
  then have "mask_bit red i" "i < nat (get_max_num_teams (tracker b))"
    using red(3) by (auto simp: common_indices_def pool_max_def)
  then obtain idx where "get_ls_non_zero_bit red (get_max_num_teams (tracker b)) = int idx"
    "mask_bit red idx" "idx < nat (get_max_num_teams (tracker b))"
    by (rule get_ls_non_zero_bit_found)
  then show ?thesis
    using red by (intro that [of idx red]) (auto simp: create_new_team_def Let_def pool_max_def)
qed

interpretation ipc: team_creator "create_new_team env" "pool_ready env" for env
proof
  fix k b ww n m p wp c
  assume a: "pool_ready env (Suc k) b" "layout_ok ww n m"
  obtain red idx where c: "create_new_team env b p wp ww n m c =
       Inr (b\<lparr>team_reduced_bitmask := red, team_pool_bitmask := mask_clear idx (team_pool_bitmask b),
             team_objs := (team_objs b)(hip_malloc env (team_objs b) \<mapsto> new_ipc_team env b wp ww n m c (int idx))\<rparr>,
           Some (hip_malloc env (team_objs b)))" (is "_ = Inr (?b, Some ?h)")
    and idx: "mask_bit (team_pool_bitmask b) idx"
    using create_new_team_ok [OF a] by metis
  have "common_indices env ?b = common_indices env b - {idx}"
    by (auto simp: common_indices_def pool_max_def mask_bit_clear)
  then have "pool_ready env k ?b"
    using a(1) card_Diff1_le [of "common_indices env b" idx] card_Diff_singleton_if [of "common_indices env b" idx]
    by (auto simp: pool_ready_def pool_max_def split: if_splits)
  moreover have "team_added b ?b ?h (new_ipc_team env b wp ww n m c (int idx))"
    using a(1) by (auto simp: team_added_def pool_ready_def env_ok_def)
  ultimately show "\<exists>b' h t. create_new_team env b p wp ww n m c = Inr (b', Some h) \<and> team_added b b' h t
        \<and> tinfo_wrt_parent t = wp \<and> tinfo_wrt_world t = ww \<and> team_num_pes t = n \<and> team_my_pe t = m
        \<and> tracker b' = tracker b \<and> pool_ready env k b'"
    using c by (intro exI conjI) (auto simp: new_ipc_team_def)
next
  fix k b t
  assume "pool_ready env k b"
  moreover have "pool_max (b\<lparr>tracker := track t (tracker b)\<rparr>) = pool_max b"
    by (simp add: pool_max_def get_max_num_teams_def)
  ultimately show "pool_ready env k (b\<lparr>tracker := track t (tracker b)\<rparr>)"
    by (simp add: pool_ready_def common_indices_def)
qed

section \<open>Live teams have different pool indices\<close>

definition pool_inv :: "ipc_backend \<Rightarrow> bool" where
  "pool_inv b \<longleftrightarrow> length (team_pool_bitmask b) = team_bitmask_size (pool_max b)
     \<and> finite (dom (team_objs b))
     \<and> (\<forall>h t. team_objs b h = Some t \<longrightarrow> 0 \<le> pool_index t \<and> nat (pool_index t) < pool_max b
          \<and> \<not> mask_bit (team_pool_bitmask b) (nat (pool_index t)))
     \<and> (\<forall>h t h' t'. team_objs b h = Some t \<longrightarrow> team_objs b h' = Some t' \<longrightarrow> h \<noteq> h'
          \<longrightarrow> pool_index t \<noteq> pool_index t')"

text \<open>After \<open>IPCBackend::init\<close> the only teams are the world and the shared team.\<close>

definition pool_init :: "ipc_backend \<Rightarrow> bool" where
  "pool_init b \<longleftrightarrow> 2 \<le> pool_max b \<and> team_pool_bitmask b = init_bitmask 2 (pool_max b)
     \<and> (\<exists>w s tw ts. w \<noteq> s \<and> team_objs b = [w \<mapsto> tw, s \<mapsto> ts] \<and> pool_index tw = 0 \<and> pool_index ts = 1)"

inductive pool_step :: "ipc_backend \<Rightarrow> ipc_backend \<Rightarrow> bool" where
  step_create: "env_ok env (pool_max b) \<Longrightarrow> layout_ok ww n my
    \<Longrightarrow> create_new_team env b p wp ww n my c = Inr (b', t) \<Longrightarrow> pool_step b b'"
| step_destroy: "team_destroy b h = Inr b' \<Longrightarrow> pool_step b b'"
| step_track: "pool_step b (b\<lparr>tracker := track t (tracker b)\<rparr>)"

lemma create_new_team_result:
  assumes "create_new_team env b p wp ww n my c = Inr (b', t)"
  obtains red idx where "reduce_masks env b ww n my c = Inr red" "mask_bit red idx" "idx < pool_max b"
    "get_ls_non_zero_bit red (get_max_num_teams (tracker b)) = int idx"
    "t = Some (hip_malloc env (team_objs b))"
    "b' = b\<lparr>team_reduced_bitmask := red, team_pool_bitmask := mask_clear idx (team_pool_bitmask b),
       team_objs := (team_objs b)(hip_malloc env (team_objs b) \<mapsto> new_ipc_team env b wp ww n my c (int idx))\<rparr>"
proof -
  obtain red where red: "reduce_masks env b ww n my c = Inr red"
    and r: "\<not> get_ls_non_zero_bit red (get_max_num_teams (tracker b)) < 0"
    using assms by (auto simp: create_new_team_def bind_r_eq_Inr Let_def split: if_splits)
  then obtain idx where "get_ls_non_zero_bit red (get_max_num_teams (tracker b)) = int idx"
    "mask_bit red idx" "idx < pool_max b"
    using ls_bit_loop_cases [of red "[0..<pool_max b]"] by (auto simp: get_ls_non_zero_bit_def pool_max_def)
  then show ?thesis
    using assms red by (intro that [of red idx]) (auto simp: create_new_team_def Let_def)
qed

lemma pool_max_simps [simp]:
  "pool_max (b\<lparr>tracker := track t (tracker b)\<rparr>) = pool_max b"
  "pool_max (b\<lparr>team_pool_bitmask := m\<rparr>) = pool_max b"
  "pool_max (b\<lparr>team_reduced_bitmask := m\<rparr>) = pool_max b"
  "pool_max (b\<lparr>team_objs := objs\<rparr>) = pool_max b"
  by (simp_all add: pool_max_def get_max_num_teams_def)

lemma pool_inv_create:
  assumes "pool_inv b" "env_ok env (pool_max b)" "layout_ok ww n my"
    and c: "create_new_team env b p wp ww n my c = Inr (b', t)"
  shows "pool_inv b'"
proof -
  obtain red idx where r: "reduce_masks env b ww n my c = Inr red" "mask_bit red idx" "idx < pool_max b"
    and b': "b' = b\<lparr>team_reduced_bitmask := red, team_pool_bitmask := mask_clear idx (team_pool_bitmask b),
       team_objs := (team_objs b)(hip_malloc env (team_objs b) \<mapsto> new_ipc_team env b wp ww n my c (int idx))\<rparr>"
    using c by (rule create_new_team_result)
  have len: "length (team_pool_bitmask b) = team_bitmask_size (pool_max b)"
    using assms(1) by (simp add: pool_inv_def)
  have own: "mask_bit (team_pool_bitmask b) idx"
    using reduce_masks_ok [OF assms(2) len assms(3), where c = c] r(1,2) by (metis Inr_inject)
  have idx: "pool_index (new_ipc_team env b wp ww n my c (int idx)) = int idx"
    by (simp add: new_ipc_team_def)
  have "nat (pool_index t) \<noteq> idx" "pool_index t \<noteq> int idx" if "team_objs b h = Some t" for h t
    using assms(1) own that unfolding pool_inv_def by force+
  then show ?thesis
    using assms(1) r(3) len unfolding pool_inv_def b'
    by (auto simp: mask_bit_clear idx split: if_splits) blast
qed

lemma pool_inv_destroy:
  assumes "pool_inv b" "team_destroy b h = Inr b'"
  shows "pool_inv b'"
proof -
  obtain t where t: "team_objs b h = Some t"
    and b': "b' = b\<lparr>team_pool_bitmask := mask_set (nat (pool_index t)) (team_pool_bitmask b),
             team_objs := (team_objs b)(h := None)\<rparr>"
    using assms(2) by (auto simp: team_destroy_def bind_r_eq_Inr get_internal_team_def split: option.splits)
  have "nat (pool_index t') \<noteq> nat (pool_index t)" if "team_objs b h' = Some t'" "h' \<noteq> h" for h' t'
    using assms(1) that t unfolding pool_inv_def by (metis eq_nat_nat_iff)
  then show ?thesis
    using assms(1) unfolding pool_inv_def b'
    by (auto simp: mask_bit_set split: if_splits) (metis t)
qed

interpretation pool: invariant_system pool_init pool_step pool_inv
proof
  fix b assume "pool_init b"
  then show "pool_inv b"
    by (auto simp: pool_init_def pool_inv_def mask_bit_init split: if_splits)
      (simp_all add: init_bitmask_def)
next
  fix b b' assume "pool_inv b" "pool_step b b'"
  then show "pool_inv b'"
    by (auto elim!: pool_step.cases intro: pool_inv_create pool_inv_destroy) (simp add: pool_inv_def)
qed

section \<open>Slices of the work/sync buffer\<close>

lemma align_up_dvd: "8 dvd x \<Longrightarrow> align_up x wrk_sync_pool_alignment = x"
  by (auto simp: align_up_def wrk_sync_pool_alignment_def elim!: dvdE)

lemma align_up_ge: "x \<le> align_up x wrk_sync_pool_alignment"
  by (auto simp: align_up_def wrk_sync_pool_alignment_def)

lemmas buffer_defs = init_buffers_def setup_fence_buffer_def teams_init_def rocshmem_collective_init_def
  setup_wrk_sync_buffers_def Let_def sync_sizes

lemma buffer_addresses:
  fixes base maxt np :: nat and w0 :: wrk_sync
  assumes "8 dvd base"
  defines "w \<equiv> init_buffers base maxt np w0"
  shows "barrier_sync w = base" "barrier_pSync_pool w = base + 2048"
    "reduce_pSync_pool w = base + 2048 + 2048 * maxt" "bcast_pSync_pool w = base + 2048 + 4096 * maxt"
    "alltoall_pSync_pool w = base + 2048 + 6144 * maxt" "pWrk_pool w = base + 2048 + 8200 * maxt"
    "fence_pool w = base + 2048 + 8396808 * maxt"
    "base + 2048 + 8396808 * maxt + 4 * np \<le> base + wrk_sync_pool_size w"
proof -
  have "8 dvd base + 2048" using assms(1) by (simp add: dvd_add_right_iff)
  then have a: "align_up base wrk_sync_pool_alignment = base"
    "align_up (base + 2048) wrk_sync_pool_alignment = base + 2048"
    using assms(1) by (simp_all only: align_up_dvd)
  show "barrier_sync w = base" "barrier_pSync_pool w = base + 2048"
    "reduce_pSync_pool w = base + 2048 + 2048 * maxt" "bcast_pSync_pool w = base + 2048 + 4096 * maxt"
    "alltoall_pSync_pool w = base + 2048 + 6144 * maxt" "pWrk_pool w = base + 2048 + 8200 * maxt"
    "fence_pool w = base + 2048 + 8396808 * maxt"
    unfolding w_def by (simp_all add: buffer_defs a)
  show "base + 2048 + 8396808 * maxt + 4 * np \<le> base + wrk_sync_pool_size w"
    using align_up_ge [of "2048 + 8396808 * maxt + 4 * np"]
    unfolding w_def by (simp add: buffer_defs algebra_simps)
qed

lemma team_slices_disjoint:
  assumes "8 dvd base" "i < maxt" "j < maxt" "i \<noteq> j"
    and "(a, l) \<in> set (team_slices (init_buffers base maxt np w0) i)"
    and "(a', l') \<in> set (team_slices (init_buffers base maxt np w0) j)"
  shows "a + l \<le> a' \<or> a' + l' \<le> a"
  using assms(2-) by (auto simp: team_slices_def buffer_addresses [OF assms(1)] sync_sizes)

lemma team_slices_inside:
  assumes "8 dvd base" "i < maxt" "(a, l) \<in> set (team_slices (init_buffers base maxt np w0) i)"
  shows "base + 2048 \<le> a \<and> a + l \<le> fence_pool (init_buffers base maxt np w0)"
  using assms(2-) by (auto simp: team_slices_def buffer_addresses [OF assms(1)] sync_sizes)

section \<open>Properties\<close>

text \<open>C28. In every state reachable by creating, tracking and destroying teams, the buffer slices of
  two different live teams (their pSync arrays and their reduction work array) do not overlap,
  and every slice lies inside the work/sync buffer allocated for the pool.\<close>

theorem live_teams_disjoint_buffers:
  assumes "reachable pool_init pool_step b" "8 dvd base"
    and "team_objs b h = Some t" "team_objs b h' = Some t'" "h \<noteq> h'"
    and "(a, l) \<in> set (team_slices (init_buffers base (pool_max b) np w0) (nat (pool_index t)))"
    and "(a', l') \<in> set (team_slices (init_buffers base (pool_max b) np w0) (nat (pool_index t')))"
  shows "(a + l \<le> a' \<or> a' + l' \<le> a)
    \<and> base \<le> a \<and> a + l \<le> base + wrk_sync_pool_size (init_buffers base (pool_max b) np w0)"
proof -
  have inv: "pool_inv b" using assms(1) by (rule pool.reachable_inv)
  then have r: "0 \<le> pool_index t" "nat (pool_index t) < pool_max b"
    "0 \<le> pool_index t'" "nat (pool_index t') < pool_max b" "pool_index t \<noteq> pool_index t'"
    using assms(3-5) unfolding pool_inv_def by metis+
  then have "nat (pool_index t) \<noteq> nat (pool_index t')" by linarith
  moreover note team_slices_inside [OF assms(2) r(2) assms(6)] buffer_addresses [OF assms(2), of "pool_max b" np w0]
  ultimately show ?thesis
    using team_slices_disjoint [OF assms(2) r(2,4) _ assms(6,7)] by linarith
qed

text \<open>All members of a new team choose the same pool index: if the masks exchanged through the
  bootstrap are the members' own masks, two members that both complete the creation have
  stored the same index in their team objects, and no member's index was in use at the other.\<close>

theorem team_members_agree_on_pool_index:
  assumes "create_new_team env b1 p1 wp1 ww n j1 None = Inr (b1', Some h1)"
    and "create_new_team env b2 p2 wp2 ww n j2 None = Inr (b2', Some h2)"
    and "0 \<le> j1" "j1 < n" "0 \<le> j2" "j2 < n"
    and "peer_mask env (pe_start ww + j1 * stride ww) = team_pool_bitmask b1"
    and "peer_mask env (pe_start ww + j2 * stride ww) = team_pool_bitmask b2"
    and "get_max_num_teams (tracker b1) = get_max_num_teams (tracker b2)"
    and "length (team_pool_bitmask b2) = team_bitmask_size (pool_max b2)"
  shows "\<exists>t1 t2. team_objs b1' h1 = Some t1 \<and> team_objs b2' h2 = Some t2 \<and> pool_index t1 = pool_index t2
    \<and> mask_bit (team_pool_bitmask b2) (nat (pool_index t1))"
proof -
  have n: "1 \<le> n" using assms by simp
  obtain r1 i1 where c1: "reduce_masks env b1 ww n j1 None = Inr r1" "mask_bit r1 i1"
    "get_ls_non_zero_bit r1 (get_max_num_teams (tracker b1)) = int i1"
    "Some h1 = Some (hip_malloc env (team_objs b1))"
    "b1' = b1\<lparr>team_reduced_bitmask := r1, team_pool_bitmask := mask_clear i1 (team_pool_bitmask b1),
       team_objs := (team_objs b1)(hip_malloc env (team_objs b1) \<mapsto> new_ipc_team env b1 wp1 ww n j1 None (int i1))\<rparr>"
    using assms(1) by (rule create_new_team_result)
  obtain r2 i2 where c2: "reduce_masks env b2 ww n j2 None = Inr r2"
    "get_ls_non_zero_bit r2 (get_max_num_teams (tracker b2)) = int i2"
    "Some h2 = Some (hip_malloc env (team_objs b2))"
    "b2' = b2\<lparr>team_reduced_bitmask := r2, team_pool_bitmask := mask_clear i2 (team_pool_bitmask b2),
       team_objs := (team_objs b2)(hip_malloc env (team_objs b2) \<mapsto> new_ipc_team env b2 wp2 ww n j2 None (int i2))\<rparr>"
    using assms(2) by (rule create_new_team_result)
  have "gather_masks env (team_pool_bitmask b1) ww n j1 = gather_masks env (team_pool_bitmask b2) ww n j2"
    using assms(7,8) by (auto simp: gather_masks_def)
  then have r: "r1 = r2"
    using c1(1) c2(1) assms(9) by (simp add: reduce_masks_def Allreduce_char_BAND_def)
  then have i: "i1 = i2" using c1(3) c2(2) assms(9) by simp
  have r2: "r2 = Allreduce_char_BAND env (team_pool_bitmask b2) (team_bitmask_size (pool_max b2)) ww n j2"
    using c2(1) by (simp add: reduce_masks_def pool_max_def)
  have "mask_bit (team_pool_bitmask b2) i1"
    using c1(2) assms(5,6,10) unfolding r r2 mask_bit_Allreduce [OF n assms(5,6)]
    by (force simp: mask_bit_iff)
  then show ?thesis using c1(4,5) c2(3,4) i by (simp add: new_ipc_team_def)
qed

text \<open>Splitting a parent team of n PEs into a grid with rows of length xr (the requested length, at
  most n) succeeds on every member when three user teams and two pool indices are free: member r is
  put into row r div xr at position r mod xr and into column r mod xr at position r div xr, and
  the two new teams consist of exactly the parent's members of that row and of that column.\<close>

theorem ipc_team_split_2d:
  assumes "member_of b p P r" "pool_ready env 2 b"
    and "tracker_ok (tracker b)" "3 \<le> free_teams (tracker b)" "1 \<le> xrange"
    and "is_c_int (team_num_pes P * stride (tinfo_wrt_world P))" "2 * team_num_pes P \<le> int_max"
  shows "\<exists>b1 b2 hx tx hy ty.
      rocshmem_team_split_2d cs (create_new_team env) b (Some p) xrange
        = Inr (b2, ROCSHMEM_SUCCESS, Some hx, Some hy)
      \<and> team_added b b1 hx tx \<and> team_added b1 b2 hy ty
      \<and> (let n = team_num_pes P; xr = min xrange n in
          team_my_pe tx = r mod xr \<and> team_num_pes tx = min xr (n - r div xr * xr)
          \<and> (\<forall>i. world_rank tx i = world_rank P (r div xr * xr + i))
          \<and> team_my_pe ty = r div xr \<and> team_num_pes ty = (n - r mod xr + xr - 1) div xr
          \<and> (\<forall>i. world_rank ty i = world_rank P (r mod xr + xr * i)))"
  using ipc.split_2d_member [OF assms] unfolding Let_def .

text \<open>C40. The bounds check of the strided split admits a team whose last member does not exist: on the last
  PE of a world of n PEs, splitting the world team with start n - 1, stride 1 and size 2 succeeds, and
  member 1 of the new team is PE number n, while the PEs are numbered 0 to n - 1.\<close>

theorem split_strided_accepts_missing_pe:
  assumes "member_of b p P (num_pes b - 1)" "pool_ready env 1 b"
    and "tracker_ok (tracker b)" "0 < free_teams (tracker b)"
    and "tinfo_wrt_world P = \<lparr>parent_team = w, pe_start = 0, stride = 1, ti_size = num_pes b\<rparr>"
    and "team_num_pes P = num_pes b" "2 \<le> num_pes b"
  shows "\<exists>b' h t. rocshmem_team_split_strided cs (create_new_team env) b (Some p) (num_pes b - 1) 1 2 = Inr (b', 0, Some h)
      \<and> team_objs b' h = Some t \<and> team_num_pes t = 2 \<and> world_rank t 1 = num_pes b"
proof -
  have acc: "split_accepted (num_pes b) P (num_pes b - 1) 1 2"
    using assms(5-7) by (simp add: split_accepted_def world_rank_def)
  have "is_c_int (1 * stride (tinfo_wrt_world P))" by (simp add: assms(5) is_c_int_def int_max_def int_min_def)
  from ipc.split_strided_member [OF assms(1) _ assms(3,4) acc this, of env 0 0 cs] obtain b' h t where
    "rocshmem_team_split_strided cs (create_new_team env) b (Some p) (num_pes b - 1) 1 2 = Inr (b', 0, Some h)"
    "team_added b b' h t" "team_num_pes t = 2" "\<forall>i. world_rank t i = world_rank P (num_pes b - 1 + 1 * i)"
    using assms(2) by auto
  moreover from this have "world_rank t 1 = world_rank P (num_pes b)" by simp
  moreover have "world_rank P (num_pes b) = num_pes b" by (simp add: world_rank_def assms(5))
  ultimately show ?thesis by (auto simp: team_added_def)
qed

subsection \<open>Instances\<close>

text \<open>A world of six PEs seen from PE 5, with room for eight user teams.\<close>

definition world6 :: "int \<Rightarrow> team" where
  "world6 idx = \<lparr>world_size = 6, my_pe_in_world = 5,
     tinfo_wrt_world = \<lparr>parent_team = None, pe_start = 0, stride = 1, ti_size = 6\<rparr>,
     tinfo_wrt_parent = \<lparr>parent_team = None, pe_start = 0, stride = 1, ti_size = 6\<rparr>,
     team_num_pes = 6, team_my_pe = 5, mpi_comm = None, pool_index = idx\<rparr>"

definition backend6 :: ipc_backend where
  "backend6 = \<lparr>num_pes = 6, my_pe = 5, tracker = new_tracker True 8,
     team_objs = [1 \<mapsto> world6 0, 2 \<mapsto> world6 1],
     team_pool_bitmask = init_bitmask 2 10, team_reduced_bitmask = [0, 0]\<rparr>"

definition env6 :: team_env where
  "env6 = \<lparr>peer_mask = (\<lambda>q. init_bitmask 2 10), mpi_allreduce_band = (\<lambda>c bm. Some bm),
     mpi_comm_dup = (\<lambda>c. c), hip_malloc = (\<lambda>objs. LEAST a. objs a = None)\<rparr>"

definition wrk_sync6 :: wrk_sync where
  "wrk_sync6 = \<lparr>wrk_sync_pool = 0, wrk_sync_pool_size = 0, wrk_sync_pool_top = 0, barrier_sync = 0,
     barrier_pSync_pool = 0, reduce_pSync_pool = 0, bcast_pSync_pool = 0, alltoall_pSync_pool = 0,
     pWrk_pool = 0, fence_pool = 0, wmem = (\<lambda>a. 7)\<rparr>"

lemma malloc6: "finite (dom objs) \<Longrightarrow> objs (LEAST a. objs a = None) = (None :: team option)"
  for objs :: "nat \<Rightarrow> team option"
  by (rule LeastI_ex) (metis domIff ex_new_if_finite infinite_UNIV_nat)

lemma backend6_simps [simp]:
  "num_pes backend6 = 6" "my_pe backend6 = 5" "team_objs backend6 = [1 \<mapsto> world6 0, 2 \<mapsto> world6 1]"
  "team_pool_bitmask backend6 = init_bitmask 2 10" "pool_max backend6 = 10"
  "get_max_num_teams (tracker backend6) = 10"
  "peer_mask env6 q = init_bitmask 2 10"
  "team_num_pes (world6 i) = 6" "pool_index (world6 i) = i"
  "tinfo_wrt_world (world6 i) = \<lparr>parent_team = None, pe_start = 0, stride = 1, ti_size = 6\<rparr>"
  by (simp_all add: backend6_def world6_def env6_def pool_max_def get_max_num_teams_def new_tracker_def
      NUM_RESERVED_TEAMS_def sint_ucast_small)

lemma tracker6: "tracker_ok (tracker backend6)" "free_teams (tracker backend6) = 8"
  by (simp_all add: backend6_def new_tracker_def tracker_ok_def free_teams_def NUM_RESERVED_TEAMS_def)

lemma length_init_bitmask6 [simp]: "length (init_bitmask 2 10) = team_bitmask_size 10"
  by (simp add: init_bitmask_def)

lemma pool_ready6: "pool_ready env6 2 backend6"
proof -
  have "common_indices env6 backend6 = {2..<10}"
    by (auto simp: common_indices_def mask_bit_init)
  moreover have "env_ok env6 10"
    unfolding env_ok_def by (auto simp: env6_def malloc6)
  ultimately show ?thesis by (simp add: pool_ready_def)
qed

lemma member6: "member_of backend6 1 (world6 0) 5"
  by (simp add: member_of_def team_wf_def world_rank_def int_max_def)

theorem live_teams_disjoint_buffers_witness:
  "(2112, 2048) \<in> set (team_slices (init_buffers 64 10 6 wrk_sync6) 0)
   \<and> (4160, 2048) \<in> set (team_slices (init_buffers 64 10 6 wrk_sync6) 1)
   \<and> (2112 + 2048 \<le> (4160::nat) \<or> 4160 + 2048 \<le> (2112::nat)) \<and> 64 \<le> (2112::nat)
   \<and> 2112 + 2048 \<le> 64 + wrk_sync_pool_size (init_buffers 64 10 6 wrk_sync6)"
proof -
  have "pool_init backend6"
    unfolding pool_init_def
    by (intro conjI exI [of _ "1::nat"] exI [of _ "2::nat"] exI [of _ "world6 0"] exI [of _ "world6 1"]) simp_all
  then have "reachable pool_init pool_step backend6" by (rule reach_init)
  from live_teams_disjoint_buffers [OF this, of 64 1 "world6 0" 2 "world6 1" 2112 2048 6 wrk_sync6 4160 2048]
  show ?thesis by (simp add: team_slices_def buffer_addresses sync_sizes Let_def)
qed

theorem team_members_agree_on_pool_index_witness:
  "\<exists>b1 h1 b2 h2 t1 t2.
     create_new_team env6 backend6 1 \<lparr>parent_team = Some 1, pe_start = 4, stride = 1, ti_size = 2\<rparr>
       \<lparr>parent_team = Some 1, pe_start = 4, stride = 1, ti_size = 2\<rparr> 2 0 None = Inr (b1, Some h1)
   \<and> create_new_team env6 backend6 1 \<lparr>parent_team = Some 1, pe_start = 4, stride = 1, ti_size = 2\<rparr>
       \<lparr>parent_team = Some 1, pe_start = 4, stride = 1, ti_size = 2\<rparr> 2 1 None = Inr (b2, Some h2)
   \<and> team_objs b1 h1 = Some t1 \<and> team_objs b2 h2 = Some t2 \<and> pool_index t1 = pool_index t2"
proof -
  let ?i = "\<lparr>parent_team = Some 1, pe_start = 4, stride = 1, ti_size = 2\<rparr>"
  have r: "pool_ready env6 (Suc 1) backend6" using pool_ready6 by (simp add: numeral_2_eq_2)
  have l: "layout_ok ?i 2 0" "layout_ok ?i 2 1" by (simp_all add: layout_ok_def int_max_def)
  obtain b1 h1 where c1: "create_new_team env6 backend6 1 ?i ?i 2 0 None = Inr (b1, Some h1)"
    using ipc.create_ok [OF r l(1)] by meson
  obtain b2 h2 where c2: "create_new_team env6 backend6 1 ?i ?i 2 1 None = Inr (b2, Some h2)"
    using ipc.create_ok [OF r l(2)] by meson
  show ?thesis
    using team_members_agree_on_pool_index [OF c1 c2] c1 c2 by simp blast
qed

theorem ipc_team_split_2d_witness:
  "\<exists>b1 b2 hx tx hy ty.
     rocshmem_team_split_2d (\<lambda>c color key. None) (create_new_team env6) backend6 (Some 1) 4
       = Inr (b2, ROCSHMEM_SUCCESS, Some hx, Some hy)
   \<and> team_added backend6 b1 hx tx \<and> team_added b1 b2 hy ty
   \<and> team_my_pe tx = 1 \<and> team_num_pes tx = 2 \<and> team_my_pe ty = 1 \<and> team_num_pes ty = 2"
  using ipc_team_split_2d [OF member6 pool_ready6 tracker6(1), of 4 "\<lambda>c color key. None"]
  by (simp add: tracker6 is_c_int_def int_max_def int_min_def Let_def) blast

theorem split_strided_accepts_missing_pe_witness:
  "\<exists>b h t. rocshmem_team_split_strided (\<lambda>c color key. None) (create_new_team env6) backend6 (Some 1) 5 1 2
       = Inr (b, 0, Some h) \<and> team_objs b h = Some t \<and> world_rank t 1 = num_pes backend6"
proof -
  have "pool_ready env6 1 backend6" using pool_ready6 by (auto simp: pool_ready_def)
  then show ?thesis
    using split_strided_accepts_missing_pe [of backend6 1 "world6 0" env6 None "\<lambda>c color key. None"] member6 tracker6
    by auto
qed

end
