(* ===== verification/Abql_Mutex.thy ===== *)
theory Abql_Mutex
  imports Prelude
begin

text \<open>
  The array-based queue lock \<open>ABQLBlockMutex\<close> (\<open>src/sync/abql_block_mutex.hpp\<close> and
  \<open>.cpp\<close>). The data and the member functions are modelled at their width (64-bit
  tickets that wrap around, 32 turn slots). A step relation interleaves any
  number of blocks that lock and unlock; the abstract machine is a FIFO queue
  of blocks, and a simulation relates the two.
\<close>

section \<open>The mutex\<close>

definition memory_channels :: nat where "memory_channels = 32"

record mutex =
  ticket :: u64
  turns :: "u64 list"

definition new_mutex :: mutex where
  "new_mutex = \<lparr>ticket = 0, turns = replicate memory_channels 0\<rparr>"

definition grab_ticket :: "mutex \<Rightarrow> u64 \<times> mutex" where
  "grab_ticket m = (ticket m, m\<lparr>ticket := ticket m + 1\<rparr>)"

definition slot :: "u64 \<Rightarrow> nat" where "slot t = unat t mod memory_channels"

definition is_turn :: "mutex \<Rightarrow> u64 \<Rightarrow> bool" where
  "is_turn m t \<longleftrightarrow> turns m ! slot t = t"

definition signal_next :: "u64 \<Rightarrow> mutex \<Rightarrow> mutex" where
  "signal_next t m = m\<lparr>turns := (turns m)[slot t := t]\<rparr>"

definition unlock :: "u64 \<Rightarrow> mutex \<Rightarrow> mutex" where
  "unlock my_ticket m = signal_next (my_ticket + 1) m"

section \<open>Blocks that use the mutex\<close>

text \<open>\<open>lock\<close> consists of two steps, the atomic increment of \<open>grab_ticket_\<close> and the end of the loop of
  \<open>wait_turn_\<close>; a block is idle, waits with a ticket, or holds the lock with one.\<close>

datatype block = Idle | Waiting u64 | Holding u64

record lock_state =
  mtx :: mutex
  blocks :: "block list"

definition lock_init :: "nat \<Rightarrow> lock_state \<Rightarrow> bool" where
  "lock_init n s \<longleftrightarrow> mtx s = new_mutex \<and> blocks s = replicate n Idle"

inductive lock_step :: "lock_state \<Rightarrow> lock_state \<Rightarrow> bool" where
  grab: "i < length (blocks s) \<Longrightarrow> blocks s ! i = Idle \<Longrightarrow> grab_ticket (mtx s) = (t, m) \<Longrightarrow>
    lock_step s \<lparr>mtx = m, blocks = (blocks s)[i := Waiting t]\<rparr>"
| enter: "i < length (blocks s) \<Longrightarrow> blocks s ! i = Waiting t \<Longrightarrow> is_turn (mtx s) t \<Longrightarrow>
    lock_step s (s\<lparr>blocks := (blocks s)[i := Holding t]\<rparr>)"
| release: "i < length (blocks s) \<Longrightarrow> blocks s ! i = Holding t \<Longrightarrow>
    lock_step s \<lparr>mtx = unlock t (mtx s), blocks = (blocks s)[i := Idle]\<rparr>"

section \<open>The abstract lock: a queue of blocks\<close>

record queue_lock =
  queue :: "nat list"
  held :: bool

inductive queue_step :: "queue_lock \<Rightarrow> queue_lock \<Rightarrow> bool" where
  q_join: "i \<notin> set (queue q) \<Longrightarrow> queue_step q (q\<lparr>queue := queue q @ [i]\<rparr>)"
| q_enter: "queue q \<noteq> [] \<Longrightarrow> \<not> held q \<Longrightarrow> queue_step q (q\<lparr>held := True\<rparr>)"
| q_leave: "queue q \<noteq> [] \<Longrightarrow> held q \<Longrightarrow> queue_step q \<lparr>queue = tl (queue q), held = False\<rparr>"

section \<open>Simulation\<close>

text \<open>\<open>v\<close> is the number of times the lock was released so far. Slot \<open>j\<close> holds the last ticket
  signalled there, or still its initial zero.\<close>

definition slot_ok :: "nat \<Rightarrow> nat \<Rightarrow> u64 \<Rightarrow> bool" where
  "slot_ok v j w \<longleftrightarrow> (\<exists>k. w = word_of_nat k \<and> k \<le> v \<and> v < k + memory_channels
     \<and> (k mod memory_channels = j \<or> k = 0 \<and> v < j))"

definition block_at :: "nat \<Rightarrow> bool \<Rightarrow> nat \<Rightarrow> block" where
  "block_at v h k = (if k = 0 \<and> h then Holding (word_of_nat v) else Waiting (word_of_nat (v + k)))"

definition simulates :: "nat \<Rightarrow> lock_state \<Rightarrow> nat \<Rightarrow> queue_lock \<Rightarrow> bool" where
  "simulates n s v q \<longleftrightarrow>
     length (blocks s) = n \<and> length (turns (mtx s)) = memory_channels
     \<and> ticket (mtx s) = word_of_nat (v + length (queue q))
     \<and> (\<forall>j < memory_channels. slot_ok v j (turns (mtx s) ! j))
     \<and> turns (mtx s) ! (v mod memory_channels) = word_of_nat v
     \<and> distinct (queue q) \<and> set (queue q) \<subseteq> {..<n} \<and> (held q \<longrightarrow> queue q \<noteq> [])
     \<and> (\<forall>k < length (queue q). blocks s ! (queue q ! k) = block_at v (held q) k)
     \<and> (\<forall>i < n. i \<notin> set (queue q) \<longrightarrow> blocks s ! i = Idle)"

lemma length_queue_le: "simulates n s v q \<Longrightarrow> length (queue q) \<le> n"
  unfolding simulates_def by (metis card_lessThan card_mono distinct_card finite_lessThan)

lemma word_of_nat_eq_near:
  fixes a b :: nat
  assumes "(word_of_nat a :: u64) = word_of_nat b" "a \<le> b" "b < a + 18446744073709551616"
  shows "a = b"
proof -
  have "a mod 2 ^ 64 = b mod 2 ^ 64"
    using assms(1) by (simp add: word_of_nat_eq_iff take_bit_eq_mod)
  then have "2 ^ 64 dvd b - a" using assms(2) by (metis mod_eq_dvd_iff_nat)
  moreover have "b - a < 2 ^ 64" using assms(3) by simp
  ultimately show ?thesis using assms(2) by (metis diff_is_0_eq le_antisym nat_dvd_not_less not_gr0)
qed

lemma slot_word_of_nat: "slot (word_of_nat k) = k mod memory_channels"
proof -
  have "unat (word_of_nat k :: u64) = k mod 2 ^ 64" by (simp add: unat_of_nat take_bit_eq_mod)
  then show ?thesis by (simp add: slot_def memory_channels_def mod_mod_cancel)
qed

text \<open>A slot shows ticket \<open>v + k\<close> to a waiting block only when it is the block's turn.\<close>

lemma is_turn_iff:
  assumes "simulates n s v q" "n < 18446744073709551584" "k < length (queue q)"
  shows "is_turn (mtx s) (word_of_nat (v + k)) \<longleftrightarrow> k = 0"
proof
  assume turn: "is_turn (mtx s) (word_of_nat (v + k))"
  let ?j = "(v + k) mod memory_channels"
  have j: "?j < memory_channels" by (simp add: memory_channels_def)
  then obtain u where u: "turns (mtx s) ! ?j = word_of_nat u" "u \<le> v" "v < u + memory_channels"
    using assms(1) unfolding simulates_def slot_ok_def by metis
  then have "(word_of_nat u :: u64) = word_of_nat (v + k)"
    using turn by (simp add: is_turn_def slot_word_of_nat del: of_nat_add)
  moreover have "k < n" using length_queue_le [OF assms(1)] assms(3) by simp
  ultimately have "u = v + k"
    using u assms(2) by (intro word_of_nat_eq_near) (auto simp: memory_channels_def)
  then show "k = 0" using u by simp
qed (use assms in \<open>auto simp: is_turn_def slot_word_of_nat simulates_def\<close>)

lemma slot_ok_signal:
  assumes "slot_ok v j w" "j \<noteq> Suc v mod memory_channels" "j < memory_channels"
  shows "slot_ok (Suc v) j w"
proof -
  obtain k where k: "w = word_of_nat k" "k \<le> v" "v < k + memory_channels"
    "k mod memory_channels = j \<or> k = 0 \<and> v < j"
    using assms(1) by (auto simp: slot_ok_def)
  have "Suc v \<noteq> k + memory_channels"
  proof
    assume e: "Suc v = k + memory_channels"
    then have "Suc v mod memory_channels = k mod memory_channels" by simp
    then show False using k(4) e assms(2,3) by auto
  qed
  moreover have "k mod memory_channels = j \<or> k = 0 \<and> Suc v < j"
    using k(4) assms(2,3) by (auto simp: less_Suc_eq)
  ultimately show ?thesis using k unfolding slot_ok_def by (intro exI [of _ k]) auto
qed

lemma simulates_grab:
  assumes sim: "simulates n s v q" and i: "i < length (blocks s)" "blocks s ! i = Idle"
    and g: "grab_ticket (mtx s) = (t, m)"
  shows "simulates n \<lparr>mtx = m, blocks = (blocks s)[i := Waiting t]\<rparr> v (q\<lparr>queue := queue q @ [i]\<rparr>)
    \<and> queue_step q (q\<lparr>queue := queue q @ [i]\<rparr>)"
proof -
  have "i \<notin> set (queue q)"
    using sim i unfolding simulates_def by (auto simp: in_set_conv_nth block_at_def split: if_splits)
  moreover have "t = word_of_nat (v + length (queue q))" "m = mtx s\<lparr>ticket := ticket (mtx s) + 1\<rparr>"
    using g sim by (auto simp: grab_ticket_def simulates_def)
  ultimately show ?thesis
    using sim i unfolding simulates_def
    by (auto simp: nth_append nth_list_update block_at_def less_Suc_eq intro!: q_join)
qed

lemma simulates_enter:
  assumes sim: "simulates n s v q" and n: "n < 18446744073709551584"
    and i: "i < length (blocks s)" "blocks s ! i = Waiting t" "is_turn (mtx s) t"
  shows "simulates n (s\<lparr>blocks := (blocks s)[i := Holding t]\<rparr>) v (q\<lparr>held := True\<rparr>)
    \<and> queue_step q (q\<lparr>held := True\<rparr>) \<and> i = hd (queue q)"
proof -
  have "i \<in> set (queue q)" using sim i unfolding simulates_def by force
  then obtain k where k: "k < length (queue q)" "queue q ! k = i" by (auto simp: in_set_conv_nth)
  then have t: "t = word_of_nat (v + k)" "\<not> (k = 0 \<and> held q)"
    using sim i unfolding simulates_def block_at_def by (auto split: if_splits)
  then have k0: "k = 0" using is_turn_iff [OF sim n k(1)] i(3) by simp
  then obtain rest where q: "queue q = i # rest" using k by (cases "queue q") auto
  have pos: "\<forall>k < length (queue q). blocks s ! (queue q ! k) = block_at v (held q) k" and d: "distinct (queue q)"
    using sim by (auto simp: simulates_def)
  have w: "blocks s ! (rest ! j) = Waiting (word_of_nat (v + Suc j)) \<and> i \<noteq> rest ! j"
    if "j < length rest" for j
    using pos [rule_format, of "Suc j"] d that nth_mem [of j rest]
    by (auto simp: q block_at_def simp del: of_nat_add of_nat_Suc)
  have "(blocks s)[i := Holding t] ! (queue q ! j) = block_at v True j" if "j < length (queue q)" for j
    using w t k0 i that by (cases j) (auto simp: q block_at_def simp del: of_nat_add of_nat_Suc)
  moreover have "queue_step q (q\<lparr>held := True\<rparr>)" using q t k0 by (intro q_enter) auto
  ultimately show ?thesis
    using sim i q unfolding simulates_def by simp
qed

lemma simulates_holding:
  assumes sim: "simulates n s v q" and i: "i < n" "blocks s ! i = Holding t"
  shows "queue q \<noteq> [] \<and> held q \<and> i = hd (queue q) \<and> t = word_of_nat v"
proof -
  have "i \<in> set (queue q)" using sim i unfolding simulates_def by force
  then obtain k where "k < length (queue q)" "queue q ! k = i" by (auto simp: in_set_conv_nth)
  then show ?thesis
    using sim i unfolding simulates_def block_at_def by (auto simp: hd_conv_nth split: if_splits)
qed

lemma simulates_release:
  assumes sim: "simulates n s v q" and i: "i < length (blocks s)" "blocks s ! i = Holding t"
  shows "simulates n \<lparr>mtx = unlock t (mtx s), blocks = (blocks s)[i := Idle]\<rparr> (Suc v)
      \<lparr>queue = tl (queue q), held = False\<rparr>
    \<and> queue_step q \<lparr>queue = tl (queue q), held = False\<rparr> \<and> i = hd (queue q)"
proof -
  have k: "queue q \<noteq> []" "i = hd (queue q)" "held q" "t = word_of_nat v"
    using simulates_holding [OF sim _ i(2)] sim i(1) by (auto simp: simulates_def)
  then obtain rest where q: "queue q = i # rest" by (cases "queue q") auto
  let ?j = "Suc v mod memory_channels"
  have j: "?j < memory_channels" by (simp add: memory_channels_def)
  have m: "unlock t (mtx s) = mtx s\<lparr>turns := (turns (mtx s))[?j := word_of_nat (Suc v)]\<rparr>"
    unfolding unlock_def signal_next_def k(4)
    using slot_word_of_nat [of "Suc v"] by (simp add: add.commute)
  have "slot_ok (Suc v) j (turns (unlock t (mtx s)) ! j)" if "j < memory_channels" for j
  proof (cases "j = ?j")
    case True
    then show ?thesis
      using sim j unfolding m simulates_def slot_ok_def by (auto simp: memory_channels_def intro!: exI [of _ "Suc v"])
  next
    case False
    then show ?thesis using sim that slot_ok_signal [of v j] unfolding m simulates_def by auto
  qed
  moreover have "blocks s ! (rest ! k) = Waiting (word_of_nat (Suc v + k))" if "k < length rest" for k
    using sim that unfolding simulates_def q by (auto simp: block_at_def dest!: spec [of _ "Suc k"])
  moreover have "queue_step q \<lparr>queue = tl (queue q), held = False\<rparr>"
    using k(1,3) by (rule q_leave)
  ultimately show ?thesis
    using sim i j k(4) unfolding simulates_def q m
    by (auto simp: nth_list_update block_at_def in_set_conv_nth)
qed

text \<open>Every step of the blocks is a step of the queue; only the first in the queue enters and leaves.\<close>

lemma simulates_step:
  assumes "simulates n s v q" "n < 18446744073709551584" "lock_step s s'"
  obtains v' q' where "simulates n s' v' q'" "queue_step q q'"
  using assms(3)
proof cases
  case (grab i t m)
  then show ?thesis using simulates_grab [OF assms(1)] that by blast
next
  case (enter i t)
  then show ?thesis using simulates_enter [OF assms(1,2)] that by blast
next
  case (release i t)
  then show ?thesis using simulates_release [OF assms(1)] that by blast
qed

lemma simulates_init: "lock_init n s \<Longrightarrow> simulates n s 0 \<lparr>queue = [], held = False\<rparr>"
  by (auto simp: lock_init_def simulates_def new_mutex_def slot_ok_def memory_channels_def)

definition lock_inv :: "nat \<Rightarrow> lock_state \<Rightarrow> bool" where
  "lock_inv n s \<longleftrightarrow> n < 18446744073709551584 \<and> (\<exists>v q. simulates n s v q)"

interpretation abql: invariant_system "\<lambda>s. lock_init n s \<and> n < 18446744073709551584" lock_step "lock_inv n" for n
proof
  fix s t assume "lock_inv n s" "lock_step s t"
  then show "lock_inv n t" unfolding lock_inv_def by (metis simulates_step)
next
  fix s assume "lock_init n s \<and> n < 18446744073709551584"
  then show "lock_inv n s" using simulates_init unfolding lock_inv_def by blast
qed

section \<open>Properties\<close>

text \<open>Mutual exclusion: for any number n of blocks below 2^64 - 32, at most one block holds the lock
  in every reachable state, including after the 64-bit ticket counter has wrapped around and
  with more waiting blocks than turn slots.\<close>

theorem abql_mutual_exclusion:
  assumes "n < 18446744073709551584"
    and "reachable (lock_init n) lock_step s"
    and "i < length (blocks s)" "j < length (blocks s)"
    and "blocks s ! i = Holding t" "blocks s ! j = Holding u"
  shows "i = j \<and> t = u"
proof -
  have "reachable (\<lambda>s. lock_init n s \<and> n < 18446744073709551584) lock_step s"
    using assms(1,2) by simp
  from abql.reachable_inv [OF this] obtain v q where sim: "simulates n s v q"
    by (auto simp: lock_inv_def)
  then have "length (blocks s) = n" by (simp add: simulates_def)
  then show ?thesis
    using simulates_holding [OF sim _ assms(5)] simulates_holding [OF sim _ assms(6)] assms(3,4) by simp
qed

text \<open>C26. The lock refines a FIFO queue of blocks: there is a simulation between the mutex and the
  abstract queue lock that relates the initial states and lets the queue follow every step, so
  blocks enter the critical section in the order in which they drew their tickets.\<close>

theorem abql_refines_queue_lock:
  assumes "n < 18446744073709551584"
  shows "\<exists>R. (\<forall>s. lock_init n s \<longrightarrow> R s \<lparr>queue = [], held = False\<rparr>)
    \<and> (\<forall>s q s'. R s q \<longrightarrow> lock_step s s' \<longrightarrow> (\<exists>q'. R s' q' \<and> queue_step q q'))
    \<and> (\<forall>s q i t. R s q \<longrightarrow> i < n \<longrightarrow> blocks s ! i = Holding t \<longrightarrow> held q \<and> queue q \<noteq> [] \<and> i = hd (queue q))
    \<and> (\<forall>s q i. R s q \<longrightarrow> i < n \<longrightarrow> (i \<in> set (queue q) \<longleftrightarrow> blocks s ! i \<noteq> Idle))"
proof (intro exI [of _ "\<lambda>s q. \<exists>v. simulates n s v q"] conjI allI impI)
  fix s q s' assume "\<exists>v. simulates n s v q" "lock_step s s'"
  then show "\<exists>q'. (\<exists>v. simulates n s' v q') \<and> queue_step q q'"
    using simulates_step [OF _ assms] by metis
next
  fix s q i assume "\<exists>v. simulates n s v q" "i < n"
  then show "i \<in> set (queue q) \<longleftrightarrow> blocks s ! i \<noteq> Idle"
    by (fastforce simp: simulates_def in_set_conv_nth block_at_def split: if_splits)
qed (use simulates_init simulates_holding in blast)+

text \<open>The lock is never stuck: in every reachable state in which some block waits and no block holds
  the lock, a waiting block finds its turn, so its wait loop ends and it can enter.\<close>

theorem abql_progress:
  assumes "n < 18446744073709551584"
    and "reachable (lock_init n) lock_step s"
    and "i < length (blocks s)" "blocks s ! i = Waiting t"
    and "\<forall>j < length (blocks s). \<forall>u. blocks s ! j \<noteq> Holding u"
  shows "\<exists>j u. j < length (blocks s) \<and> blocks s ! j = Waiting u \<and> is_turn (mtx s) u
    \<and> lock_step s (s\<lparr>blocks := (blocks s)[j := Holding u]\<rparr>)"
proof -
  have "reachable (\<lambda>s. lock_init n s \<and> n < 18446744073709551584) lock_step s"
    using assms(1,2) by simp
  from abql.reachable_inv [OF this] obtain v q where sim: "simulates n s v q"
    by (auto simp: lock_inv_def)
  then have "queue q \<noteq> []" using assms(3,4) by (force simp: simulates_def)
  then have k: "0 < length (queue q)" by simp
  have len: "queue q ! 0 < length (blocks s)" using sim nth_mem [OF k] unfolding simulates_def by blast
  then have "blocks s ! (queue q ! 0) = Waiting (word_of_nat v)"
    using sim k assms(5) by (auto simp: simulates_def block_at_def split: if_splits)
  moreover have "is_turn (mtx s) (word_of_nat v)"
    using is_turn_iff [OF sim assms(1) k] by simp
  ultimately show ?thesis using len lock_step.enter by blast
qed

subsection \<open>Instances\<close>

definition two_blocks :: "block list \<Rightarrow> u64 \<Rightarrow> lock_state" where
  "two_blocks bs t = \<lparr>mtx = new_mutex\<lparr>ticket := t\<rparr>, blocks = bs\<rparr>"

lemma two_blocks_first: "lock_step (two_blocks [Idle, Idle] 0) (two_blocks [Waiting 0, Idle] 1)"
  using lock_step.grab [of 0 "two_blocks [Idle, Idle] 0" 0 "new_mutex\<lparr>ticket := 1\<rparr>"]
  by (simp add: two_blocks_def grab_ticket_def new_mutex_def)

lemma two_blocks_waiting: "reachable (lock_init 2) lock_step (two_blocks [Waiting 0, Waiting 1] 2)"
proof -
  have "lock_init 2 (two_blocks [Idle, Idle] 0)"
    by (simp add: lock_init_def two_blocks_def new_mutex_def numeral_2_eq_2)
  then have 0: "reachable (lock_init 2) lock_step (two_blocks [Idle, Idle] 0)" by (rule reach_init)
  from reach_step [OF 0 two_blocks_first]
  have 1: "reachable (lock_init 2) lock_step (two_blocks [Waiting 0, Idle] 1)" .
  have "lock_step (two_blocks [Waiting 0, Idle] 1) (two_blocks [Waiting 0, Waiting 1] 2)"
    using lock_step.grab [of 1 "two_blocks [Waiting 0, Idle] 1" 1 "new_mutex\<lparr>ticket := 2\<rparr>"]
    by (simp add: two_blocks_def grab_ticket_def new_mutex_def)
  from reach_step [OF 1 this] show ?thesis .
qed

lemma two_blocks_holding: "reachable (lock_init 2) lock_step (two_blocks [Holding 0, Waiting 1] 2)"
proof -
  have "is_turn (new_mutex\<lparr>ticket := 2\<rparr>) 0"
    by (simp add: is_turn_def new_mutex_def slot_def memory_channels_def)
  then have "lock_step (two_blocks [Waiting 0, Waiting 1] 2) (two_blocks [Holding 0, Waiting 1] 2)"
    using lock_step.enter [of 0 "two_blocks [Waiting 0, Waiting 1] 2" 0] by (simp add: two_blocks_def)
  from reach_step [OF two_blocks_waiting this] show ?thesis .
qed

theorem abql_mutual_exclusion_witness:
  "blocks (two_blocks [Holding 0, Waiting 1] 2) ! 0 = Holding 0 \<and> (0::nat) = 0 \<and> (0::u64) = 0"
  using abql_mutual_exclusion [OF _ two_blocks_holding, of 0 0 0 0] by (simp add: two_blocks_def)

theorem abql_refines_queue_lock_witness:
  "\<exists>R q. R (two_blocks [Idle, Idle] 0) \<lparr>queue = [], held = False\<rparr>
    \<and> R (two_blocks [Waiting 0, Idle] 1) q \<and> queue_step \<lparr>queue = [], held = False\<rparr> q"
proof -
  have "lock_init 2 (two_blocks [Idle, Idle] 0)"
    by (simp add: lock_init_def two_blocks_def new_mutex_def numeral_2_eq_2)
  moreover have "(2::nat) < 18446744073709551584" by simp
  from abql_refines_queue_lock [OF this] obtain R where
    r1: "\<forall>s. lock_init 2 s \<longrightarrow> R s \<lparr>queue = [], held = False\<rparr>"
    and r2: "\<forall>s q s'. R s q \<longrightarrow> lock_step s s' \<longrightarrow> (\<exists>q'. R s' q' \<and> queue_step q q')"
    by blast
  ultimately have r: "R (two_blocks [Idle, Idle] 0) \<lparr>queue = [], held = False\<rparr>" by blast
  then obtain q where "R (two_blocks [Waiting 0, Idle] 1) q" "queue_step \<lparr>queue = [], held = False\<rparr> q"
    using r2 two_blocks_first by blast
  with r show ?thesis by blast
qed

theorem abql_progress_witness:
  "\<exists>j u. j < 2 \<and> blocks (two_blocks [Waiting 0, Waiting 1] 2) ! j = Waiting u
    \<and> is_turn (mtx (two_blocks [Waiting 0, Waiting 1] 2)) u"
proof -
  have l: "length (blocks (two_blocks [Waiting 0, Waiting 1] 2)) = 2" by (simp add: two_blocks_def)
  have "\<forall>j < length (blocks (two_blocks [Waiting 0, Waiting 1] 2)). \<forall>u.
      blocks (two_blocks [Waiting 0, Waiting 1] 2) ! j \<noteq> Holding u"
    by (auto simp: two_blocks_def less_Suc_eq)
  moreover have "blocks (two_blocks [Waiting 0, Waiting 1] 2) ! 0 = Waiting 0" by (simp add: two_blocks_def)
  ultimately show ?thesis
    using abql_progress [OF _ two_blocks_waiting, of 0 0] unfolding l by auto
qed

end
