(* ===== verification/Free_List.thy ===== *)
theory Free_List
  imports Prelude
begin

text \<open>
  The linked free list \<open>FreeList\<close> (\<open>src/containers/free_list.hpp\<close> and \<open>_impl.hpp\<close>) and
  the pool of device contexts that the IPC backend keeps in one
  (\<open>setup_ctxs\<close>, \<open>create_ctx\<close>, \<open>destroy_ctx\<close> of \<open>src/ipc/backend_ipc.cpp\<close>). Nodes live
  in an explicit store; the device operations run under the list's mutex, so
  each is one atomic transition. The abstract list is the sequence of values
  together with the number of recycled nodes.
\<close>

section \<open>Data\<close>

record 'a free_list =
  node_data :: "nat \<Rightarrow> 'a"
  node_next :: "nat \<Rightarrow> nat option"
  fl_head :: "nat option"
  fl_tail :: "nat option"
  deallocated_nodes :: "nat option"

definition new_free_list :: "(nat \<Rightarrow> 'a) \<Rightarrow> (nat \<Rightarrow> nat option) \<Rightarrow> 'a free_list" where
  "new_free_list d nx =
     \<lparr>node_data = d, node_next = nx, fl_head = None, fl_tail = None, deallocated_nodes = None\<rparr>"

section \<open>Operations\<close>

definition allocate_node :: "'a free_list \<Rightarrow> nat option \<times> 'a free_list" where
  "allocate_node fl = (case deallocated_nodes fl of
     None \<Rightarrow> (None, fl)
   | Some node \<Rightarrow> (Some node, fl\<lparr>deallocated_nodes := node_next fl node\<rparr>))"

definition insert_node_at_tail :: "nat \<Rightarrow> 'a free_list \<Rightarrow> 'a free_list" where
  "insert_node_at_tail node fl =
     (let fl1 = (case fl_tail fl of
                   None \<Rightarrow> fl | Some t \<Rightarrow> fl\<lparr>node_next := (node_next fl)(t := Some node)\<rparr>);
          fl2 = fl1\<lparr>fl_tail := Some node\<rparr>
      in if fl_head fl2 = None then fl2\<lparr>fl_head := Some node\<rparr> else fl2)"

definition deallocate_node :: "nat \<Rightarrow> 'a free_list \<Rightarrow> 'a free_list" where
  "deallocate_node node fl =
     fl\<lparr>node_next := (node_next fl)(node := deallocated_nodes fl), deallocated_nodes := Some node\<rparr>"

definition put_node :: "nat \<Rightarrow> 'a \<Rightarrow> 'a free_list \<Rightarrow> 'a free_list" where
  "put_node node val fl =
     insert_node_at_tail node
       (fl\<lparr>node_data := (node_data fl)(node := val), node_next := (node_next fl)(node := None)\<rparr>)"

definition push_back_device :: "'a \<Rightarrow> 'a free_list \<Rightarrow> bool \<times> 'a free_list" where
  "push_back_device val fl = (case allocate_node fl of
     (None, fl') \<Rightarrow> (False, fl') | (Some node, fl') \<Rightarrow> (True, put_node node val fl'))"

text \<open>On the host a node comes from the allocator; \<open>None\<close> is a failed allocation.\<close>

definition push_back_host :: "nat option \<Rightarrow> 'a \<Rightarrow> 'a free_list \<Rightarrow> bool \<times> 'a free_list" where
  "push_back_host node val fl = (case node of
     None \<Rightarrow> (False, fl) | Some n \<Rightarrow> (True, put_node n val fl))"

fun push_back_range :: "(nat option \<times> 'a) list \<Rightarrow> 'a free_list \<Rightarrow> bool \<times> 'a free_list" where
  "push_back_range [] fl = (True, fl)"
| "push_back_range ((node, key) # rest) fl =
     (let (result, fl') = push_back_host node key fl
      in if \<not> result then (False, fl') else push_back_range rest fl')"

definition pop_front :: "'a free_list \<Rightarrow> 'a option \<times> 'a free_list" where
  "pop_front fl = (case fl_head fl of
     None \<Rightarrow> (None, fl)
   | Some node \<Rightarrow>
       let fl1 = fl\<lparr>fl_head := node_next fl node\<rparr>;
           fl2 = (if fl_head fl1 = None then fl1\<lparr>fl_tail := None\<rparr> else fl1)
       in (Some (node_data fl2 node), deallocate_node node fl2))"

text \<open>The loops of \<open>deallocate_all_nodes\<close>: the nodes given back to the allocator, in order.\<close>

partial_function (option) free_chain :: "(nat \<Rightarrow> nat option) \<Rightarrow> nat option \<Rightarrow> nat list option" where
  "free_chain nx p = (case p of
     None \<Rightarrow> Some []
   | Some node \<Rightarrow> Option.bind (free_chain nx (nx node)) (\<lambda>rest. Some (node # rest)))"

definition deallocate_all_nodes :: "'a free_list \<Rightarrow> (nat list \<times> 'a free_list) option" where
  "deallocate_all_nodes fl =
     (case (free_chain (node_next fl) (fl_head fl), free_chain (node_next fl) (deallocated_nodes fl)) of
        (Some live, Some recycled) \<Rightarrow>
          Some (live @ recycled, fl\<lparr>fl_head := None, fl_tail := None, deallocated_nodes := None\<rparr>)
      | _ \<Rightarrow> None)"

subsection \<open>The context pool\<close>

text \<open>\<open>setup_ctxs\<close> pushes every context; \<open>nodes\<close> are the addresses the allocator returns.\<close>

definition setup_ctxs :: "nat list \<Rightarrow> nat free_list \<Rightarrow> nat free_list" where
  "setup_ctxs nodes fl = snd (push_back_range (zip (map Some nodes) [0..<length nodes]) fl)"

definition create_ctx :: "nat free_list \<Rightarrow> nat option \<times> nat free_list" where
  "create_ctx fl = pop_front fl"

definition destroy_ctx :: "nat \<Rightarrow> nat free_list \<Rightarrow> nat free_list" where
  "destroy_ctx c fl = snd (push_back_device c fl)"

section \<open>Specification\<close>

primrec chain :: "(nat \<Rightarrow> nat option) \<Rightarrow> nat option \<Rightarrow> nat list \<Rightarrow> bool" where
  "chain nx p [] \<longleftrightarrow> p = None"
| "chain nx p (a # as) \<longleftrightarrow> p = Some a \<and> chain nx (nx a) as"

text \<open>\<open>xs\<close> are the nodes of the list, \<open>ds\<close> the recycled nodes.\<close>

definition shape :: "'a free_list \<Rightarrow> nat list \<Rightarrow> nat list \<Rightarrow> bool" where
  "shape fl xs ds \<longleftrightarrow> chain (node_next fl) (fl_head fl) xs
     \<and> chain (node_next fl) (deallocated_nodes fl) ds \<and> distinct (xs @ ds)
     \<and> fl_tail fl = (if xs = [] then None else Some (last xs))"

definition represents :: "'a free_list \<Rightarrow> 'a list \<Rightarrow> nat \<Rightarrow> bool" where
  "represents fl vs spare \<longleftrightarrow>
     (\<exists>xs ds. shape fl xs ds \<and> vs = map (node_data fl) xs \<and> spare = length ds)"

section \<open>Lemmas\<close>

lemma chain_fun_upd [simp]: "a \<notin> set xs \<Longrightarrow> chain (nx(a := q)) p xs \<longleftrightarrow> chain nx p xs"
  by (induction xs arbitrary: p) auto

lemma chain_snoc:
  "chain nx p xs \<Longrightarrow> xs \<noteq> [] \<Longrightarrow> distinct (xs @ [n]) \<Longrightarrow>
     chain (nx(n := None, last xs := Some n)) p (xs @ [n])"
  by (induction xs arbitrary: p) auto

lemma chain_None [simp]: "chain nx None xs \<longleftrightarrow> xs = []"
  by (cases xs) auto

lemma chain_Some: "chain nx (Some a) xs \<longleftrightarrow> (\<exists>ys. xs = a # ys \<and> chain nx (nx a) ys)"
  by (cases xs) auto

lemma shape_put_node:
  assumes s: "shape fl xs ds" and n: "n \<notin> set xs" "n \<notin> set ds"
  shows "shape (put_node n v fl) (xs @ [n]) ds"
proof (cases "xs = []")
  case True
  then show ?thesis using s n by (auto simp: shape_def put_node_def insert_node_at_tail_def)
next
  case False
  have "set xs \<inter> set ds = {}" using s by (simp add: shape_def)
  then have "last xs \<noteq> n" "last xs \<notin> set ds"
    using n last_in_set [OF False] by blast+
  moreover have "fl_head fl \<noteq> None" using s False by (cases xs) (auto simp: shape_def)
  ultimately show ?thesis
    using s n False chain_snoc [of "node_next fl" "fl_head fl" xs n]
    by (auto simp: shape_def put_node_def insert_node_at_tail_def Let_def)
qed

lemma node_data_put_node [simp]: "node_data (put_node n v fl) = (node_data fl)(n := v)"
  by (simp add: put_node_def insert_node_at_tail_def Let_def split: option.split)

lemma map_fun_upd_notin: "a \<notin> set xs \<Longrightarrow> map (f(a := v)) xs = map f xs"
  by (induction xs) auto

lemma push_back_device_represents:
  assumes "represents fl vs spare"
  shows "case push_back_device v fl of (ok, fl') \<Rightarrow>
    (ok \<longleftrightarrow> 0 < spare) \<and> represents fl' (if ok then vs @ [v] else vs) (if ok then spare - 1 else spare)"
proof -
  obtain xs ds where s: "shape fl xs ds" and vs: "vs = map (node_data fl) xs" "spare = length ds"
    using assms by (auto simp: represents_def)
  show ?thesis
  proof (cases ds)
    case Nil
    then have "push_back_device v fl = (False, fl)"
      using s by (auto simp: push_back_device_def allocate_node_def shape_def)
    then show ?thesis using assms vs Nil by simp
  next
    case (Cons n ds')
    let ?fl = "fl\<lparr>deallocated_nodes := node_next fl n\<rparr>"
    have p: "push_back_device v fl = (True, put_node n v ?fl)" and s': "shape ?fl xs ds'"
      and n: "n \<notin> set xs" "n \<notin> set ds'"
      using s Cons by (auto simp: push_back_device_def allocate_node_def shape_def)
    have "represents (put_node n v ?fl) (vs @ [v]) (length ds')"
      unfolding represents_def
      by (intro exI [of _ "xs @ [n]"] exI [of _ ds'] conjI shape_put_node [OF s' n])
        (use vs n in \<open>simp_all add: map_fun_upd_notin\<close>)
    then show ?thesis using p vs Cons by simp
  qed
qed

lemma push_back_host_shape:
  assumes "shape fl xs ds" "n \<notin> set xs" "n \<notin> set ds"
  shows "push_back_host (Some n) v fl = (True, put_node n v fl)"
    "shape (put_node n v fl) (xs @ [n]) ds"
    "map (node_data (put_node n v fl)) (xs @ [n]) = map (node_data fl) xs @ [v]"
  using assms by (simp_all add: push_back_host_def shape_put_node map_fun_upd_notin)

lemma pop_front_represents:
  assumes "represents fl vs spare"
  shows "case pop_front fl of (r, fl') \<Rightarrow>
    r = (if vs = [] then None else Some (hd vs)) \<and>
    represents fl' (tl vs) (if vs = [] then spare else spare + 1)"
proof -
  obtain xs ds where s: "shape fl xs ds" and vs: "vs = map (node_data fl) xs" "spare = length ds"
    using assms by (auto simp: represents_def)
  show ?thesis
  proof (cases xs)
    case Nil
    then have "pop_front fl = (None, fl)" using s by (auto simp: pop_front_def shape_def)
    then show ?thesis using assms vs Nil by simp
  next
    case (Cons n xs')
    have r: "fst (pop_front fl) = Some (node_data fl n)" and d: "node_data (snd (pop_front fl)) = node_data fl"
      and sh: "shape (snd (pop_front fl)) xs' (n # ds)"
      using s Cons by (auto simp: pop_front_def shape_def deallocate_node_def Let_def split: if_splits)
    have "represents (snd (pop_front fl)) (tl vs) (length ds + 1)"
      unfolding represents_def
      by (intro exI [of _ xs'] exI [of _ "n # ds"] conjI sh) (use vs Cons d in simp_all)
    then show ?thesis using r vs Cons by (cases "pop_front fl") simp
  qed
qed

lemma free_chain_chain: "chain nx p xs \<Longrightarrow> free_chain nx p = Some xs"
  by (induction xs arbitrary: p) (auto simp: free_chain.simps [of nx] split: option.splits)

lemma push_back_range_shape:
  assumes "shape fl xs ds" "distinct (map fst ps)" "set (map fst ps) \<inter> set (xs @ ds) = {}"
  shows "\<exists>fl'. push_back_range (map (\<lambda>(n, v). (Some n, v)) ps) fl = (True, fl')
    \<and> shape fl' (xs @ map fst ps) ds
    \<and> map (node_data fl') (xs @ map fst ps) = map (node_data fl) xs @ map snd ps"
  using assms
proof (induction ps arbitrary: fl xs)
  case (Cons nv ps)
  obtain n v where nv: "nv = (n, v)" by fastforce
  have n: "n \<notin> set xs" "n \<notin> set ds" using Cons.prems nv by auto
  note h = push_back_host_shape [OF Cons.prems(1) n, of v]
  have "set (map fst ps) \<inter> set ((xs @ [n]) @ ds) = {}" using Cons.prems nv by auto
  then obtain fl' where "push_back_range (map (\<lambda>(n, v). (Some n, v)) ps) (put_node n v fl) = (True, fl')"
    "shape fl' ((xs @ [n]) @ map fst ps) ds"
    "map (node_data fl') ((xs @ [n]) @ map fst ps) = map (node_data (put_node n v fl)) (xs @ [n]) @ map snd ps"
    using Cons.IH [OF h(2)] Cons.prems(2) nv by auto
  then show ?case using h(1,3) nv by simp
qed simp

section \<open>Sequences of device operations\<close>

datatype 'a fl_op = Push 'a | Pop
datatype 'a fl_res = Pushed bool | Popped "'a option"

definition fl_step :: "'a fl_op \<Rightarrow> 'a free_list \<Rightarrow> 'a fl_res \<times> 'a free_list" where
  "fl_step op fl = (case op of
     Push v \<Rightarrow> map_prod Pushed id (push_back_device v fl)
   | Pop \<Rightarrow> map_prod Popped id (pop_front fl))"

fun fl_run :: "'a fl_op list \<Rightarrow> 'a free_list \<Rightarrow> 'a fl_res list \<times> 'a free_list" where
  "fl_run [] fl = ([], fl)"
| "fl_run (op # ops) fl =
     (let (r, fl') = fl_step op fl; (rs, fl'') = fl_run ops fl' in (r # rs, fl''))"

text \<open>The same on values and the number of recycled nodes.\<close>

definition abs_step :: "'a fl_op \<Rightarrow> 'a list \<times> nat \<Rightarrow> 'a fl_res \<times> 'a list \<times> nat" where
  "abs_step op = (\<lambda>(vs, spare). case op of
     Push v \<Rightarrow> if 0 < spare then (Pushed True, vs @ [v], spare - 1) else (Pushed False, vs, spare)
   | Pop \<Rightarrow> if vs = [] then (Popped None, vs, spare) else (Popped (Some (hd vs)), tl vs, spare + 1))"

fun abs_run :: "'a fl_op list \<Rightarrow> 'a list \<times> nat \<Rightarrow> 'a fl_res list \<times> 'a list \<times> nat" where
  "abs_run [] a = ([], a)"
| "abs_run (op # ops) a = (let (r, a') = abs_step op a; (rs, a'') = abs_run ops a' in (r # rs, a''))"

lemma fl_step_refines:
  assumes "represents fl vs spare"
  shows "case (fl_step op fl, abs_step op (vs, spare)) of ((r, fl'), (r', vs', spare')) \<Rightarrow>
    r = r' \<and> represents fl' vs' spare'"
proof (cases op)
  case (Push v)
  then show ?thesis
    using push_back_device_represents [OF assms, of v]
    by (cases "push_back_device v fl") (auto simp: fl_step_def abs_step_def)
next
  case Pop
  then show ?thesis
    using pop_front_represents [OF assms]
    by (cases "pop_front fl") (auto simp: fl_step_def abs_step_def)
qed

section \<open>The context pool as a state machine\<close>

type_synonym ctx_pool = "nat free_list \<times> nat list"

definition ctx_init :: "nat \<Rightarrow> ctx_pool \<Rightarrow> bool" where
  "ctx_init n = (\<lambda>(fl, out). out = [] \<and> (\<exists>nodes d nx. distinct nodes \<and> length nodes = n
     \<and> fl = setup_ctxs nodes (new_free_list d nx)))"

inductive ctx_step :: "ctx_pool \<Rightarrow> ctx_pool \<Rightarrow> bool" where
  ctx_create: "create_ctx fl = (Some c, fl') \<Longrightarrow> ctx_step (fl, out) (fl', c # out)"
| ctx_create_fail: "create_ctx fl = (None, fl') \<Longrightarrow> ctx_step (fl, out) (fl', out)"
| ctx_destroy: "c \<in> set out \<Longrightarrow> ctx_step (fl, out) (destroy_ctx c fl, remove1 c out)"

definition ctx_inv :: "nat \<Rightarrow> ctx_pool \<Rightarrow> bool" where
  "ctx_inv n = (\<lambda>(fl, out). \<exists>vs. represents fl vs (length out) \<and> distinct (vs @ out)
     \<and> set (vs @ out) = {..<n})"

lemma setup_ctxs_represents:
  assumes "distinct nodes"
  shows "represents (setup_ctxs nodes (new_free_list d nx)) [0..<length nodes] 0"
proof -
  let ?ps = "zip nodes [0..<length nodes]"
  have "shape (new_free_list d nx) [] []" by (simp add: shape_def new_free_list_def)
  from push_back_range_shape [OF this, of ?ps] obtain fl' where
    "push_back_range (map (\<lambda>(n, v). (Some n, v)) ?ps) (new_free_list d nx) = (True, fl')"
    "shape fl' nodes []" "map (node_data fl') nodes = [0..<length nodes]"
    using assms by auto
  moreover have "map (\<lambda>(n, v). (Some n, v)) ?ps = zip (map Some nodes) [0..<length nodes]"
    by (simp add: zip_map1)
  ultimately show ?thesis by (auto simp: represents_def setup_ctxs_def intro!: exI [of _ nodes])
qed

interpretation ctx: invariant_system "ctx_init n" ctx_step "ctx_inv n" for n
proof
  fix s assume "ctx_init n s"
  then obtain nodes d nx where "s = (setup_ctxs nodes (new_free_list d nx), [])" "distinct nodes" "length nodes = n"
    by (auto simp: ctx_init_def)
  then show "ctx_inv n s"
    using setup_ctxs_represents [of nodes d nx] by (auto simp: ctx_inv_def intro!: exI [of _ "[0..<n]"])
next
  fix s t assume inv: "ctx_inv n s" and st: "ctx_step s t"
  obtain fl out vs where s: "s = (fl, out)" and r: "represents fl vs (length out)"
    and vs: "distinct (vs @ out)" "set (vs @ out) = {..<n}"
    using inv by (auto simp: ctx_inv_def)
  from st show "ctx_inv n t"
    unfolding s
  proof cases
    case (ctx_create c fl')
    then obtain vs' where "vs = c # vs'" "represents fl' vs' (length out + 1)"
      using pop_front_represents [OF r] by (cases vs) (auto simp: create_ctx_def split: if_splits)
    then show ?thesis using vs ctx_create by (auto simp: ctx_inv_def intro!: exI [of _ vs'])
  next
    case (ctx_create_fail fl')
    then have "fl' = fl \<or> vs = []" "represents fl' vs (length out)"
      using pop_front_represents [OF r] by (auto simp: create_ctx_def split: if_splits)
    then show ?thesis using vs ctx_create_fail by (auto simp: ctx_inv_def)
  next
    case (ctx_destroy c)
    then have "0 < length out" by (cases out) auto
    then have "represents (destroy_ctx c fl) (vs @ [c]) (length (remove1 c out))"
      using push_back_device_represents [OF r, of c] ctx_destroy
      by (auto simp: destroy_ctx_def length_remove1 split: prod.splits)
    moreover have "c \<notin> set vs" using vs(1) ctx_destroy by auto
    ultimately show ?thesis
      using vs ctx_destroy
      by (auto simp: ctx_inv_def distinct_remove1 notin_set_remove1 set_remove1_eq
          intro!: exI [of _ "vs @ [c]"])
  qed
qed

section \<open>Properties\<close>

text \<open>C31. The linked list refines the abstract list: for every sequence of device push_back and
  pop_front calls, starting from any list that represents some values and a number of recycled
  nodes, the results of all calls are those of the abstract list, and the final list represents
  the abstract final state. A push succeeds exactly when a recycled node is left.\<close>

theorem free_list_refines:
  assumes "represents fl vs spare"
  shows "fst (fl_run ops fl) = fst (abs_run ops (vs, spare))
    \<and> represents (snd (fl_run ops fl)) (fst (snd (abs_run ops (vs, spare)))) (snd (snd (abs_run ops (vs, spare))))"
  using assms
proof (induction ops arbitrary: fl vs spare)
  case (Cons op ops)
  obtain r fl' vs' spare' where "fl_step op fl = (r, fl')" "abs_step op (vs, spare) = (r, vs', spare')"
    "represents fl' vs' spare'"
    using fl_step_refines [OF Cons.prems, of op] by (auto split: prod.splits)
  then show ?case
    using Cons.IH [of fl' vs' spare']
    by (cases "fl_run ops fl'"; cases "abs_run ops (vs', spare')") simp
qed simp

text \<open>deallocate_all_nodes terminates on every list reached by the operations and hands every
  node, live or recycled, back to the allocator exactly once.\<close>

theorem deallocate_all_nodes_frees_once:
  assumes "shape fl xs ds"
  shows "\<exists>freed fl'. deallocate_all_nodes fl = Some (freed, fl') \<and> distinct freed
    \<and> set freed = set xs \<union> set ds \<and> shape fl' [] []"
  using assms free_chain_chain [of "node_next fl" "fl_head fl" xs]
    free_chain_chain [of "node_next fl" "deallocated_nodes fl" ds]
  by (auto simp: deallocate_all_nodes_def shape_def)

text \<open>The context pool never hands out a context twice and never loses one: in every reachable
  state a created context was not in use, and creation fails only when all n contexts are in use,
  although destroy_ctx ignores the result of the push that returns the context.\<close>

theorem ctx_pool_exact:
  assumes "reachable (ctx_init n) ctx_step (fl, out)"
  shows "(case create_ctx fl of
      (Some c, fl') \<Rightarrow> c < n \<and> c \<notin> set out
    | (None, fl') \<Rightarrow> length out = n)"
proof -
  obtain vs where r: "represents fl vs (length out)" and vs: "distinct (vs @ out)" "set (vs @ out) = {..<n}"
    using ctx.reachable_inv [OF assms] by (auto simp: ctx_inv_def)
  have "vs = [] \<Longrightarrow> length out = n"
    using vs by (simp flip: distinct_card)
  moreover have "vs \<noteq> [] \<Longrightarrow> hd vs < n \<and> hd vs \<notin> set out" using vs by (cases vs) auto
  ultimately show ?thesis
    using pop_front_represents [OF r] by (auto simp: create_ctx_def split: prod.splits if_splits)
qed

subsection \<open>Instances\<close>

definition two_contexts :: "nat free_list" where
  "two_contexts = setup_ctxs [100, 200] (new_free_list (\<lambda>a. 0) (\<lambda>a. None))"

lemma two_contexts_represents: "represents two_contexts [0, 1] 0"
  using setup_ctxs_represents [of "[100, 200]" "\<lambda>a. 0" "\<lambda>a. None"] by (simp add: two_contexts_def upt_rec)

theorem free_list_refines_witness:
  "fst (fl_run [Pop, Push 7, Pop, Push 8, Push 9] two_contexts)
    = [Popped (Some 0), Pushed True, Popped (Some 1), Pushed True, Pushed False]"
  using free_list_refines [OF two_contexts_represents, of "[Pop, Push 7, Pop, Push 8, Push 9]"]
  by (simp add: abs_step_def)

theorem deallocate_all_nodes_frees_once_witness:
  "\<exists>freed fl'. deallocate_all_nodes two_contexts = Some (freed, fl') \<and> distinct freed \<and> set freed = {100, 200}"
proof -
  have "shape two_contexts [100, 200] []"
    by (simp add: two_contexts_def setup_ctxs_def push_back_host_def put_node_def insert_node_at_tail_def
        new_free_list_def shape_def upt_rec Let_def)
  from deallocate_all_nodes_frees_once [OF this] show ?thesis by auto
qed

theorem ctx_pool_exact_witness:
  "case create_ctx two_contexts of (Some c, fl') \<Rightarrow> c < 2 \<and> c \<notin> set [] | (None, fl') \<Rightarrow> length ([] :: nat list) = 2"
proof -
  have "ctx_init 2 (two_contexts, [])"
    unfolding ctx_init_def two_contexts_def by (auto intro!: exI [of _ "[100, 200::nat]"])
  then have "reachable (ctx_init 2) ctx_step (two_contexts, [])" by (rule reach_init)
  from ctx_pool_exact [OF this] show ?thesis .
qed

end
