(* ===== verification/Lanes.thy ===== *)
theory Lanes
  imports Prelude
begin

unbundle bit_operations_syntax

text \<open>
  Bit utilities (\<open>src/bit.hpp\<close>), the geometry of a grid and the active lanes of a
  wavefront (\<open>src/util.hpp\<close>, \<open>src/containers/share_strategy.cpp\<close>). The bit
  functions are generic in the width, like the templates of the source; a
  set of active lanes is the 64-bit mask that \<open>__ballot\<close> returns.
\<close>

section \<open>Bit counting\<close>

text \<open>The compiler builtins, on a word that is not zero.\<close>

definition clzT :: "'l::len word \<Rightarrow> nat" where
  "clzT val = length (takeWhile (\<lambda>i. \<not> bit val i) (rev [0..<LENGTH('l)]))"

definition ctzT :: "'l::len word \<Rightarrow> nat" where
  "ctzT val = length (takeWhile (\<lambda>i. \<not> bit val i) [0..<LENGTH('l)])"

definition popcount :: "'l::len word \<Rightarrow> nat" where
  "popcount val = length (filter (bit val) [0..<LENGTH('l)])"

definition clzT_fallback :: "'l::len word \<Rightarrow> nat \<Rightarrow> nat" where
  "clzT_fallback val fallback = (if val = 0 then fallback else clzT val)"

definition ctzT_fallback :: "'l::len word \<Rightarrow> nat \<Rightarrow> nat" where
  "ctzT_fallback val fallback = (if val = 0 then fallback else ctzT val)"

definition countl_zero :: "'l::len word \<Rightarrow> nat" where
  "countl_zero val = clzT_fallback val (LENGTH('l))"

definition countl_one :: "'l::len word \<Rightarrow> nat" where
  "countl_one val = countl_zero (NOT val)"

definition countr_zero :: "'l::len word \<Rightarrow> nat" where
  "countr_zero val = ctzT_fallback val (LENGTH('l))"

definition countr_one :: "'l::len word \<Rightarrow> nat" where
  "countr_one val = countr_zero (NOT val)"

definition bit_log2 :: "'l::len word \<Rightarrow> int" where
  "bit_log2 val = int (LENGTH('l)) - 1 - int (countl_zero val)"

definition bit_width :: "'l::len word \<Rightarrow> int" where
  "bit_width val = (if val = 0 then 0 else bit_log2 val + 1)"

definition bit_ceil :: "'l::len word \<Rightarrow> 'l word" where
  "bit_ceil val = (if val < 2 then 1 else push_bit (nat (bit_width (val - 1))) 1)"

definition bit_floor :: "'l::len word \<Rightarrow> 'l word" where
  "bit_floor val = (if val = 0 then 0 else push_bit (nat (bit_log2 val)) 1)"

section \<open>Geometry of a grid\<close>

record dim3 =
  dim_x :: nat
  dim_y :: nat
  dim_z :: nat

record thread_pos =
  threadIdx :: dim3
  blockDim :: dim3
  blockIdx :: dim3
  gridDim :: dim3

definition get_flat_block_size :: "thread_pos \<Rightarrow> nat" where
  "get_flat_block_size t = dim_x (blockDim t) * dim_y (blockDim t) * dim_z (blockDim t)"

definition get_flat_grid_size :: "thread_pos \<Rightarrow> nat" where
  "get_flat_grid_size t = get_flat_block_size t * dim_x (gridDim t) * dim_y (gridDim t) * dim_z (gridDim t)"

definition get_flat_block_id :: "thread_pos \<Rightarrow> nat" where
  "get_flat_block_id t = dim_x (threadIdx t) + dim_y (threadIdx t) * dim_x (blockDim t)
     + dim_z (threadIdx t) * dim_x (blockDim t) * dim_y (blockDim t)"

definition get_grid_num_blocks :: "thread_pos \<Rightarrow> nat" where
  "get_grid_num_blocks t = dim_x (gridDim t) * dim_y (gridDim t) * dim_z (gridDim t)"

definition get_flat_grid_id :: "thread_pos \<Rightarrow> nat" where
  "get_flat_grid_id t = dim_x (blockIdx t) + dim_y (blockIdx t) * dim_x (gridDim t)
     + dim_z (blockIdx t) * dim_x (gridDim t) * dim_y (gridDim t)"

definition get_flat_id :: "thread_pos \<Rightarrow> nat" where
  "get_flat_id t =
     get_flat_grid_id t * (dim_x (blockDim t) * dim_y (blockDim t) * dim_z (blockDim t)) + get_flat_block_id t"

definition is_thread_zero_in_block :: "thread_pos \<Rightarrow> bool" where
  "is_thread_zero_in_block t \<longleftrightarrow> dim_x (threadIdx t) = 0 \<and> dim_y (threadIdx t) = 0 \<and> dim_z (threadIdx t) = 0"

definition is_block_zero_in_grid :: "thread_pos \<Rightarrow> bool" where
  "is_block_zero_in_grid t \<longleftrightarrow> dim_x (blockIdx t) = 0 \<and> dim_y (blockIdx t) = 0 \<and> dim_z (blockIdx t) = 0"

definition is_thread_zero_in_wave :: "nat \<Rightarrow> thread_pos \<Rightarrow> bool" where
  "is_thread_zero_in_wave wf_size t \<longleftrightarrow> get_flat_block_id t mod wf_size = 0"

definition is_wave_zero_in_block :: "nat \<Rightarrow> thread_pos \<Rightarrow> bool" where
  "is_wave_zero_in_block wf_size t \<longleftrightarrow> get_flat_block_id t div wf_size = 0"

section \<open>Active lanes\<close>

definition get_active_lane_count :: "u64 \<Rightarrow> nat" where
  "get_active_lane_count active = popcount active"

text \<open>\<open>__lanemask_eq()\<close> has the caller's own bit set.\<close>

definition get_active_lane_num :: "u64 \<Rightarrow> nat \<Rightarrow> nat" where
  "get_active_lane_num active lane = popcount (active AND (push_bit lane 1 - 1))"

definition get_first_active_lane_id :: "u64 \<Rightarrow> nat" where
  "get_first_active_lane_id active = countr_zero active"

definition is_first_active_lane :: "u64 \<Rightarrow> nat \<Rightarrow> bool" where
  "is_first_active_lane active lane \<longleftrightarrow> get_active_lane_num active lane = 0"

definition get_last_active_lane_id :: "u64 \<Rightarrow> int" where
  "get_last_active_lane_id active = bit_log2 active"

definition is_last_active_lane :: "u64 \<Rightarrow> nat \<Rightarrow> bool" where
  "is_last_active_lane active lane \<longleftrightarrow>
     int (get_active_lane_num active lane) = int (get_active_lane_count active) - 1"

text \<open>The second implementation of the lane number, used by the share strategies and the queues.\<close>

definition active_logical_lane_id :: "u64 \<Rightarrow> nat \<Rightarrow> nat" where
  "active_logical_lane_id ballot lane =
     (let all_ones_mask = (- 1 :: u64);
          lane_mask = push_bit lane all_ones_mask;
          inverted_mask = NOT lane_mask;
          lower_active_lanes = ballot AND inverted_mask
      in popcount lower_active_lanes)"

definition lowest_active_lane :: "u64 \<Rightarrow> nat" where
  "lowest_active_lane ballot = countr_zero ballot"

section \<open>Lemmas\<close>

lemma popcount_card: "popcount (w :: 'l::len word) = card {i. bit w i}"
proof -
  have "{i. bit w i} = set (filter (bit w) [0..<LENGTH('l)])"
    using bit_imp_le_length by auto
  then show ?thesis unfolding popcount_def by (metis distinct_card distinct_filter distinct_upt)
qed

lemma finite_bits [simp]: "finite {i. bit (w :: 'l::len word) i}"
  by (rule finite_subset [of _ "{..<LENGTH('l)}"]) (auto dest: bit_imp_le_length)

lemma takeWhile_not_first:
  assumes "P k" "\<And>i. i \<in> set xs \<Longrightarrow> \<not> P i"
  shows "takeWhile (\<lambda>i. \<not> P i) (xs @ k # ys) = xs"
  using assms by (simp add: takeWhile_append2)

lemma bit_log2_eq:
  fixes w :: "'l::len word"
  assumes "bit w k" "\<And>i. k < i \<Longrightarrow> \<not> bit w i"
  shows "bit_log2 w = int k"
proof -
  have k: "k < LENGTH('l)" using assms(1) by (rule bit_imp_le_length)
  have "[0..<LENGTH('l)] = [0..<k] @ k # [Suc k..<LENGTH('l)]"
    using k upt_add_eq_append [of 0 k "LENGTH('l) - k"] by (simp add: upt_conv_Cons)
  then have "rev [0..<LENGTH('l)] = rev [Suc k..<LENGTH('l)] @ k # rev [0..<k]" by simp
  moreover have "takeWhile (\<lambda>i. \<not> bit w i) (rev [Suc k..<LENGTH('l)] @ k # rev [0..<k]) = rev [Suc k..<LENGTH('l)]"
    using assms by (intro takeWhile_not_first) auto
  ultimately have "clzT w = length (rev [Suc k..<LENGTH('l)])" by (simp add: clzT_def)
  moreover have "w \<noteq> 0" using assms(1) by auto
  ultimately show ?thesis
    using k by (simp add: bit_log2_def countl_zero_def clzT_fallback_def)
qed

lemma word_highest_bit:
  fixes w :: "'l::len word"
  assumes "w \<noteq> 0"
  obtains k where "bit w k" "\<And>i. k < i \<Longrightarrow> \<not> bit w i"
proof -
  have "{i. bit w i} \<noteq> {}" using assms by (auto simp: bit_eq_iff)
  then have m: "bit w (Max {i. bit w i})" using Max_in [of "{i. bit w i}"] by simp
  have "i \<le> Max {i. bit w i}" if "bit w i" for i
    using that by (intro Max_ge) auto
  then have "\<not> bit w i" if "Max {i. bit w i} < i" for i
    using that not_le by blast
  with m show ?thesis by (rule that)
qed

lemma unat_highest_bit:
  fixes w :: "'l::len word"
  assumes "bit w k" "\<And>i. k < i \<Longrightarrow> \<not> bit w i"
  shows "2 ^ k \<le> unat w" "unat w < 2 ^ Suc k"
proof -
  have "odd (unat w div 2 ^ k)" using assms(1) by (simp add: bit_unsigned_iff flip: bit_iff_odd)
  then have "0 < unat w div 2 ^ k" by (rule odd_pos)
  then show "2 ^ k \<le> unat w" by (simp add: div_greater_zero_iff)
  have "take_bit (Suc k) (unat w) = unat w"
    by (rule bit_eqI) (use assms(2) in \<open>auto simp: bit_take_bit_iff bit_unsigned_iff less_Suc_eq_le intro: leI\<close>)
  then show "unat w < 2 ^ Suc k" by (metis take_bit_nat_less_exp)
qed

lemma bit_log2_bounds:
  fixes w :: "'l::len word"
  assumes "w \<noteq> 0"
  obtains k where "bit_log2 w = int k" "k < LENGTH('l)" "2 ^ k \<le> unat w" "unat w < 2 ^ Suc k"
  using word_highest_bit [OF assms] bit_log2_eq unat_highest_bit bit_imp_le_length by metis

lemma unat_two_power:
  assumes "k < LENGTH('l)"
  shows "unat (2 ^ k :: 'l::len word) = 2 ^ k"
proof -
  have "unat (word_of_nat (2 ^ k) :: 'l word) = 2 ^ k"
    using assms by (simp only: unat_of_nat) (simp add: take_bit_nat_eq_self_iff)
  then show ?thesis by simp
qed

lemma countr_zero_eq:
  fixes w :: "'l::len word"
  assumes "bit w k" "\<And>i. i < k \<Longrightarrow> \<not> bit w i"
  shows "countr_zero w = k"
proof -
  have k: "k < LENGTH('l)" using assms(1) by (rule bit_imp_le_length)
  have "[0..<LENGTH('l)] = [0..<k] @ k # [Suc k..<LENGTH('l)]"
    using k upt_add_eq_append [of 0 k "LENGTH('l) - k"] by (simp add: upt_conv_Cons)
  moreover have "takeWhile (\<lambda>i. \<not> bit w i) ([0..<k] @ k # [Suc k..<LENGTH('l)]) = [0..<k]"
    using assms by (intro takeWhile_not_first) auto
  moreover have "w \<noteq> 0" using assms(1) by auto
  ultimately show ?thesis by (simp add: countr_zero_def ctzT_fallback_def ctzT_def)
qed

text \<open>The lanes below a lane, in both implementations.\<close>

lemma get_active_lane_num_card:
  assumes "lane < 64"
  shows "get_active_lane_num active lane = card {i. bit active i \<and> i < lane}"
proof -
  have "push_bit lane (1::u64) - 1 = mask lane" by (simp add: mask_eq_exp_minus_1 push_bit_of_1)
  then have "{i. bit (active AND (push_bit lane 1 - 1)) i} = {i. bit active i \<and> i < lane}"
    by (auto simp: bit_and_iff bit_mask_iff dest: bit_imp_le_length)
  then show ?thesis by (simp add: get_active_lane_num_def popcount_card)
qed

lemma active_logical_lane_id_card:
  assumes "lane < 64"
  shows "active_logical_lane_id active lane = card {i. bit active i \<and> i < lane}"
proof -
  have "{i. bit (active AND NOT (push_bit lane (- 1))) i} = {i. bit active i \<and> i < lane}"
    using assms by (auto simp: bit_simps dest: bit_imp_le_length)
  then show ?thesis by (simp add: active_logical_lane_id_def Let_def popcount_card)
qed

lemma card_below_strict:
  assumes "finite A" "a \<in> A" "(a::nat) < b"
  shows "card {i \<in> A. i < a} < card {i \<in> A. i < b}"
  using assms by (intro psubset_card_mono) auto

text \<open>Counting the elements below is a bijection from a finite set onto an initial segment.\<close>

lemma rank_bij:
  assumes "finite A"
  shows "bij_betw (\<lambda>a. card {i \<in> A. i < (a::nat)}) A {..<card A}"
proof (rule bij_betw_imageI)
  show inj: "inj_on (\<lambda>a. card {i \<in> A. i < a}) A"
  proof (rule inj_onI)
    fix a b assume ab: "a \<in> A" "b \<in> A" "card {i \<in> A. i < a} = card {i \<in> A. i < b}"
    show "a = b"
      using card_below_strict [OF assms ab(1), of b] card_below_strict [OF assms ab(2), of a] ab(3)
      by (cases a b rule: linorder_cases) auto
  qed
  have "card {i \<in> A. i < a} < card A" if "a \<in> A" for a
    using assms that by (intro psubset_card_mono) auto
  then have "(\<lambda>a. card {i \<in> A. i < a}) ` A \<subseteq> {..<card A}" by auto
  moreover have "card ((\<lambda>a. card {i \<in> A. i < a}) ` A) = card {..<card A}"
    using inj by (simp add: card_image)
  ultimately show "(\<lambda>a. card {i \<in> A. i < a}) ` A = {..<card A}"
    by (simp add: card_subset_eq)
qed

lemma bit_lane_less: "bit (active :: u64) lane \<Longrightarrow> lane < 64"
  using bit_imp_le_length [of active lane] by simp

lemma lane_bounds:
  assumes "bit (active :: u64) i"
  shows "Min {l. bit active l} \<le> i" "i \<le> Max {l. bit active l}"
  using assms by (auto intro: Min_le Max_ge)

lemma first_active_lane_iff:
  assumes l: "bit (active :: u64) l"
  shows "is_first_active_lane active l \<longleftrightarrow> l = get_first_active_lane_id active"
proof -
  let ?A = "{l. bit active l}"
  have "get_first_active_lane_id active = Min ?A"
    unfolding get_first_active_lane_id_def
  proof (rule countr_zero_eq)
    show "bit active (Min ?A)" using l Min_in [of ?A] by auto
    show "\<not> bit active i" if "i < Min ?A" for i using that lane_bounds(1) leD by blast
  qed
  moreover have "{i. bit active i \<and> i < l} = {} \<longleftrightarrow> l = Min ?A"
  proof
    assume "{i. bit active i \<and> i < l} = {}"
    then show "l = Min ?A" using l by (intro Min_eqI [symmetric]) (auto simp: not_less)
  next
    assume "l = Min ?A"
    then show "{i. bit active i \<and> i < l} = {}" using lane_bounds(1) not_le by blast
  qed
  ultimately show ?thesis
    by (simp add: is_first_active_lane_def get_active_lane_num_card [OF bit_lane_less [OF l]])
qed

lemma last_active_lane_iff:
  assumes l: "bit (active :: u64) l"
  shows "is_last_active_lane active l \<longleftrightarrow> int l = get_last_active_lane_id active"
proof -
  let ?A = "{l. bit active l}"
  have "get_last_active_lane_id active = int (Max ?A)"
    unfolding get_last_active_lane_id_def
  proof (rule bit_log2_eq)
    show "bit active (Max ?A)" using l Max_in [of ?A] by auto
    show "\<not> bit active i" if "Max ?A < i" for i using that lane_bounds(2) leD by blast
  qed
  moreover have "card ?A = Suc (card (?A - {l}))"
    by (rule card_Suc_Diff1 [symmetric]) (use l in auto)
  then have "is_last_active_lane active l \<longleftrightarrow> card {i \<in> ?A. i < l} = card (?A - {l})"
    by (simp only: is_last_active_lane_def get_active_lane_num_card [OF bit_lane_less [OF l]]
        get_active_lane_count_def popcount_card mem_Collect_eq of_nat_eq_iff) simp
  moreover have "card {i \<in> ?A. i < l} = card (?A - {l}) \<longleftrightarrow> {i \<in> ?A. i < l} = ?A - {l}"
  proof
    assume "card {i \<in> ?A. i < l} = card (?A - {l})"
    then show "{i \<in> ?A. i < l} = ?A - {l}" by (rule card_subset_eq [rotated 2]) auto
  qed simp
  moreover have "{i \<in> ?A. i < l} = ?A - {l} \<longleftrightarrow> l = Max ?A"
  proof
    assume "{i \<in> ?A. i < l} = ?A - {l}"
    then show "l = Max ?A" using l by (intro Max_eqI [symmetric]) (auto simp: set_eq_iff le_less)
  next
    assume "l = Max ?A"
    then show "{i \<in> ?A. i < l} = ?A - {l}" using lane_bounds(2) le_less by blast
  qed
  ultimately show ?thesis by simp
qed

section \<open>Properties\<close>

text \<open>The number of a lane among the active lanes is a bijection from the active lanes onto
  0, ..., count - 1; the share strategy's separate implementation computes the same number; lane
  number 0 is the lowest active lane and lane number count - 1 the highest.\<close>

theorem active_lane_numbering:
  "bij_betw (get_active_lane_num active) {l. bit active l} {..<get_active_lane_count active}
    \<and> (\<forall>l. bit active l \<longrightarrow> active_logical_lane_id active l = get_active_lane_num active l)
    \<and> (\<forall>l. bit active l \<longrightarrow> (is_first_active_lane active l \<longleftrightarrow> l = get_first_active_lane_id active))
    \<and> (\<forall>l. bit active l \<longrightarrow> (is_last_active_lane active l \<longleftrightarrow> int l = get_last_active_lane_id active))"
proof (intro conjI allI impI)
  let ?A = "{l. bit active l}"
  have num: "get_active_lane_num active l = card {i \<in> ?A. i < l}" if "bit active l" for l
    using get_active_lane_num_card [OF bit_lane_less [OF that]] by simp
  have cnt: "get_active_lane_count active = card ?A" by (simp add: get_active_lane_count_def popcount_card)
  show "bij_betw (get_active_lane_num active) ?A {..<get_active_lane_count active}"
    unfolding cnt using rank_bij [of ?A] by (rule bij_betw_cong [THEN iffD1, rotated]) (simp_all add: num)
  fix l assume "bit active l"
  then show "active_logical_lane_id active l = get_active_lane_num active l"
    by (simp add: active_logical_lane_id_card get_active_lane_num_card bit_lane_less)
qed (auto simp: first_active_lane_iff last_active_lane_iff)

text \<open>bit_ceil returns the least power of two that is not below its argument whenever such a power
  fits the type, and bit_floor the greatest power of two that is not above a positive argument.\<close>

theorem bit_ceil_floor_correct:
  fixes val :: "'l::len word"
  assumes "0 < unat val" "unat val \<le> 2 ^ (LENGTH('l) - 1)"
  shows "(\<exists>k. unat (bit_ceil val) = 2 ^ k \<and> unat val \<le> 2 ^ k \<and> (k = 0 \<or> 2 ^ (k - 1) < unat val))
    \<and> (\<exists>k. unat (bit_floor val) = 2 ^ k \<and> 2 ^ k \<le> unat val \<and> unat val < 2 ^ Suc k)"
proof
  show "\<exists>k. unat (bit_ceil val) = 2 ^ k \<and> unat val \<le> 2 ^ k \<and> (k = 0 \<or> 2 ^ (k - 1) < unat val)"
  proof (cases "unat val < 2")
    case True
    then have v: "unat val = 1" using assms(1) by simp
    then have "val = 1" by (simp add: word_unat_eq_iff)
    then have "bit_ceil val = 1" by (auto simp: bit_ceil_def bit_width_def)
    then show ?thesis using v by (intro exI [of _ 0]) simp
  next
    case False
    have v: "unat (val - 1) = unat val - 1" using assms(1) by (simp add: unat_minus_one unat_gt_0)
    then have "val - 1 \<noteq> 0" using False by (auto simp: unat_eq_0 [symmetric] simp del: unat_eq_0)
    then obtain k where k: "bit_log2 (val - 1) = int k" "k < LENGTH('l)"
      "2 ^ k \<le> unat (val - 1)" "unat (val - 1) < 2 ^ Suc k"
      by (rule bit_log2_bounds)
    have "2 ^ k < (2::nat) ^ (LENGTH('l) - 1)" using k(3) v assms by linarith
    then have k': "Suc k < LENGTH('l)" by (simp add: less_diff_conv)
    have "unat (2 :: 'l word) = 2" using unat_two_power [of 1, where ?'l = 'l] k' by simp
    then have "\<not> val < 2" using False by (simp add: word_less_nat_alt)
    then have "bit_ceil val = 2 ^ Suc k"
      using k(1) \<open>val - 1 \<noteq> 0\<close> by (simp add: bit_ceil_def bit_width_def nat_add_distrib)
    then have "unat (bit_ceil val) = 2 ^ Suc k" using k' by (simp only: unat_two_power)
    then show ?thesis using k(3,4) v False by (intro exI [of _ "Suc k"]) auto
  qed
  have "val \<noteq> 0" using assms(1) by auto
  then obtain k where k: "bit_log2 val = int k" "k < LENGTH('l)" "2 ^ k \<le> unat val" "unat val < 2 ^ Suc k"
    by (rule bit_log2_bounds)
  then have "unat (bit_floor val) = 2 ^ k"
    using \<open>val \<noteq> 0\<close> by (simp add: bit_floor_def unat_two_power)
  then show "\<exists>k. unat (bit_floor val) = 2 ^ k \<and> 2 ^ k \<le> unat val \<and> unat val < 2 ^ Suc k"
    using k by blast
qed

subsection \<open>Instances\<close>

theorem active_lane_numbering_witness:
  "active_logical_lane_id 0x1A 4 = get_active_lane_num 0x1A 4 \<and> bit (0x1A :: u64) 4"
proof -
  have "bit (0x1A :: u64) 4" by (simp add: bit_numeral_rec)
  then show ?thesis using active_lane_numbering [of "0x1A"] by blast
qed

theorem bit_ceil_floor_correct_witness:
  "\<exists>k. unat (bit_ceil (100 :: u16)) = 2 ^ k \<and> 100 \<le> (2::nat) ^ k \<and> (k = 0 \<or> 2 ^ (k - 1) < (100::nat))"
  using bit_ceil_floor_correct [of "100 :: u16"] by simp

end
