(* ===== verification/Wf_Queue.thy ===== *)
theory Wf_Queue
  imports Lanes
begin

text \<open>
  The circular queue \<open>AtomicWFQueue\<close> (\<open>src/containers/atomic_wf_queue.hpp\<close> and
  \<open>_impl.hpp\<close>). Enqueuers and dequeuers hold different mutexes, so one enqueue and
  one dequeue run at the same time and meet only in \<open>curr_size_\<close>; the step
  relation splits both into the accesses to shared memory. Each wavefront calls
  with its lowest active lane and hands the result to the other lanes.
\<close>

section \<open>The queue\<close>

record 'a wf_queue =
  buf :: "'a list"
  head :: nat
  tail :: nat
  qsize :: nat
  curr_size :: nat

text \<open>\<open>mem\<close> is the content of the memory that the allocator returns.\<close>

definition allocate_queue :: "'a list \<Rightarrow> 'a wf_queue" where
  "allocate_queue mem = \<lparr>buf = mem, head = 0, tail = 0, qsize = length mem, curr_size = 0\<rparr>"

definition deallocate_queue :: "'a wf_queue \<Rightarrow> 'a wf_queue" where
  "deallocate_queue q = \<lparr>buf = [], head = 0, tail = 0, qsize = 0, curr_size = 0\<rparr>"

definition push :: "'a \<Rightarrow> 'a wf_queue \<Rightarrow> 'a wf_queue" where
  "push val q =
     (if curr_size q < qsize q
      then q\<lparr>buf := (buf q)[tail q := val], tail := (tail q + 1) mod qsize q, curr_size := curr_size q + 1\<rparr>
      else q)"

definition is_full :: "'a wf_queue \<Rightarrow> bool" where
  "is_full q \<longleftrightarrow> curr_size q = qsize q"

definition is_empty :: "'a wf_queue \<Rightarrow> bool" where
  "is_empty q \<longleftrightarrow> curr_size q = 0"

section \<open>Concurrent enqueue and dequeue\<close>

datatype 'a enq_pc = E_idle | E_checked 'a | E_stored | E_failed
datatype 'a deq_pc = D_idle | D_ready | D_taken 'a

text \<open>\<open>sent\<close> and \<open>got\<close> record the values stored and taken, in order.\<close>

record 'a wfq_state =
  queue :: "'a wf_queue"
  enq :: "'a enq_pc"
  deq :: "'a deq_pc"
  sent :: "'a list"
  got :: "'a list"

definition store_tail :: "'a \<Rightarrow> 'a wf_queue \<Rightarrow> 'a wf_queue" where
  "store_tail val q = (let next_tail = (tail q + 1) mod qsize q
     in q\<lparr>buf := (buf q)[tail q := val], tail := next_tail\<rparr>)"

definition take_head :: "'a wf_queue \<Rightarrow> 'a \<times> 'a wf_queue" where
  "take_head q = (let next_head = (head q + 1) mod qsize q
     in (buf q ! head q, q\<lparr>head := next_head\<rparr>))"

inductive wfq_step :: "'a wfq_state \<Rightarrow> 'a wfq_state \<Rightarrow> bool" where
  enq_check: "enq s = E_idle \<Longrightarrow> \<not> is_full (queue s) \<Longrightarrow> wfq_step s (s\<lparr>enq := E_checked v\<rparr>)"
| enq_assert: "enq s = E_idle \<Longrightarrow> is_full (queue s) \<Longrightarrow> wfq_step s (s\<lparr>enq := E_failed\<rparr>)"
| enq_store: "enq s = E_checked v \<Longrightarrow>
    wfq_step s (s\<lparr>queue := store_tail v (queue s), enq := E_stored, sent := sent s @ [v]\<rparr>)"
| enq_add: "enq s = E_stored \<Longrightarrow>
    wfq_step s (s\<lparr>queue := (queue s)\<lparr>curr_size := curr_size (queue s) + 1\<rparr>, enq := E_idle\<rparr>)"
| deq_wait: "deq s = D_idle \<Longrightarrow> \<not> is_empty (queue s) \<Longrightarrow> wfq_step s (s\<lparr>deq := D_ready\<rparr>)"
| deq_take: "deq s = D_ready \<Longrightarrow> take_head (queue s) = (v, q) \<Longrightarrow>
    wfq_step s (s\<lparr>queue := q, deq := D_taken v, got := got s @ [v]\<rparr>)"
| deq_sub: "deq s = D_taken v \<Longrightarrow>
    wfq_step s (s\<lparr>queue := (queue s)\<lparr>curr_size := curr_size (queue s) - 1\<rparr>, deq := D_idle\<rparr>)"

inductive_cases wfq_stepE: "wfq_step s t"

text \<open>The queue after allocation and \<open>xs\<close> pushed by the host.\<close>

definition wfq_init :: "'a list \<Rightarrow> 'a wfq_state \<Rightarrow> bool" where
  "wfq_init xs s \<longleftrightarrow> (\<exists>mem. mem \<noteq> [] \<and> length xs \<le> length mem \<and> queue s = fold push xs (allocate_queue mem))
     \<and> enq s = E_idle \<and> deq s = D_idle \<and> sent s = xs \<and> got s = []"

subsection \<open>What a wavefront sees\<close>

text \<open>\<open>broadcast_lds\<close> gives every lane the value of the lowest active lane; each lane then adds its number.
  The values are pointers to elements of \<open>elem\<close> bytes.\<close>

definition dequeue_lane :: "u64 \<Rightarrow> int \<Rightarrow> int \<Rightarrow> nat \<Rightarrow> int" where
  "dequeue_lane ballot elem value lane = value + elem * int (active_logical_lane_id ballot lane)"

section \<open>Invariant\<close>

definition ring_ok :: "'a wf_queue \<Rightarrow> 'a list \<Rightarrow> bool" where
  "ring_ok q xs \<longleftrightarrow> 0 < qsize q \<and> length (buf q) = qsize q \<and> head q < qsize q \<and> length xs \<le> qsize q
     \<and> tail q = (head q + length xs) mod qsize q \<and> xs = ring_view (buf q) (head q) (length xs)"

definition wfq_inv :: "'a wfq_state \<Rightarrow> bool" where
  "wfq_inv s \<longleftrightarrow> (\<exists>xs. sent s = got s @ xs \<and> ring_ok (queue s) xs
     \<and> curr_size (queue s) + (if enq s = E_stored then 1 else 0)
         = length xs + (case deq s of D_taken v \<Rightarrow> 1 | _ \<Rightarrow> 0)
     \<and> curr_size (queue s) \<le> qsize (queue s)
     \<and> ((\<exists>v. enq s = E_checked v) \<or> enq s = E_stored \<longrightarrow> curr_size (queue s) < qsize (queue s))
     \<and> (deq s = D_ready \<longrightarrow> xs \<noteq> []) \<and> (deq s \<noteq> D_idle \<longrightarrow> 0 < curr_size (queue s)))"

lemma ring_ok_store:
  assumes "ring_ok q xs" "length xs < qsize q"
  shows "ring_ok (store_tail v q) (xs @ [v])"
proof -
  have "ring_view ((buf q)[tail q := v]) (head q) (Suc (length xs)) = xs @ [v]"
    using ring_view_snoc [of "length xs" "buf q" "head q" v] assms by (simp add: ring_ok_def)
  then show ?thesis
    using assms by (simp add: ring_ok_def store_tail_def Let_def mod_Suc_eq)
qed

lemma ring_ok_take:
  assumes "ring_ok q (x # xs)"
  shows "fst (take_head q) = x" "ring_ok (snd (take_head q)) xs"
    "qsize (snd (take_head q)) = qsize q" "curr_size (snd (take_head q)) = curr_size q"
proof -
  have v: "x # xs = ring_view (buf q) (head q) (Suc (length xs))"
    using assms by (simp add: ring_ok_def)
  then have "x = buf q ! (head q mod length (buf q))"
    "xs = ring_view (buf q) (Suc (head q) mod length (buf q)) (length xs)"
    by (simp_all add: ring_view_Cons)
  then show "fst (take_head q) = x" "ring_ok (snd (take_head q)) xs"
    using assms by (simp_all add: ring_ok_def take_head_def Let_def mod_add_left_eq)
qed (simp_all add: take_head_def Let_def)

lemma store_tail_fields [simp]:
  "qsize (store_tail v q) = qsize q" "curr_size (store_tail v q) = curr_size q"
  by (simp_all add: store_tail_def Let_def)

lemma push_store_tail:
  "curr_size q < qsize q \<Longrightarrow> push v q = (store_tail v q)\<lparr>curr_size := curr_size q + 1\<rparr>"
  by (simp add: push_def store_tail_def Let_def)

lemma ring_ok_curr_size [simp]: "ring_ok (q\<lparr>curr_size := n\<rparr>) xs \<longleftrightarrow> ring_ok q xs"
  by (simp add: ring_ok_def)

lemma push_all:
  assumes "ring_ok q ys" "curr_size q = length ys" "length ys + length xs \<le> qsize q"
  shows "ring_ok (fold push xs q) (ys @ xs) \<and> curr_size (fold push xs q) = length ys + length xs
    \<and> qsize (fold push xs q) = qsize q"
  using assms
proof (induction xs arbitrary: q ys)
  case (Cons x xs)
  then have p: "push x q = (store_tail x q)\<lparr>curr_size := curr_size q + 1\<rparr>"
    by (intro push_store_tail) simp
  have "ring_ok (push x q) (ys @ [x])" "curr_size (push x q) = length (ys @ [x])" "qsize (push x q) = qsize q"
    using Cons.prems ring_ok_store [of q ys x] unfolding p by simp_all
  then show ?case using Cons.IH [of "push x q" "ys @ [x]"] Cons.prems by simp
qed simp

lemma ring_ok_allocate: "mem \<noteq> [] \<Longrightarrow> ring_ok (allocate_queue mem) []"
  by (simp add: ring_ok_def allocate_queue_def ring_view_def)

lemma wfq_inv_step:
  assumes "wfq_inv s" "wfq_step s t"
  shows "wfq_inv t"
proof -
  obtain xs where xs: "sent s = got s @ xs" "ring_ok (queue s) xs"
    and c: "curr_size (queue s) + (if enq s = E_stored then 1 else 0)
         = length xs + (case deq s of D_taken v \<Rightarrow> 1 | _ \<Rightarrow> 0)"
    "curr_size (queue s) \<le> qsize (queue s)"
    "(\<exists>v. enq s = E_checked v) \<or> enq s = E_stored \<longrightarrow> curr_size (queue s) < qsize (queue s)"
    "deq s = D_ready \<longrightarrow> xs \<noteq> []" "deq s \<noteq> D_idle \<longrightarrow> 0 < curr_size (queue s)"
    using assms(1) by (auto simp: wfq_inv_def)
  from assms(2) show ?thesis
  proof cases
    case (enq_store v)
    then have "length xs < qsize (queue s)" using c by simp
    then show ?thesis
      using enq_store xs c ring_ok_store [of "queue s" xs v]
      by (auto simp: wfq_inv_def split: deq_pc.splits intro!: exI [of _ "xs @ [v]"])
  next
    case (deq_take v q)
    then obtain y ys where "xs = y # ys" using c(4) by (cases xs) auto
    then show ?thesis
      using deq_take xs c ring_ok_take [of "queue s" y ys]
      by (auto simp: wfq_inv_def intro!: exI [of _ ys])
  next
    case deq_wait
    then have "xs \<noteq> []" using c by (auto simp: is_empty_def split: if_splits)
    then show ?thesis using deq_wait xs c by (auto simp: wfq_inv_def is_empty_def)
  qed (use xs c in \<open>auto simp: wfq_inv_def is_full_def split: deq_pc.splits if_splits\<close>)
qed

interpretation wfq: invariant_system "wfq_init xs" wfq_step wfq_inv for xs
proof
  fix s assume "wfq_init xs s"
  then obtain mem where "mem \<noteq> []" "length xs \<le> length mem" "queue s = fold push xs (allocate_queue mem)"
    "enq s = E_idle" "deq s = D_idle" "sent s = xs" "got s = []"
    by (auto simp: wfq_init_def)
  then show "wfq_inv s"
    using push_all [OF ring_ok_allocate, of mem xs]
    by (auto simp: wfq_inv_def allocate_queue_def)
qed (rule wfq_inv_step)

lemma logical_lane_bij:
  "bij_betw (active_logical_lane_id active) {l. bit active l} {..<get_active_lane_count active}"
proof -
  let ?A = "{l. bit active l}"
  have "bij_betw (active_logical_lane_id active) ?A {..<card ?A}
      \<longleftrightarrow> bij_betw (\<lambda>a. card {i \<in> ?A. i < a}) ?A {..<card ?A}"
    by (rule bij_betw_cong) (simp add: active_logical_lane_id_card bit_lane_less)
  then show ?thesis using rank_bij [of ?A] by (simp add: get_active_lane_count_def popcount_card)
qed

section \<open>Properties\<close>

text \<open>C35. The queue is a FIFO queue under every interleaving of one enqueue and one dequeue: the values
  taken so far, followed by the values now in the ring from head to tail, are exactly the values
  stored so far in their order; the number of values in the ring never exceeds the capacity, so
  no value is overwritten before it was taken; and a waiting dequeuer sees a value whenever the
  ring holds one and no enqueue is between its store and its increment of the size.\<close>

theorem wf_queue_fifo:
  assumes "reachable (wfq_init xs) wfq_step s"
  shows "sent s = got s @ ring_view (buf (queue s)) (head (queue s)) (length (sent s) - length (got s))
    \<and> length (sent s) - length (got s) \<le> qsize (queue s)
    \<and> (enq s \<noteq> E_stored \<and> sent s \<noteq> got s \<longrightarrow> \<not> is_empty (queue s))"
proof -
  have "wfq_inv s" using assms by (rule wfq.reachable_inv)
  then show ?thesis by (auto simp: wfq_inv_def ring_ok_def is_empty_def split: if_splits)
qed

text \<open>The lanes of a wavefront that dequeues a pointer receive pairwise different pointers, to
  consecutive elements, one for each active lane.\<close>

theorem dequeue_lanes_consecutive:
  assumes "0 < elem"
  shows "bij_betw (dequeue_lane active elem v) {l. bit active l}
    ((\<lambda>k. v + elem * int k) ` {..<get_active_lane_count active})"
proof -
  let ?A = "{l. bit active l}"
  have "bij_betw (\<lambda>k. v + elem * int k) {..<get_active_lane_count active}
      ((\<lambda>k. v + elem * int k) ` {..<get_active_lane_count active})"
    using assms by (auto simp: bij_betw_def inj_on_def)
  with logical_lane_bij have "bij_betw ((\<lambda>k. v + elem * int k) \<circ> active_logical_lane_id active) ?A
      ((\<lambda>k. v + elem * int k) ` {..<get_active_lane_count active})"
    by (rule bij_betw_trans)
  then show ?thesis by (simp add: dequeue_lane_def [abs_def] comp_def)
qed

subsection \<open>Instances\<close>

definition three_slots :: "nat wfq_state" where
  "three_slots = \<lparr>queue = fold push [10, 20] (allocate_queue [0, 0, 0]), enq = E_idle, deq = D_idle,
     sent = [10, 20], got = []\<rparr>"

theorem wf_queue_fifo_witness:
  "\<exists>s. reachable (wfq_init [10, 20]) wfq_step s \<and> got s = [10 :: nat] \<and> enq s = E_idle
    \<and> sent s = got s @ ring_view (buf (queue s)) (head (queue s)) (length (sent s) - length (got s))
    \<and> \<not> is_empty (queue s)"
proof -
  let ?r = "reachable (wfq_init [10, 20 :: nat]) wfq_step"
  let ?s = "three_slots\<lparr>queue := (queue three_slots)\<lparr>head := 1\<rparr>, deq := D_taken 10, got := [10]\<rparr>"
  have "wfq_init [10, 20] three_slots"
    unfolding wfq_init_def three_slots_def by (auto intro!: exI [of _ "[0, 0, 0]"])
  then have "?r three_slots" by (rule reach_init)
  then have "?r (three_slots\<lparr>deq := D_ready\<rparr>)"
    by (rule reach_step) (rule deq_wait, simp_all add: three_slots_def is_empty_def push_def allocate_queue_def)
  then have r: "?r ?s"
    by (rule reach_step)
      (use deq_take [of "three_slots\<lparr>deq := D_ready\<rparr>" 10 "(queue three_slots)\<lparr>head := 1\<rparr>"]
        in \<open>simp add: three_slots_def take_head_def push_def allocate_queue_def\<close>)
  have "got ?s = [10]" "enq ?s = E_idle" "sent ?s \<noteq> got ?s" by (simp_all add: three_slots_def)
  with wf_queue_fifo [OF r] r show ?thesis by (intro exI [of _ ?s]) auto
qed

theorem dequeue_lanes_consecutive_witness:
  "bij_betw (dequeue_lane 0x1A 8 4096) {l. bit (0x1A :: u64) l} ((\<lambda>k. 4096 + 8 * int k) ` {..<get_active_lane_count 0x1A})"
  by (rule dequeue_lanes_consecutive) simp

end
