(* ===== verification/Grid_Index.thy ===== *)
theory Grid_Index
  imports Lanes "HOL-Library.While_Combinator"
begin

text \<open>
  Sharing of index ranges among the threads and workgroups of a grid.

  \<^item> \<open>Identity\<close> and the index strategies of \<open>containers/index_strategy.hpp\<close>,
    with the dispatch of \<open>IndexStrategy\<close>;
  \<^item> \<open>Array\<close> (\<open>containers/array_impl.hpp\<close>) and \<open>Matrix\<close>
    (\<open>containers/matrix_impl.hpp\<close>) with their host and device operations;
  \<^item> \<open>split_wg_range\<close> of \<open>util.hpp\<close>, which splits a transfer among workgroups.

  A failing \<open>assert\<close> is the value \<^term>\<open>Inl Assert_fail\<close>. Sizes are natural
  numbers: \<open>size_t\<close> does not wrap on ranges that fit in memory.
\<close>

section \<open>Identity\<close>

definition id_block_size :: "thread_pos \<Rightarrow> nat" where
  "id_block_size t = dim_x (blockDim t) * dim_y (blockDim t) * dim_z (blockDim t)"

definition id_grid_size :: "thread_pos \<Rightarrow> nat" where
  "id_grid_size t = dim_x (gridDim t) * dim_y (gridDim t) * dim_z (gridDim t)"

definition id_block_id :: "thread_pos \<Rightarrow> nat" where
  "id_block_id t = dim_x (blockIdx t) + dim_y (blockIdx t) * dim_x (gridDim t)
     + dim_z (blockIdx t) * dim_x (gridDim t) * dim_y (gridDim t)"

definition id_local_thread_id :: "thread_pos \<Rightarrow> nat" where
  "id_local_thread_id t = dim_x (threadIdx t) + dim_y (threadIdx t) * dim_x (blockDim t)
     + dim_z (threadIdx t) * dim_x (blockDim t) * dim_y (blockDim t)"

definition id_global_thread_id :: "thread_pos \<Rightarrow> nat" where
  "id_global_thread_id t = id_local_thread_id t + id_block_id t * id_block_size t"

section \<open>Index strategies\<close>

datatype index_strategy_enum = TCBA | TDBD | TDBC | TDBP | MP | MB | MD | UNSET

text \<open>
  An \<open>IndexStrategy\<close> object holds one member per strategy; the four range
  strategies are built from the same element count, and \<open>_tdbc\<close> also stores the
  tile of the block that runs its constructor.
\<close>

record index_strategy =
  ise :: index_strategy_enum
  container_elems :: nat
  tile_offset :: nat
  tile_num_elems :: nat

definition tdbc_tile_offset :: "nat \<Rightarrow> thread_pos \<Rightarrow> nat" where
  "tdbc_tile_offset n t =
     (let left_over = n mod id_grid_size t
      in id_block_id t * (n div id_grid_size t) + min (id_block_id t) left_over)"

definition tdbc_tile_num_elems :: "nat \<Rightarrow> thread_pos \<Rightarrow> nat" where
  "tdbc_tile_num_elems n t =
     (let left_over = n mod id_grid_size t; k = n div id_grid_size t
      in if id_block_id t < left_over then k + 1 else k)"

definition new_index_strategy :: "index_strategy_enum \<Rightarrow> nat \<Rightarrow> thread_pos \<Rightarrow> index_strategy" where
  "new_index_strategy e n t =
     \<lparr>ise = e, container_elems = n,
      tile_offset = tdbc_tile_offset n t, tile_num_elems = tdbc_tile_num_elems n t\<rparr>"

text \<open>\<open>Thread_Contiguous_Block_Agnostic\<close>: every thread walks the whole container.\<close>

definition tcba_start :: "index_strategy \<Rightarrow> nat result" where
  [simp]: "tcba_start s = Inr 0"

definition tcba_end :: "index_strategy \<Rightarrow> nat result" where
  [simp]: "tcba_end s = (if container_elems s = 0 then Inl Assert_fail else Inr (container_elems s))"

definition tcba_next :: "index_strategy \<Rightarrow> nat \<Rightarrow> nat result" where
  [simp]: "tcba_next s i = Inr (i + 1)"

text \<open>\<open>Thread_Discontiguous_Block_Discontiguous\<close>: all threads of the grid interleave.\<close>

definition tdbd_start :: "index_strategy \<Rightarrow> thread_pos \<Rightarrow> nat result" where
  [simp]: "tdbd_start s t = Inr (id_global_thread_id t)"

definition tdbd_end :: "index_strategy \<Rightarrow> nat result" where
  [simp]: "tdbd_end s = (if container_elems s = 0 then Inl Assert_fail else Inr (container_elems s))"

definition tdbd_next :: "index_strategy \<Rightarrow> thread_pos \<Rightarrow> nat \<Rightarrow> nat result" where
  [simp]: "tdbd_next s t i = Inr (i + id_grid_size t * id_block_size t)"

text \<open>\<open>Thread_Discontiguous_Block_Contiguous\<close>: a tile per block, its threads interleave.\<close>

definition tdbc_start :: "index_strategy \<Rightarrow> thread_pos \<Rightarrow> nat result" where
  [simp]: "tdbc_start s t =
     (if container_elems s = 0 then Inl Assert_fail else Inr (tile_offset s + id_local_thread_id t))"

definition tdbc_end :: "index_strategy \<Rightarrow> nat result" where
  [simp]: "tdbc_end s =
     (if container_elems s = 0 then Inl Assert_fail else Inr (tile_offset s + tile_num_elems s))"

definition tdbc_next :: "index_strategy \<Rightarrow> thread_pos \<Rightarrow> nat \<Rightarrow> nat result" where
  [simp]: "tdbc_next s t i = (if container_elems s = 0 then Inl Assert_fail else Inr (i + id_block_size t))"

text \<open>\<open>Thread_Discontiguous_Block_Private\<close>: every block walks the whole container.\<close>

definition tdbp_start :: "index_strategy \<Rightarrow> thread_pos \<Rightarrow> nat result" where
  [simp]: "tdbp_start s t = Inr (id_local_thread_id t)"

definition tdbp_end :: "index_strategy \<Rightarrow> nat result" where
  [simp]: "tdbp_end s = (if container_elems s = 0 then Inl Assert_fail else Inr (container_elems s))"

definition tdbp_next :: "index_strategy \<Rightarrow> thread_pos \<Rightarrow> nat \<Rightarrow> nat result" where
  [simp]: "tdbp_next s t i = Inr (i + id_block_size t)"

text \<open>The matrix strategies only have a start; their \<open>end\<close> and \<open>next\<close> assert false.\<close>

definition mp_start :: "thread_pos \<Rightarrow> nat result" where
  [simp]: "mp_start t = Inr (id_global_thread_id t)"

definition mb_start :: "thread_pos \<Rightarrow> nat result" where
  [simp]: "mb_start t = Inr (id_block_id t)"

definition md_start :: "thread_pos \<Rightarrow> nat result" where
  [simp]: "md_start t = Inr 0"

text \<open>The dispatch of \<open>IndexStrategy\<close>.\<close>

fun idx_start :: "index_strategy \<Rightarrow> thread_pos \<Rightarrow> nat result" where
  "idx_start s t =
     (case ise s of
        TCBA \<Rightarrow> tcba_start s
      | TDBD \<Rightarrow> tdbd_start s t
      | TDBC \<Rightarrow> tdbc_start s t
      | TDBP \<Rightarrow> tdbp_start s t
      | MP \<Rightarrow> mp_start t
      | MB \<Rightarrow> mb_start t
      | MD \<Rightarrow> md_start t
      | UNSET \<Rightarrow> Inl Assert_fail)"

fun idx_end :: "index_strategy \<Rightarrow> nat result" where
  "idx_end s =
     (case ise s of
        TCBA \<Rightarrow> tcba_end s
      | TDBD \<Rightarrow> tdbd_end s
      | TDBC \<Rightarrow> tdbc_end s
      | TDBP \<Rightarrow> tdbp_end s
      | _ \<Rightarrow> Inl Assert_fail)"

fun idx_next :: "index_strategy \<Rightarrow> thread_pos \<Rightarrow> nat \<Rightarrow> nat result" where
  "idx_next s t i =
     (case ise s of
        TCBA \<Rightarrow> tcba_next s i
      | TDBD \<Rightarrow> tdbd_next s t i
      | TDBC \<Rightarrow> tdbc_next s t i
      | TDBP \<Rightarrow> tdbp_next s t i
      | _ \<Rightarrow> Inl Assert_fail)"

section \<open>Arrays\<close>

definition array_get :: "'a list \<Rightarrow> nat \<Rightarrow> 'a result" where
  "array_get a i = (if i < length a then Inr (a ! i) else Inl Assert_fail)"

definition array_set :: "nat \<Rightarrow> 'a \<Rightarrow> 'a list \<Rightarrow> 'a list result" where
  "array_set i v a = (if i < length a then Inr (a[i := v]) else Inl Assert_fail)"

fun fill_from :: "nat \<Rightarrow> nat \<Rightarrow> 'a \<Rightarrow> 'a list \<Rightarrow> 'a list result" where
  "fill_from i 0 v a = Inr a"
| "fill_from i (Suc n) v a = bind_r (array_set i v a) (fill_from (i + 1) n v)"

definition fill_host :: "'a \<Rightarrow> nat \<Rightarrow> nat \<Rightarrow> 'a list \<Rightarrow> 'a list result" where
  "fill_host v start_index len a = fill_from start_index len v a"

fun copy_from :: "'a list \<Rightarrow> nat \<Rightarrow> nat \<Rightarrow> 'a list \<Rightarrow> 'a list result" where
  "copy_from src i 0 a = Inr a"
| "copy_from src i (Suc n) a =
     bind_r (array_get src i) (\<lambda>v. bind_r (array_set i v a) (copy_from src (i + 1) n))"

definition copy_host :: "'a list \<Rightarrow> nat \<Rightarrow> nat \<Rightarrow> 'a list \<Rightarrow> 'a list result" where
  "copy_host src start_index len a = copy_from src start_index len a"

text \<open>
  A device loop over an array: it runs while the condition holds of the index,
  applies the body and asks the strategy for the next index. \<^term>\<open>None\<close> is a loop
  that does not end.
\<close>

definition idx_loop :: "(nat \<Rightarrow> bool) \<Rightarrow> (nat \<Rightarrow> 'a list \<Rightarrow> 'a list result) \<Rightarrow> index_strategy
    \<Rightarrow> thread_pos \<Rightarrow> nat \<Rightarrow> 'a list \<Rightarrow> 'a list result option" where
  "idx_loop c body s t i a =
     map_option (map_sum id snd)
       (while_option (\<lambda>st. case st of Inl _ \<Rightarrow> False | Inr (i, _) \<Rightarrow> c i)
          (\<lambda>st. bind_r st (\<lambda>(i, a). bind_r (body i a) (\<lambda>a'. bind_r (idx_next s t i) (\<lambda>j. Inr (j, a')))))
          (Inr (i, a)))"

definition fill_device :: "index_strategy \<Rightarrow> 'a \<Rightarrow> nat \<Rightarrow> nat \<Rightarrow> thread_pos \<Rightarrow> 'a list \<Rightarrow> 'a list result option" where
  "fill_device s v start_index len t a =
     (case idx_start s t of
        Inl e \<Rightarrow> Some (Inl e)
      | Inr o1 \<Rightarrow> idx_loop (\<lambda>i. i < start_index + len \<and> i < length a) (\<lambda>i. array_set i v) s t
                   (start_index + o1) a)"

definition copy_device :: "index_strategy \<Rightarrow> 'a list \<Rightarrow> nat \<Rightarrow> nat \<Rightarrow> thread_pos \<Rightarrow> 'a list \<Rightarrow> 'a list result option" where
  "copy_device s src start_index len t a =
     (case idx_start s t of
        Inl e \<Rightarrow> Some (Inl e)
      | Inr o1 \<Rightarrow> idx_loop (\<lambda>i. i < start_index + len)
                   (\<lambda>i a. bind_r (array_get src i) (\<lambda>v. array_set i v a)) s t (start_index + o1) a)"

text \<open>The threads of a kernel, one after the other in the order of the list.\<close>

fun run_threads :: "(thread_pos \<Rightarrow> 'a \<Rightarrow> 'a result option) \<Rightarrow> thread_pos list \<Rightarrow> 'a \<Rightarrow> 'a result option" where
  "run_threads f [] a = Some (Inr a)"
| "run_threads f (t # ts) a =
     Option.bind (f t a) (\<lambda>r. case r of Inl e \<Rightarrow> Some (Inl e) | Inr a' \<Rightarrow> run_threads f ts a')"

section \<open>Matrices\<close>

record 'a matrix =
  number_rows :: nat
  number_columns :: nat
  flat_c_array :: "'a list"
  dev_idx :: index_strategy

definition access_row_col :: "'a matrix \<Rightarrow> nat \<Rightarrow> nat \<Rightarrow> 'a result" where
  "access_row_col m r c =
     (if r < number_rows m \<and> c < number_columns m
      then Inr (flat_c_array m ! (r * number_columns m + c)) else Inl Assert_fail)"

definition access_col :: "'a matrix \<Rightarrow> nat \<Rightarrow> thread_pos \<Rightarrow> 'a result" where
  "access_col m c t =
     bind_r (idx_start (dev_idx m) t) (\<lambda>r.
       if r < number_rows m \<and> c < number_columns m
       then Inr (flat_c_array m ! (r * number_columns m + c)) else Inl Assert_fail)"

definition access_own :: "'a matrix \<Rightarrow> thread_pos \<Rightarrow> 'a result" where
  "access_own m t =
     bind_r (idx_start (dev_idx m) t) (\<lambda>c.
       if 0 < number_rows m \<and> c < number_columns m
       then Inr (flat_c_array m ! (0 * number_columns m + c)) else Inl Assert_fail)"

section \<open>Splitting a transfer among workgroups\<close>

definition split_wg_range :: "nat \<Rightarrow> nat \<Rightarrow> nat \<Rightarrow> nat \<times> nat" where
  "split_wg_range tot wg_id wg_count =
     (let base = tot div wg_count; remainder = tot mod wg_count;
          count = base + (if wg_id < remainder then 1 else 0);
          offset = wg_id * base + (if wg_id < remainder then wg_id else remainder)
      in (offset, count))"

section \<open>Balanced shares\<close>

definition share_off :: "nat \<Rightarrow> nat \<Rightarrow> nat \<Rightarrow> nat" where
  "share_off tot n w = w * (tot div n) + min w (tot mod n)"

lemma share_off_0 [simp]: "share_off tot n 0 = 0"
  by (simp add: share_off_def)

lemma share_off_last [simp]:
  assumes "0 < n"
  shows "share_off tot n n = tot"
  using mod_less_divisor [OF assms, of tot] by (simp add: share_off_def)

lemma share_off_Suc:
  "share_off tot n (Suc w) = share_off tot n w + tot div n + (if w < tot mod n then 1 else 0)"
  by (auto simp: share_off_def min_def)

lemma mono_share_off: "mono (share_off tot n)"
  by (intro monoI) (auto simp: share_off_def min_def intro: mult_le_mono1 add_mono)

text \<open>A monotone sequence of boundaries cuts the range below its last into disjoint pieces.\<close>

lemma boundary_exists:
  fixes b :: "nat \<Rightarrow> nat"
  shows "b 0 \<le> k \<Longrightarrow> k < b n \<Longrightarrow> \<exists>w<n. b w \<le> k \<and> k < b (Suc w)"
proof (induction n)
  case (Suc n)
  then show ?case by (cases "k < b n") (auto simp: less_Suc_eq)
qed simp

lemma boundary_unique:
  fixes b :: "nat \<Rightarrow> nat"
  assumes "mono b" "b w \<le> k" "k < b (Suc w)" "b v \<le> k" "k < b (Suc v)"
  shows "v = w"
proof (rule ccontr)
  assume "v \<noteq> w"
  then consider "Suc v \<le> w" | "Suc w \<le> v" by linarith
  then show False
  proof cases
    case 1 then show False using monoD [OF assms(1) 1] assms by linarith
  next
    case 2 then show False using monoD [OF assms(1) 2] assms by linarith
  qed
qed

lemma share_owner:
  assumes "0 < n" "k < tot"
  shows "\<exists>!w. w < n \<and> share_off tot n w \<le> k \<and> k < share_off tot n (Suc w)"
  using boundary_exists [of "share_off tot n" k n] assms
    boundary_unique [OF mono_share_off] by (auto intro!: ex_ex1I)

lemma split_wg_range_share:
  "split_wg_range tot w n = (share_off tot n w, share_off tot n (Suc w) - share_off tot n w)"
  by (auto simp: split_wg_range_def share_off_def min_def Let_def)

text \<open>The ranges that \<open>split_wg_range\<close> gives to the workgroups \<open>0 .. wg_count - 1\<close>
  partition \<open>[0, total)\<close>: every index belongs to exactly one workgroup, the ranges
  follow one another without a gap, and two workgroups differ by at most one element.\<close>

theorem split_wg_range_partition:
  assumes "0 < n"
  shows "(\<forall>k. k < tot \<longleftrightarrow> (\<exists>!w. w < n \<and> fst (split_wg_range tot w n) \<le> k
            \<and> k < fst (split_wg_range tot w n) + snd (split_wg_range tot w n)))
       \<and> (\<forall>w. fst (split_wg_range tot (Suc w) n)
            = fst (split_wg_range tot w n) + snd (split_wg_range tot w n))
       \<and> (\<forall>v w. snd (split_wg_range tot v n) \<le> snd (split_wg_range tot w n) + 1)"
proof -
  have le: "share_off tot n w \<le> share_off tot n (Suc w)" for w
    by (rule monoD [OF mono_share_off]) simp
  have top: "share_off tot n (Suc w) \<le> tot" if "w < n" for w
    using monoD [OF mono_share_off, of "Suc w" n tot n] that assms by simp
  have "k < tot \<longleftrightarrow> (\<exists>!w. w < n \<and> share_off tot n w \<le> k \<and> k < share_off tot n (Suc w))" for k
    using share_owner [OF assms, of k tot] top by (fastforce dest: order.strict_trans2)
  moreover have "snd (split_wg_range tot v n) \<le> snd (split_wg_range tot w n) + 1" for v w
    by (simp add: split_wg_range_def Let_def)
  ultimately show ?thesis using le by (simp add: split_wg_range_share)
qed

theorem split_wg_range_partition_witness:
  "map (\<lambda>w. split_wg_range 10 w 4) [0, 1, 2, 3] = [(0, 3), (3, 3), (6, 2), (8, 2)]
   \<and> (\<exists>!w. w < 4 \<and> fst (split_wg_range 10 w 4) \<le> 7 \<and> 7 < fst (split_wg_range 10 w 4) + snd (split_wg_range 10 w 4))"
  using conjunct1 [OF split_wg_range_partition [of 4 10], rule_format, of 7]
  by (simp add: split_wg_range_def)

section \<open>Thread positions\<close>

definition in_dim :: "dim3 \<Rightarrow> dim3 \<Rightarrow> bool" where
  "in_dim d p \<longleftrightarrow> dim_x p < dim_x d \<and> dim_y p < dim_y d \<and> dim_z p < dim_z d"

definition flat_pos :: "dim3 \<Rightarrow> dim3 \<Rightarrow> nat" where
  "flat_pos d p = dim_x p + dim_y p * dim_x d + dim_z p * dim_x d * dim_y d"

definition dim_size :: "dim3 \<Rightarrow> nat" where
  "dim_size d = dim_x d * dim_y d * dim_z d"

definition grid_threads :: "dim3 \<Rightarrow> dim3 \<Rightarrow> thread_pos set" where
  "grid_threads g b = {t. gridDim t = g \<and> blockDim t = b \<and> in_dim g (blockIdx t) \<and> in_dim b (threadIdx t)}"

lemma mixed_radix_less: "(i::nat) < m \<Longrightarrow> j < n \<Longrightarrow> i + j * m < n * m"
  by (metis (no_types, lifting) add.commute add_less_cancel_right less_le_trans mult_Suc mult_le_mono1 Suc_leI)

lemma mixed_radix_inj:
  "(i::nat) < m \<Longrightarrow> i' < m \<Longrightarrow> i + j * m = i' + j' * m \<longleftrightarrow> i = i' \<and> j = j'"
  by (metis add.commute add.right_neutral div_less div_mult_self3 mod_less mod_mult_self3 gr_implies_not0)

lemma flat_pos_alt: "flat_pos d p = dim_x p + (dim_y p + dim_z p * dim_y d) * dim_x d"
  by (simp add: flat_pos_def algebra_simps)

definition dim_positions :: "dim3 \<Rightarrow> dim3 list" where
  "dim_positions d = [\<lparr>dim_x = x, dim_y = y, dim_z = z\<rparr>. z \<leftarrow> [0..<dim_z d], y \<leftarrow> [0..<dim_y d], x \<leftarrow> [0..<dim_x d]]"

definition all_threads :: "dim3 \<Rightarrow> dim3 \<Rightarrow> thread_pos list" where
  "all_threads g b = [\<lparr>threadIdx = q, blockDim = b, blockIdx = p, gridDim = g\<rparr>. p \<leftarrow> dim_positions g, q \<leftarrow> dim_positions b]"

lemma dim3_triple: "p = \<lparr>dim_x = dim_x p, dim_y = dim_y p, dim_z = dim_z p\<rparr>"
  by simp

lemma set_dim_positions: "set (dim_positions d) = {p. in_dim d p}"
proof (intro set_eqI iffI)
  fix p assume "p \<in> {p. in_dim d p}"
  then show "p \<in> set (dim_positions d)"
    by (subst dim3_triple [of p]) (force simp: dim_positions_def in_dim_def)
qed (auto simp: dim_positions_def in_dim_def)

lemma set_all_threads: "set (all_threads g b) = grid_threads g b"
proof (intro set_eqI iffI)
  fix t assume "t \<in> grid_threads g b"
  moreover have "t = \<lparr>threadIdx = threadIdx t, blockDim = blockDim t, blockIdx = blockIdx t, gridDim = gridDim t\<rparr>"
    by simp
  ultimately show "t \<in> set (all_threads g b)"
    unfolding all_threads_def grid_threads_def by (force simp: set_dim_positions)
qed (auto simp: all_threads_def grid_threads_def set_dim_positions)

lemma flat_pos_less: "in_dim d p \<Longrightarrow> flat_pos d p < dim_size d"
  unfolding flat_pos_alt dim_size_def in_dim_def
  using mixed_radix_less [of "dim_x p" "dim_x d" "dim_y p + dim_z p * dim_y d" "dim_z d * dim_y d"]
    mixed_radix_less [of "dim_y p" "dim_y d" "dim_z p" "dim_z d"] by (simp add: ac_simps)

lemma flat_pos_inj: "in_dim d p \<Longrightarrow> in_dim d q \<Longrightarrow> flat_pos d p = flat_pos d q \<Longrightarrow> p = q"
  by (auto simp: flat_pos_alt in_dim_def mixed_radix_inj)

lemma flat_pos_surj:
  assumes "k < dim_size d"
  obtains p where "in_dim d p" "flat_pos d p = k"
proof
  let ?x = "dim_x d" and ?y = "dim_y d"
  let ?p = "\<lparr>dim_x = k mod ?x, dim_y = k div ?x mod ?y, dim_z = k div ?x div ?y\<rparr>"
  have pos: "0 < ?x" "0 < ?y" using assms by (auto simp: dim_size_def intro!: Nat.gr0I)
  have "k div ?x div ?y < dim_z d"
    using assms pos by (simp add: dim_size_def div_mult2_eq [symmetric] less_mult_imp_div_less ac_simps)
  then show "in_dim d ?p" using pos by (simp add: in_dim_def)
  show "flat_pos d ?p = k" by (simp add: flat_pos_alt)
qed

lemma id_flat:
  assumes "t \<in> grid_threads g b"
  shows "id_block_size t = dim_size b" "id_grid_size t = dim_size g"
    "id_block_id t = flat_pos g (blockIdx t)" "id_local_thread_id t = flat_pos b (threadIdx t)"
    "id_block_id t < dim_size g" "id_local_thread_id t < dim_size b"
  using assms flat_pos_less [of g "blockIdx t"] flat_pos_less [of b "threadIdx t"]
  by (auto simp: grid_threads_def id_block_size_def id_grid_size_def id_block_id_def id_local_thread_id_def
      dim_size_def flat_pos_def)

lemma thread_eqI:
  assumes "t \<in> grid_threads g b" "u \<in> grid_threads g b"
    "id_block_id t = id_block_id u" "id_local_thread_id t = id_local_thread_id u"
  shows "t = u"
proof -
  have "threadIdx t = threadIdx u" "blockIdx t = blockIdx u"
    using assms id_flat [OF assms(1)] id_flat [OF assms(2)] flat_pos_inj
    by (auto simp: grid_threads_def)
  then show ?thesis using assms by (simp add: grid_threads_def)
qed

lemma thread_exists:
  assumes "i < dim_size g" "j < dim_size b"
  obtains t where "t \<in> grid_threads g b" "id_block_id t = i" "id_local_thread_id t = j"
proof -
  obtain p where p: "in_dim g p" "flat_pos g p = i" using flat_pos_surj [OF assms(1)] .
  obtain q where q: "in_dim b q" "flat_pos b q = j" using flat_pos_surj [OF assms(2)] .
  let ?t = "\<lparr>threadIdx = q, blockDim = b, blockIdx = p, gridDim = g\<rparr>"
  have t: "?t \<in> grid_threads g b" using p q by (simp add: grid_threads_def)
  show thesis using that [OF t] p q id_flat(3,4) [OF t] by simp
qed

lemma global_id_less:
  "t \<in> grid_threads g b \<Longrightarrow> id_global_thread_id t < dim_size g * dim_size b"
  using mixed_radix_less [OF id_flat(6) id_flat(5)] by (simp add: id_global_thread_id_def id_flat(1))

lemma global_id_ex1:
  assumes "k < dim_size g * dim_size b"
  shows "\<exists>!t. t \<in> grid_threads g b \<and> id_global_thread_id t = k"
proof -
  have pos: "0 < dim_size b" using assms by (auto intro!: Nat.gr0I)
  have "k div dim_size b < dim_size g" using assms by (simp add: less_mult_imp_div_less)
  moreover have "k mod dim_size b < dim_size b" using pos by simp
  ultimately obtain t where t: "t \<in> grid_threads g b" "id_block_id t = k div dim_size b"
    "id_local_thread_id t = k mod dim_size b" using thread_exists by blast
  then have "id_global_thread_id t = k" by (simp add: id_global_thread_id_def id_flat(1) [OF t(1)])
  moreover have "u = t" if u: "u \<in> grid_threads g b" "id_global_thread_id u = k" for u
  proof (rule thread_eqI [OF u(1) t(1)])
    have "id_local_thread_id u < dim_size b" using id_flat(6) [OF u(1)] by simp
    then show "id_block_id u = id_block_id t" "id_local_thread_id u = id_local_thread_id t"
      using u t by (auto simp: id_global_thread_id_def id_flat(1) [OF u(1)])
  qed
  ultimately show ?thesis using t by blast
qed

section \<open>The index loops\<close>

lemma idx_loop_step:
  assumes "c i" "body i a = Inr a'" "idx_next s t i = Inr j"
  shows "idx_loop c body s t i a = idx_loop c body s t j a'"
  using assms unfolding idx_loop_def by (subst while_option_unfold) simp

lemma idx_loop_done: "\<not> c i \<Longrightarrow> idx_loop c body s t i a = Some (Inr a)"
  unfolding idx_loop_def by (subst while_option_unfold) simp

abbreviation update_at :: "(nat \<Rightarrow> 'a) \<Rightarrow> nat list \<Rightarrow> 'a list \<Rightarrow> 'a list" where
  "update_at f is a \<equiv> fold (\<lambda>i a. a[i := f i]) is a"

lemma length_update_at [simp]: "length (update_at f is a) = length a"
  by (induction "is" arbitrary: a) auto

lemma nth_update_at:
  "k < length a \<Longrightarrow> update_at f is a ! k = (if k \<in> set is then f k else a ! k)"
  by (induction "is" arbitrary: a) (auto simp: nth_list_update)

lemma idx_loop_update:
  assumes nxt: "\<And>i. idx_next s t i = Inr (i + d)" "0 < d"
    and c: "\<And>i. c i \<longleftrightarrow> i < m"
    and body: "\<And>i a. i < m \<Longrightarrow> length a = l \<Longrightarrow> body i a = Inr (a[i := f i])"
  shows "length a = l \<Longrightarrow> idx_loop c body s t i a = Some (Inr (update_at f (strided i m d) a))"
proof (induction "m - i" arbitrary: i a rule: less_induct)
  case less
  show ?case
  proof (cases "i < m")
    case True
    then have "idx_loop c body s t i a = idx_loop c body s t (i + d) (a[i := f i])"
      using nxt c body less.prems by (intro idx_loop_step) auto
    then show ?thesis using True nxt less by (simp add: strided_unfold)
  qed (simp add: idx_loop_done c)
qed

text \<open>First index and stride of a thread under a range strategy.\<close>

fun first_of :: "index_strategy_enum \<Rightarrow> nat \<Rightarrow> thread_pos \<Rightarrow> nat" where
  "first_of TDBD n t = id_global_thread_id t"
| "first_of TDBC n t = tdbc_tile_offset n t + id_local_thread_id t"
| "first_of TDBP n t = id_local_thread_id t"
| "first_of _ n t = 0"

fun stride_of :: "index_strategy_enum \<Rightarrow> dim3 \<Rightarrow> dim3 \<Rightarrow> nat" where
  "stride_of TDBD g b = dim_size g * dim_size b"
| "stride_of TDBC g b = dim_size b"
| "stride_of TDBP g b = dim_size b"
| "stride_of _ g b = 1"

abbreviation range_strategy :: "index_strategy_enum \<Rightarrow> bool" where
  "range_strategy e \<equiv> e \<in> {TCBA, TDBD, TDBC, TDBP}"

lemma idx_start_first:
  "range_strategy e \<Longrightarrow> 0 < n \<Longrightarrow> idx_start (new_index_strategy e n t) t = Inr (first_of e n t)"
  by (auto simp: new_index_strategy_def)

lemma idx_next_stride:
  "range_strategy e \<Longrightarrow> 0 < n \<Longrightarrow> t \<in> grid_threads g b
   \<Longrightarrow> idx_next (new_index_strategy e n t) t i = Inr (i + stride_of e g b)"
  by (auto simp: new_index_strategy_def id_flat)

lemma tdbc_tile_share:
  assumes "t \<in> grid_threads g b"
  shows "tdbc_tile_offset n t = share_off n (dim_size g) (id_block_id t)"
    "tdbc_tile_offset n t + tdbc_tile_num_elems n t = share_off n (dim_size g) (Suc (id_block_id t))"
  using id_flat [OF assms] by (auto simp: tdbc_tile_offset_def tdbc_tile_num_elems_def share_off_def min_def Let_def)

lemma range_covered:
  assumes e: "range_strategy e" and pos: "0 < dim_size g" "0 < dim_size b" and k: "s \<le> k" "k < m"
  obtains t where "t \<in> grid_threads g b" "k \<in> set (strided (s + first_of e n t) m (stride_of e g b))"
proof -
  let ?d = "stride_of e g b"
  have d: "0 < ?d" using e pos by auto
  have "\<exists>t\<in>grid_threads g b. first_of e n t = (k - s) mod ?d"
  proof (cases "e = TDBD")
    case True
    have "(k - s) mod (dim_size g * dim_size b) < dim_size g * dim_size b" using pos by simp
    then show ?thesis using global_id_ex1 True by fastforce
  next
    case False
    have "(k - s) mod dim_size b < dim_size b" using pos by simp
    then obtain t where "t \<in> grid_threads g b" "id_block_id t = 0" "id_local_thread_id t = (k - s) mod dim_size b"
      using thread_exists pos(1) by blast
    then show ?thesis using e False by (auto simp: tdbc_tile_share intro!: bexI [of _ t])
  qed
  then obtain t where t: "t \<in> grid_threads g b" "first_of e n t = (k - s) mod ?d" by blast
  have "s + (k - s) mod ?d \<le> k" using mod_less_eq_dividend [of "k - s" ?d] k by linarith
  moreover have "k mod ?d = (s + (k - s) mod ?d) mod ?d" using k by (simp add: mod_add_right_eq)
  ultimately show thesis using that [OF t(1)] d k t by (simp add: set_strided)
qed

lemma run_threads_update:
  assumes "\<And>t a. t \<in> set ts \<Longrightarrow> length a = l \<Longrightarrow> F t a = Some (Inr (update_at f (I t) a))" "length a = l"
  shows "run_threads F ts a = Some (Inr (update_at f (concat (map I ts)) a))"
  using assms by (induction ts arbitrary: a) auto

lemma update_at_range:
  assumes "s + len \<le> length a" "set is = {s..<s + len}"
  shows "update_at f is a = take s a @ map f [s..<s + len] @ drop (s + len) a"
  using assms by (intro nth_equalityI) (auto simp: nth_update_at nth_append)

lemma upt_add_Suc: "[s..<Suc (s + len)] = s # [Suc s..<Suc (s + len)]"
  by (simp add: upt_conv_Cons del: upt_Suc)

lemma fill_from_eq: "s + len \<le> length a \<Longrightarrow> fill_from s len v a = Inr (update_at (\<lambda>_. v) [s..<s + len] a)"
proof (induction len arbitrary: s a)
  case (Suc len)
  then show ?case by (simp add: array_set_def upt_add_Suc del: upt_Suc)
qed simp

lemma copy_from_eq:
  "s + len \<le> length a \<Longrightarrow> s + len \<le> length src
   \<Longrightarrow> copy_from src s len a = Inr (update_at (\<lambda>i. src ! i) [s..<s + len] a)"
proof (induction len arbitrary: s a)
  case (Suc len)
  then show ?case by (simp add: array_set_def array_get_def upt_add_Suc del: upt_Suc)
qed simp

lemma fill_device_eq:
  assumes "range_strategy e" "0 < n" "t \<in> grid_threads g b" "0 < stride_of e g b" "s + len \<le> length a"
  shows "fill_device (new_index_strategy e n t) v s len t a
     = Some (Inr (update_at (\<lambda>_. v) (strided (s + first_of e n t) (s + len) (stride_of e g b)) a))"
  unfolding fill_device_def idx_start_first [OF assms(1,2)]
  using assms by (auto simp: array_set_def intro!: idx_loop_update [OF idx_next_stride])

lemma copy_device_eq:
  assumes "range_strategy e" "0 < n" "t \<in> grid_threads g b" "0 < stride_of e g b" "s + len \<le> length a"
    "s + len \<le> length src"
  shows "copy_device (new_index_strategy e n t) src s len t a
     = Some (Inr (update_at (\<lambda>i. src ! i) (strided (s + first_of e n t) (s + len) (stride_of e g b)) a))"
  unfolding copy_device_def idx_start_first [OF assms(1,2)]
  using assms by (auto simp: array_set_def array_get_def intro!: idx_loop_update [OF idx_next_stride])

lemma grid_indices:
  assumes "range_strategy e" "0 < dim_size g" "0 < dim_size b" "set ts = grid_threads g b"
  shows "set (concat (map (\<lambda>t. strided (s + first_of e n t) m (stride_of e g b)) ts)) = {s..<m}"
proof (intro equalityI subsetI)
  fix k assume "k \<in> {s..<m}"
  then obtain t where "t \<in> grid_threads g b" "k \<in> set (strided (s + first_of e n t) m (stride_of e g b))"
    using range_covered [OF assms(1-3), of s k m n] by auto
  then show "k \<in> set (concat (map (\<lambda>t. strided (s + first_of e n t) m (stride_of e g b)) ts))"
    using assms(4) by auto
next
  have "0 < stride_of e g b" using assms by auto
  then show "k \<in> {s..<m}" if "k \<in> set (concat (map (\<lambda>t. strided (s + first_of e n t) m (stride_of e g b)) ts))" for k
    using that by (auto simp: set_strided)
qed

text \<open>The indices of the loop \<open>for (i = start(); i < end(); i = next(i))\<close>.\<close>

inductive visits :: "index_strategy \<Rightarrow> thread_pos \<Rightarrow> nat \<Rightarrow> bool" for s t where
  visits_start: "idx_start s t = Inr i \<Longrightarrow> idx_end s = Inr e \<Longrightarrow> i < e \<Longrightarrow> visits s t i"
| visits_next: "visits s t i \<Longrightarrow> idx_next s t i = Inr j \<Longrightarrow> idx_end s = Inr e \<Longrightarrow> j < e \<Longrightarrow> visits s t j"

lemma visits_iff:
  assumes "idx_start s t = Inr o1" "idx_end s = Inr e" "\<And>i. idx_next s t i = Inr (i + d)" "0 < d"
  shows "visits s t k \<longleftrightarrow> o1 \<le> k \<and> k < e \<and> k mod d = o1 mod d"
proof
  assume "visits s t k"
  then show "o1 \<le> k \<and> k < e \<and> k mod d = o1 mod d"
    using assms by (induction rule: visits.induct) auto
next
  have "visits s t (o1 + q * d)" if "o1 + q * d < e" for q
    using that
  proof (induction q)
    case 0 then show ?case using visits_start [OF assms(1,2)] by simp
  next
    case (Suc q)
    then have "visits s t (o1 + q * d)" by simp
    from visits_next [OF this assms(3) assms(2)] show ?case using Suc.prems by (simp add: ac_simps)
  qed
  moreover assume *: "o1 \<le> k \<and> k < e \<and> k mod d = o1 mod d"
  then obtain q where "k = o1 + q * d"
    by (metis dvd_def le_add_diff_inverse mod_eq_dvd_iff_nat mult.commute)
  ultimately show "visits s t k" using * by blast
qed

abbreviation visited_by :: "index_strategy_enum \<Rightarrow> nat \<Rightarrow> thread_pos \<Rightarrow> nat \<Rightarrow> bool" where
  "visited_by e n t k \<equiv> visits (new_index_strategy e n t) t k"

lemma visits_range_strategy:
  assumes "visited_by e n t k"
  shows "range_strategy e"
proof -
  have "\<exists>m. idx_end (new_index_strategy e n t) = Inr m" using assms by cases auto
  then show ?thesis by (cases e) (auto simp: new_index_strategy_def)
qed

lemma visited_TCBA: "0 < n \<Longrightarrow> t \<in> grid_threads g b \<Longrightarrow> visited_by TCBA n t k \<longleftrightarrow> k < n"
  by (subst visits_iff [where d = 1 and e = n and ?o1.0 = 0]) (auto simp: new_index_strategy_def)

lemma visited_TDBD:
  assumes "0 < n" "t \<in> grid_threads g b"
  shows "visited_by TDBD n t k \<longleftrightarrow> k < n \<and> id_global_thread_id t = k mod (dim_size g * dim_size b)"
proof -
  let ?d = "dim_size g * dim_size b"
  have lt: "id_global_thread_id t < ?d" by (rule global_id_less [OF assms(2)])
  have "visited_by TDBD n t k \<longleftrightarrow> id_global_thread_id t \<le> k \<and> k < n \<and> k mod ?d = id_global_thread_id t mod ?d"
    using assms lt by (intro visits_iff) (auto simp: new_index_strategy_def id_flat intro!: Nat.gr0I)
  then show ?thesis using lt mod_less_eq_dividend [of k ?d] by auto
qed

lemma visited_TDBP:
  assumes "0 < n" "t \<in> grid_threads g b"
  shows "visited_by TDBP n t k \<longleftrightarrow> k < n \<and> id_local_thread_id t = k mod dim_size b"
proof -
  have lt: "id_local_thread_id t < dim_size b" using id_flat(6) [OF assms(2)] .
  have "visited_by TDBP n t k \<longleftrightarrow> id_local_thread_id t \<le> k \<and> k < n
          \<and> k mod dim_size b = id_local_thread_id t mod dim_size b"
    using assms lt by (intro visits_iff) (auto simp: new_index_strategy_def id_flat(1))
  then show ?thesis using lt mod_less_eq_dividend [of k "dim_size b"] by auto
qed

lemma shifted_residue:
  fixes l d k s :: nat
  assumes "l < d"
  shows "s + l \<le> k \<and> k mod d = (s + l) mod d \<longleftrightarrow> s \<le> k \<and> l = (k - s) mod d"
proof (cases "s \<le> k")
  case True
  have "k mod d = (s + l) mod d \<longleftrightarrow> (s + (k - s)) mod d = (s + l) mod d" using True by simp
  also have "\<dots> \<longleftrightarrow> (k - s) mod d = l mod d"
    unfolding of_nat_eq_iff [where 'a = int, symmetric] zmod_int mod_eq_dvd_iff by simp
  finally have "k mod d = (s + l) mod d \<longleftrightarrow> l = (k - s) mod d" using assms by auto
  moreover have "s + (k - s) mod d \<le> k" using True mod_less_eq_dividend [of "k - s" d] by linarith
  ultimately show ?thesis using True by blast
qed auto

lemma visited_TDBC:
  assumes "0 < n" "t \<in> grid_threads g b"
  defines "off \<equiv> share_off n (dim_size g)"
  shows "visited_by TDBC n t k \<longleftrightarrow> off (id_block_id t) \<le> k \<and> k < off (Suc (id_block_id t))
          \<and> id_local_thread_id t = (k - off (id_block_id t)) mod dim_size b"
proof -
  have lt: "id_local_thread_id t < dim_size b" using id_flat(6) [OF assms(2)] .
  have "visited_by TDBC n t k \<longleftrightarrow> off (id_block_id t) + id_local_thread_id t \<le> k
      \<and> k < off (Suc (id_block_id t)) \<and> k mod dim_size b = (off (id_block_id t) + id_local_thread_id t) mod dim_size b"
    using assms lt tdbc_tile_share [OF assms(2)]
    by (intro visits_iff) (auto simp: new_index_strategy_def id_flat(1))
  then show ?thesis using shifted_residue [OF lt] by blast
qed

lemma TDBC_owner:
  assumes "0 < n" "0 < dim_size g" "0 < dim_size b" "k < n"
  shows "\<exists>!t. t \<in> grid_threads g b \<and> visited_by TDBC n t k"
proof -
  obtain w where w: "w < dim_size g" "share_off n (dim_size g) w \<le> k" "k < share_off n (dim_size g) (Suc w)"
    using share_owner [OF assms(2,4)] by blast
  have "(k - share_off n (dim_size g) w) mod dim_size b < dim_size b" using assms by simp
  then obtain t where t: "t \<in> grid_threads g b" "id_block_id t = w"
    "id_local_thread_id t = (k - share_off n (dim_size g) w) mod dim_size b"
    using thread_exists [OF w(1)] by blast
  have vis: "visited_by TDBC n t k"
    unfolding visited_TDBC [OF assms(1) t(1)] t(2) using t(3) w by blast
  have uniq: "u = t" if u: "u \<in> grid_threads g b" "visited_by TDBC n u k" for u
  proof (rule thread_eqI [OF u(1) t(1)])
    note v = u(2) [unfolded visited_TDBC [OF assms(1) u(1)]]
    then show "id_block_id u = id_block_id t"
      using boundary_unique [OF mono_share_off w(2,3)] t(2) by simp
    then show "id_local_thread_id u = id_local_thread_id t" using v t(2,3) by simp
  qed
  show ?thesis using t(1) vis uniq by (intro ex1I [of _ t]) blast+
qed

text \<open>The loops over a container of \<open>n\<close> elements share it as the strategies promise.
  Under \<open>TDBD\<close> and \<open>TDBC\<close> every index is visited by exactly one thread of the grid;
  under \<open>TDBP\<close> by exactly one thread of every block; under \<open>TCBA\<close> by every thread.
  No thread leaves the container.\<close>

theorem index_strategies_partition:
  assumes "0 < n" "0 < dim_size g" "0 < dim_size b"
  shows "(\<forall>k<n. \<exists>!t. t \<in> grid_threads g b \<and> visited_by TDBD n t k)
       \<and> (\<forall>k<n. \<exists>!t. t \<in> grid_threads g b \<and> visited_by TDBC n t k)
       \<and> (\<forall>k<n. \<forall>w<dim_size g. \<exists>!t. t \<in> grid_threads g b \<and> id_block_id t = w \<and> visited_by TDBP n t k)
       \<and> (\<forall>k<n. \<forall>t\<in>grid_threads g b. visited_by TCBA n t k)
       \<and> (\<forall>e k. \<forall>t\<in>grid_threads g b. visited_by e n t k \<longrightarrow> k < n)"
proof (intro conjI allI impI ballI)
  fix k assume k: "k < n"
  have "k mod (dim_size g * dim_size b) < dim_size g * dim_size b" using assms by simp
  then show "\<exists>!t. t \<in> grid_threads g b \<and> visited_by TDBD n t k"
    using global_id_ex1 [of "k mod (dim_size g * dim_size b)" g b] k
    by (simp add: visited_TDBD [OF assms(1)] cong: conj_cong)
  show "\<exists>!t. t \<in> grid_threads g b \<and> visited_by TDBC n t k" using TDBC_owner assms k by blast
  show "visited_by TCBA n t k" if "t \<in> grid_threads g b" for t using visited_TCBA that assms k by blast
  fix w assume w: "w < dim_size g"
  obtain t where t: "t \<in> grid_threads g b" "id_block_id t = w" "id_local_thread_id t = k mod dim_size b"
    using thread_exists [OF w] assms(3) mod_less_divisor by blast
  then show "\<exists>!t. t \<in> grid_threads g b \<and> id_block_id t = w \<and> visited_by TDBP n t k"
    using k by (intro ex1I [of _ t]) (auto simp: visited_TDBP [OF assms(1)] intro: thread_eqI)
next
  fix e k t assume t: "t \<in> grid_threads g b" "visited_by e n t k"
  have "share_off n (dim_size g) (Suc (id_block_id t)) \<le> n"
    using monoD [OF mono_share_off, of "Suc (id_block_id t)" "dim_size g" n "dim_size g"]
      id_flat(5) [OF t(1)] assms(2) by simp
  note top = this
  consider "e = TCBA" | "e = TDBD" | "e = TDBP" | "e = TDBC" using visits_range_strategy [OF t(2)] by blast
  then show "k < n"
  proof cases
    case 4
    have "k < share_off n (dim_size g) (Suc (id_block_id t))"
      using t(2) [unfolded 4 visited_TDBC [OF assms(1) t(1)]] by blast
    then show ?thesis using top by linarith
  qed (use t visited_TCBA [OF assms(1) t(1)] visited_TDBD [OF assms(1) t(1)]
      visited_TDBP [OF assms(1) t(1)] in blast)+
qed

theorem index_strategies_partition_witness:
  "\<exists>!t. t \<in> grid_threads \<lparr>dim_x = 2, dim_y = 1, dim_z = 1\<rparr> \<lparr>dim_x = 3, dim_y = 1, dim_z = 1\<rparr>
        \<and> visited_by TDBC 10 t 7"
  using index_strategies_partition [of 10 "\<lparr>dim_x = 2, dim_y = 1, dim_z = 1\<rparr>"
      "\<lparr>dim_x = 3, dim_y = 1, dim_z = 1\<rparr>"] by (simp add: dim_size_def)

text \<open>A device \<open>fill\<close> or \<open>copy\<close> of an array that every thread of the grid executes
  ends, and leaves the array as the host \<open>fill\<close> or \<open>copy\<close> does: for each range
  strategy and each order of the threads.\<close>

theorem device_fill_copy_match_host:
  assumes e: "e \<in> {TCBA, TDBD, TDBC, TDBP}" and pos: "0 < n" "0 < dim_size g" "0 < dim_size b"
    and ts: "set ts = grid_threads g b" and len: "s + len \<le> length a" "s + len \<le> length src"
  shows "run_threads (\<lambda>t. fill_device (new_index_strategy e n t) v s len t) ts a = Some (fill_host v s len a)
       \<and> run_threads (\<lambda>t. copy_device (new_index_strategy e n t) src s len t) ts a = Some (copy_host src s len a)"
proof -
  have d: "0 < stride_of e g b" using e pos by auto
  let ?I = "\<lambda>t. strided (s + first_of e n t) (s + len) (stride_of e g b)"
  have I: "set (concat (map ?I ts)) = {s..<s + len}" by (rule grid_indices [OF e pos(2,3) ts])
  have "run_threads (\<lambda>t. fill_device (new_index_strategy e n t) v s len t) ts a
      = Some (Inr (update_at (\<lambda>_. v) (concat (map ?I ts)) a))"
    using ts len by (intro run_threads_update [where l = "length a"] fill_device_eq [OF e pos(1) _ d]) auto
  moreover have "run_threads (\<lambda>t. copy_device (new_index_strategy e n t) src s len t) ts a
      = Some (Inr (update_at (\<lambda>i. src ! i) (concat (map ?I ts)) a))"
    using ts len by (intro run_threads_update [where l = "length a"] copy_device_eq [OF e pos(1) _ d]) auto
  ultimately show ?thesis
    using len update_at_range [OF len(1) I] update_at_range [OF len(1), of "[s..<s + len]"]
    by (simp add: fill_host_def copy_host_def fill_from_eq copy_from_eq)
qed

theorem device_fill_copy_match_host_witness:
  "run_threads (\<lambda>t. fill_device (new_index_strategy TDBC 5 t) (9::int) 1 3 t)
     (all_threads \<lparr>dim_x = 2, dim_y = 1, dim_z = 1\<rparr> \<lparr>dim_x = 1, dim_y = 2, dim_z = 1\<rparr>) [0, 1, 2, 3, 4]
   = Some (Inr [0, 9, 9, 9, 4])"
  using conjunct1 [OF device_fill_copy_match_host [of TDBC 5 "\<lparr>dim_x = 2, dim_y = 1, dim_z = 1\<rparr>"
      "\<lparr>dim_x = 1, dim_y = 2, dim_z = 1\<rparr>" _ 1 3 "[0, 1, 2, 3, 4]" "[0, 0, 0, 0, 0]" 9, OF _ _ _ _ set_all_threads]]
  by (simp add: dim_size_def fill_host_def array_set_def numeral_3_eq_3)

section \<open>Private matrix cells\<close>

text \<open>Under \<open>Matrix_Private\<close> the threads of a grid own the cells of row 0, one each.\<close>

lemma matrix_private_cells:
  assumes "ise (dev_idx m) = MP" "0 < number_rows m" "dim_size g * dim_size b \<le> number_columns m"
    "length (flat_c_array m) = number_rows m * number_columns m" "distinct (flat_c_array m)"
    "t \<in> grid_threads g b" "u \<in> grid_threads g b" "t \<noteq> u"
  shows "\<exists>x y. access_own m t = Inr x \<and> access_own m u = Inr y \<and> x \<noteq> y"
proof -
  have lt: "id_global_thread_id t < number_columns m" "id_global_thread_id u < number_columns m"
    using global_id_less assms by (meson order.strict_trans2)+
  have ne: "id_global_thread_id t \<noteq> id_global_thread_id u"
    using global_id_ex1 [OF global_id_less [OF assms(6)]] assms(6-8) by metis
  have "number_columns m \<le> length (flat_c_array m)" using assms(2,4) by simp
  then show ?thesis
    using assms(1,2,5) lt ne by (simp add: access_own_def nth_eq_iff_index_eq)
qed

end
