(* ===== verification/Regions.thy ===== *)
theory Regions
  imports Prelude "HOL-Library.Multiset"
begin

text \<open>
  Registration of user memory.

  \<^item> \<open>Backend::buffer_register\<close>, \<open>buffer_unregister\<close> and \<open>buffer_unregister_all\<close> of
    \<open>backend_bc.cpp\<close>: an ordered map from start address to length;
  \<^item> the symmetric registrations of \<open>backend_bc.cpp\<close> and \<open>ipc/backend_ipc.cpp\<close>: the
    alias and origin maps, the table of regions the device scans and its host records;
  \<^item> \<open>IpcOnImpl::ipcPeerPtr\<close> of \<open>ipc_policy.hpp\<close>, which translates a symmetric
    address to the mapping of a peer.

  A \<open>std::map\<close> is the list of its entries in key order. Addresses are 64-bit
  words. What the driver, the allocator and the other PEs answer is an argument of
  the operations; a failing driver call inside \<open>CHECK_HIP\<close> ends the process and is not
  a step of the model.
\<close>

section \<open>Ordered maps\<close>

fun map_put :: "u64 \<Rightarrow> 'v \<Rightarrow> (u64 \<times> 'v) list \<Rightarrow> (u64 \<times> 'v) list" where
  "map_put k v [] = [(k, v)]"
| "map_put k v ((k', v') # m) =
     (if k < k' then (k, v) # (k', v') # m
      else if k = k' then (k, v) # m
      else (k', v') # map_put k v m)"

definition map_erase :: "u64 \<Rightarrow> (u64 \<times> 'v) list \<Rightarrow> (u64 \<times> 'v) list" where
  "map_erase k m = filter (\<lambda>(k', _). k' \<noteq> k) m"

text \<open>The entries before and from \<open>lower_bound(k)\<close>, and the same for \<open>upper_bound(k)\<close>.\<close>

definition before_lower :: "u64 \<Rightarrow> (u64 \<times> 'v) list \<Rightarrow> (u64 \<times> 'v) list" where
  "before_lower k m = takeWhile (\<lambda>(s, _). s < k) m"

definition from_lower :: "u64 \<Rightarrow> (u64 \<times> 'v) list \<Rightarrow> (u64 \<times> 'v) list" where
  "from_lower k m = dropWhile (\<lambda>(s, _). s < k) m"

definition before_upper :: "u64 \<Rightarrow> (u64 \<times> 'v) list \<Rightarrow> (u64 \<times> 'v) list" where
  "before_upper k m = takeWhile (\<lambda>(s, _). s \<le> k) m"

section \<open>User buffers\<close>

type_synonym region_map = "(u64 \<times> u64) list"

definition region_overlaps :: "u64 \<Rightarrow> u64 \<Rightarrow> region_map \<Rightarrow> bool" where
  "region_overlaps start end1 m \<longleftrightarrow>
     (case from_lower start m of [] \<Rightarrow> False | (s, _) # _ \<Rightarrow> s < end1)
     \<or> (if before_lower start m = [] then False
        else (let (s, l) = last (before_lower start m) in s + l > start))"

definition buffer_register :: "u64 \<Rightarrow> u64 \<Rightarrow> region_map \<Rightarrow> bool \<times> region_map" where
  "buffer_register addr len m =
     (if addr = 0 then (False, m)
      else if len = 0 then (False, m)
      else if addr > - 1 - len then (False, m)
      else if region_overlaps addr (addr + len) m then (False, m)
      else (True, map_put addr len m))"

definition buffer_unregister :: "u64 \<Rightarrow> region_map \<Rightarrow> bool \<times> region_map" where
  "buffer_unregister addr m =
     (if addr = 0 then (False, m)
      else if before_upper addr m = [] then (False, m)
      else (let (s, l) = last (before_upper addr m)
            in if addr < s + l then (True, map_erase s m) else (False, m)))"

definition buffer_unregister_all :: "region_map \<Rightarrow> region_map" where
  "buffer_unregister_all m = []"

section \<open>Region maps are disjoint intervals in order\<close>

abbreviation region_end :: "u64 \<times> u64 \<Rightarrow> nat" where
  "region_end r \<equiv> unat (fst r) + unat (snd r)"

definition region_ok :: "u64 \<times> u64 \<Rightarrow> bool" where
  "region_ok r \<longleftrightarrow> snd r \<noteq> 0 \<and> region_end r < 2 ^ 64"

definition regions_ok :: "region_map \<Rightarrow> bool" where
  "regions_ok m \<longleftrightarrow> sorted_wrt (\<lambda>p q. region_end p \<le> unat (fst q)) m \<and> (\<forall>r\<in>set m. region_ok r)"

definition region_bytes :: "u64 \<times> u64 \<Rightarrow> nat set" where
  "region_bytes r = {unat (fst r)..<region_end r}"

lemma region_ok_pos: "region_ok r \<Longrightarrow> unat (fst r) < region_end r"
  by (simp add: region_ok_def unat_gt_0)

lemma unat_add_region: "region_ok r \<Longrightarrow> unat (fst r + snd r) = region_end r"
  by (simp add: region_ok_def unat_word_ariths)

lemma not_overflow_iff: "(addr :: u64) > - 1 - len \<longleftrightarrow> \<not> unat addr + unat len < 2 ^ 64"
proof -
  have "unat (- 1 - len :: u64) = 2 ^ 64 - 1 - unat len"
    by (simp add: unat_sub unsigned_minus_1_eq_mask mask_eq_exp_minus_1)
  then show ?thesis
    using unsigned_less [where 'a = nat and w = len] unsigned_less [where 'a = nat and w = addr]
    by (auto simp: word_less_nat_alt)
qed

lemma disjoint_intervals:
  fixes a b c d :: nat
  shows "a < b \<Longrightarrow> c < d \<Longrightarrow> {a..<b} \<inter> {c..<d} = {} \<longleftrightarrow> b \<le> c \<or> d \<le> a"
  by (auto simp: set_eq_iff not_le) (metis atLeastLessThan_iff leD le_less_linear nat_le_linear)

text \<open>The map splits at an address into the regions that start before it and the others.\<close>

lemma map_split: "m = before_lower k m @ from_lower k m"
  by (simp add: before_lower_def from_lower_def)

lemma before_lower_less: "r \<in> set (before_lower k m) \<Longrightarrow> fst r < k"
  by (auto simp: before_lower_def dest: set_takeWhileD)

lemma regions_ok_append:
  "regions_ok (a @ b) \<longleftrightarrow> regions_ok a \<and> regions_ok b \<and> (\<forall>p\<in>set a. \<forall>q\<in>set b. region_end p \<le> unat (fst q))"
  by (auto simp: regions_ok_def sorted_wrt_append)

lemma regions_ok_Cons:
  "regions_ok (r # m) \<longleftrightarrow> region_ok r \<and> regions_ok m \<and> (\<forall>q\<in>set m. region_end r \<le> unat (fst q))"
  by (auto simp: regions_ok_def)

lemma from_lower_ge:
  assumes "regions_ok m" "r \<in> set (from_lower k m)"
  shows "k \<le> fst r"
proof (cases "from_lower k m")
  case (Cons q qs)
  have "regions_ok (q # qs)"
    using assms(1) map_split [of m k] Cons by (metis regions_ok_append)
  moreover have "k \<le> fst q"
    using Cons hd_dropWhile [of "\<lambda>(s, _). s < k" m] by (auto simp: from_lower_def split: prod.splits)
  ultimately show ?thesis
    using assms(2) Cons region_ok_pos [of q] by (fastforce simp: regions_ok_Cons word_le_nat_alt)
qed (use assms in simp)

lemma last_region_max:
  "regions_ok m \<Longrightarrow> r \<in> set m \<Longrightarrow> region_end r \<le> region_end (last m)"
proof (induction m)
  case (Cons q m)
  show ?case
  proof (cases "m = []")
    case False
    then have "region_end q \<le> unat (fst (last m))" using Cons.prems(1) by (simp add: regions_ok_Cons)
    then have "region_end q \<le> region_end (last m)" by linarith
    then show ?thesis using Cons False by (auto simp: regions_ok_Cons)
  qed (use Cons in simp)
qed simp

lemma region_overlaps_iff:
  assumes m: "regions_ok m" and n: "region_ok (a, l)"
  shows "region_overlaps a (a + l) m \<longleftrightarrow> (\<exists>r\<in>set m. region_bytes r \<inter> region_bytes (a, l) \<noteq> {})"
proof -
  let ?A = "before_lower a m" and ?B = "from_lower a m"
  have ok: "regions_ok ?A" "regions_ok ?B" using m map_split [of m a] by (metis regions_ok_append)+
  have endl: "unat (a + l) = unat a + unat l" using unat_add_region [OF n] by simp
  have meet: "region_bytes r \<inter> region_bytes (a, l) \<noteq> {} \<longleftrightarrow> unat a < region_end r \<and> unat (fst r) < unat a + unat l"
    if "r \<in> set m" for r
    using disjoint_intervals [of "unat (fst r)" "region_end r" "unat a" "unat a + unat l"]
      region_ok_pos [OF n] region_ok_pos [of r] m that by (auto simp: region_bytes_def regions_ok_def)
  have inB: "(\<exists>r\<in>set ?B. unat a < region_end r \<and> unat (fst r) < unat a + unat l)
      \<longleftrightarrow> (case ?B of [] \<Rightarrow> False | (s, _) # _ \<Rightarrow> s < a + l)"
  proof (cases ?B)
    case (Cons q qs)
    have "a \<le> fst r \<and> unat (fst q) \<le> unat (fst r) \<and> unat (fst r) < region_end r" if "r \<in> set ?B" for r
      using from_lower_ge [OF m that] ok(2) that region_ok_pos [of q] region_ok_pos [of r]
      by (fastforce simp: Cons regions_ok_Cons regions_ok_def)
    then show ?thesis using Cons endl by (fastforce simp: word_le_nat_alt word_less_nat_alt)
  qed simp
  have inA: "(\<exists>r\<in>set ?A. unat a < region_end r \<and> unat (fst r) < unat a + unat l)
      \<longleftrightarrow> ?A \<noteq> [] \<and> a < fst (last ?A) + snd (last ?A)"
  proof (cases "?A = []")
    case False
    then have "last ?A \<in> set ?A" by simp
    then have "region_ok (last ?A)" using ok(1) by (simp add: regions_ok_def)
    then have "a < fst (last ?A) + snd (last ?A) \<longleftrightarrow> unat a < region_end (last ?A)"
      by (simp add: word_less_nat_alt unat_add_region)
    moreover have "unat (fst r) < unat a + unat l" if "r \<in> set ?A" for r
      using before_lower_less [OF that] by (simp add: word_less_nat_alt)
    ultimately show ?thesis
      using False \<open>last ?A \<in> set ?A\<close> last_region_max [OF ok(1)] by (meson order.strict_trans2)
  qed simp
  have "(\<exists>r\<in>set m. region_bytes r \<inter> region_bytes (a, l) \<noteq> {})
      \<longleftrightarrow> (\<exists>r\<in>set ?A. unat a < region_end r \<and> unat (fst r) < unat a + unat l)
        \<or> (\<exists>r\<in>set ?B. unat a < region_end r \<and> unat (fst r) < unat a + unat l)"
    using meet map_split [of m a] by (metis Un_iff set_append)
  then show ?thesis unfolding inA inB by (auto simp: region_overlaps_def case_prod_beta)
qed

lemma map_put_split:
  "\<forall>r\<in>set A. fst r < k \<Longrightarrow> \<forall>r\<in>set B. k < fst r \<Longrightarrow> map_put k v (A @ B) = A @ (k, v) # B"
proof (induction A)
  case Nil then show ?case by (cases B) auto
next
  case (Cons r A)
  then have "fst r < k" by simp
  then show ?case using Cons by (cases r) auto
qed

lemma map_put_region:
  assumes m: "regions_ok m" and n: "region_ok (a, l)" and free: "\<not> region_overlaps a (a + l) m"
  shows "regions_ok (map_put a l m) \<and> set (map_put a l m) = insert (a, l) (set m)"
proof -
  let ?A = "before_lower a m" and ?B = "from_lower a m"
  have ok: "regions_ok (?A @ ?B)" using m map_split [of m a] by simp
  have disj: "region_end r \<le> unat a \<or> unat a + unat l \<le> unat (fst r)" if "r \<in> set m" for r
    using disjoint_intervals [of "unat (fst r)" "region_end r" "unat a" "unat a + unat l"] free
      region_ok_pos [OF n] region_ok_pos [of r] m that
    by (auto simp: region_overlaps_iff [OF m n] region_bytes_def regions_ok_def)
  have sub: "set ?A \<subseteq> set m" "set ?B \<subseteq> set m" using map_split [of m a] by (metis set_append Un_upper1 Un_upper2)+
  have A: "region_end r \<le> unat a" if "r \<in> set ?A" for r
    using disj [of r] sub that before_lower_less [OF that] by (fastforce simp: word_less_nat_alt)
  have B: "unat a + unat l \<le> unat (fst r)" if "r \<in> set ?B" for r
    using disj [of r] sub that from_lower_ge [OF m that] region_ok_pos [of r] m
    by (fastforce simp: word_le_nat_alt regions_ok_def)
  have "map_put a l (?A @ ?B) = ?A @ (a, l) # ?B"
  proof (rule map_put_split)
    show "\<forall>r\<in>set ?B. a < fst r" using B region_ok_pos [OF n] by (fastforce simp: word_less_nat_alt)
  qed (use before_lower_less in blast)
  moreover have "regions_ok (?A @ (a, l) # ?B)"
    using ok n A B by (auto simp: regions_ok_append regions_ok_Cons)
  ultimately show ?thesis using map_split [of m a] by (metis Un_insert_right list.simps(15) set_append)
qed

lemma before_upper_less: "r \<in> set (before_upper k m) \<Longrightarrow> fst r \<le> k"
  by (auto simp: before_upper_def dest: set_takeWhileD)

lemma region_keys_inj:
  "regions_ok m \<Longrightarrow> r \<in> set m \<Longrightarrow> q \<in> set m \<Longrightarrow> fst r = fst q \<Longrightarrow> r = q"
proof (induction m)
  case (Cons p m)
  then show ?case using region_ok_pos [of p] by (fastforce simp: regions_ok_Cons)
qed simp

lemma regions_disjoint:
  "regions_ok m \<Longrightarrow> r \<in> set m \<Longrightarrow> q \<in> set m \<Longrightarrow> r \<noteq> q \<Longrightarrow> region_bytes r \<inter> region_bytes q = {}"
proof (induction m)
  case (Cons p m)
  then show ?case by (fastforce simp: regions_ok_Cons region_bytes_def)
qed simp

lemma regions_ok_filter: "regions_ok m \<Longrightarrow> regions_ok (filter P m)"
  by (auto simp: regions_ok_def sorted_wrt_filter)

lemma map_erase_region:
  assumes "regions_ok m" "r \<in> set m"
  shows "regions_ok (map_erase (fst r) m) \<and> set (map_erase (fst r) m) = set m - {r}"
proof -
  have "q = r" if "q \<in> set m" "fst q = fst r" for q using region_keys_inj [OF assms(1) that(1) assms(2) that(2)] .
  then have "map_erase (fst r) m = filter (\<lambda>q. q \<noteq> r) m"
    unfolding map_erase_def by (intro filter_cong) (auto simp: case_prod_beta)
  then show ?thesis using assms(1) by (auto simp: regions_ok_filter)
qed

text \<open>The last region that starts at or before an address is the only one that can hold it.\<close>

lemma before_upper_owner:
  assumes m: "regions_ok m" and r: "r \<in> set m" "unat a \<in> region_bytes r"
  shows "before_upper a m \<noteq> [] \<and> last (before_upper a m) = r"
proof -
  obtain xs ys where split: "m = xs @ r # ys" using r(1) by (auto dest: split_list)
  have xs: "fst p \<le> a" if "p \<in> set xs" for p
    using m that r(2) by (fastforce simp: split regions_ok_append word_le_nat_alt region_bytes_def)
  have ys: "a < fst q" if "q \<in> set ys" for q
    using m that r(2) by (fastforce simp: split regions_ok_append regions_ok_Cons word_less_nat_alt region_bytes_def)
  have "fst r \<le> a" using r(2) by (simp add: region_bytes_def word_le_nat_alt)
  then have "before_upper a m = xs @ [r]"
    using xs ys by (cases ys) (auto simp: before_upper_def split takeWhile_append2 case_prod_beta not_le)
  then show ?thesis by simp
qed

lemma buffer_unregister_iff:
  assumes m: "regions_ok m" and a: "a \<noteq> 0"
  shows "buffer_unregister a m =
    (if \<exists>r\<in>set m. unat a \<in> region_bytes r
     then (True, map_erase (fst (last (before_upper a m))) m) else (False, m))"
proof (cases "\<exists>r\<in>set m. unat a \<in> region_bytes r")
  case True
  then obtain r where r: "r \<in> set m" "unat a \<in> region_bytes r" by blast
  then have "region_ok r" using m by (simp add: regions_ok_def)
  then have "a < fst r + snd r" using r by (simp add: word_less_nat_alt unat_add_region region_bytes_def)
  then show ?thesis using before_upper_owner [OF m r] True a
    by (simp add: buffer_unregister_def case_prod_beta Let_def)
next
  case False
  have "\<not> a < fst q + snd q" if "before_upper a m \<noteq> []" "q = last (before_upper a m)" for q
  proof -
    have q: "q \<in> set (before_upper a m)" using that by simp
    then have "q \<in> set m" by (auto simp: before_upper_def dest: set_takeWhileD)
    then show ?thesis using False before_upper_less [OF q] unat_add_region [of q] m
      by (auto simp: region_bytes_def word_less_nat_alt word_le_nat_alt regions_ok_def)
  qed
  then show ?thesis using False a by (auto simp: buffer_unregister_def case_prod_beta Let_def)
qed

text \<open>C29. Registration of user buffers keeps a set of disjoint regions. \<open>buffer_register\<close>
  accepts a buffer exactly when its address and length are not zero, it does not run over
  the end of the address space and it meets no registered region; it then adds the region
  and otherwise changes nothing. \<open>buffer_unregister\<close> succeeds exactly when the address lies
  in a registered region, which is unique, and removes that region only. Both keep the
  ordered map well formed.\<close>

theorem buffer_registration_correct:
  assumes m: "regions_ok m"
  shows "(fst (buffer_register a l m) \<longleftrightarrow> a \<noteq> 0 \<and> l \<noteq> 0 \<and> unat a + unat l < 2 ^ 64
            \<and> (\<forall>r\<in>set m. region_bytes r \<inter> region_bytes (a, l) = {}))
       \<and> regions_ok (snd (buffer_register a l m))
       \<and> set (snd (buffer_register a l m)) = (if fst (buffer_register a l m) then insert (a, l) (set m) else set m)
       \<and> (fst (buffer_unregister a m) \<longleftrightarrow> a \<noteq> 0 \<and> (\<exists>!r. r \<in> set m \<and> unat a \<in> region_bytes r))
       \<and> regions_ok (snd (buffer_unregister a m))
       \<and> set (snd (buffer_unregister a m)) =
           (if a = 0 then set m else {r \<in> set m. unat a \<notin> region_bytes r})"
proof -
  have uniq: "r = q" if "r \<in> set m" "q \<in> set m" "unat a \<in> region_bytes r" "unat a \<in> region_bytes q" for r q
    using regions_disjoint [OF m that(1,2)] that by blast
  have reg: "(fst (buffer_register a l m) \<longleftrightarrow> a \<noteq> 0 \<and> l \<noteq> 0 \<and> unat a + unat l < 2 ^ 64
            \<and> (\<forall>r\<in>set m. region_bytes r \<inter> region_bytes (a, l) = {}))
       \<and> regions_ok (snd (buffer_register a l m))
       \<and> set (snd (buffer_register a l m)) = (if fst (buffer_register a l m) then insert (a, l) (set m) else set m)"
  proof (cases "l \<noteq> 0 \<and> unat a + unat l < 2 ^ 64")
    case True
    then have n: "region_ok (a, l)" by (simp add: region_ok_def)
    show ?thesis
      using m True map_put_region [OF m n] by (auto simp: buffer_register_def not_overflow_iff region_overlaps_iff [OF m n])
  next
    case False
    then show ?thesis using m by (auto simp: buffer_register_def not_overflow_iff)
  qed
  have unreg: "(fst (buffer_unregister a m) \<longleftrightarrow> (\<exists>!r. r \<in> set m \<and> unat a \<in> region_bytes r))
       \<and> regions_ok (snd (buffer_unregister a m))
       \<and> set (snd (buffer_unregister a m)) = {r \<in> set m. unat a \<notin> region_bytes r}" if "a \<noteq> 0"
  proof (cases "\<exists>r\<in>set m. unat a \<in> region_bytes r")
    case True
    then obtain r where r: "r \<in> set m" "unat a \<in> region_bytes r" by blast
    have "buffer_unregister a m = (True, map_erase (fst r) m)"
      using buffer_unregister_iff [OF m that] before_upper_owner [OF m r] r by auto
    moreover have "\<exists>!q. q \<in> set m \<and> unat a \<in> region_bytes q" using r uniq by blast
    moreover have "set m - {r} = {q \<in> set m. unat a \<notin> region_bytes q}" using r uniq by blast
    ultimately show ?thesis using map_erase_region [OF m r(1)] by simp
  next
    case False
    then show ?thesis using buffer_unregister_iff [OF m that] m by auto
  qed
  show ?thesis
  proof (cases "a = 0")
    case True
    then have "buffer_unregister a m = (False, m)" by (simp add: buffer_unregister_def)
    then show ?thesis using reg m True by simp
  qed (use reg unreg in simp)
qed

theorem buffer_registration_correct_witness:
  "regions_ok [(16, 16), (64, 32)]
   \<and> fst (buffer_register 32 32 [(16, 16), (64, 32)])
   \<and> \<not> fst (buffer_register 32 33 [(16, 16), (64, 32)])
   \<and> buffer_unregister 70 [(16, 16), (64, 32)] = (True, [(16, 16)])
   \<and> regions_ok (snd (buffer_register 32 32 [(16, 16), (64, 32)]))"
proof -
  have ok: "regions_ok [(16, 16), (64, 32)]" by (simp add: regions_ok_def region_ok_def)
  have "regions_ok (snd (buffer_register 32 32 [(16, 16), (64, 32)]))"
    using buffer_registration_correct [OF ok, of 32 32] by blast
  then show ?thesis using ok
    by (simp add: buffer_register_def region_overlaps_def from_lower_def before_lower_def
        buffer_unregister_def before_upper_def map_erase_def)
qed

end
