(* ===== verification/Symm_Regions.thy ===== *)
theory Symm_Regions
  imports Regions
begin

text \<open>
  Symmetric registration of user memory.

  \<^item> \<open>ValidateVMMRegistration\<close>, \<open>MapLocalAlias\<close> and \<open>UnmapLocalAlias\<close> of
    \<open>memory/hip_allocator.hpp\<close>, over the answers of the driver;
  \<^item> \<open>all_pes_agree\<close>, \<open>all_pes_succeeded\<close> and \<open>symm_lengths_match\<close> of \<open>backend_bc.hpp\<close>;
  \<^item> \<open>Backend::buffer_register_symmetric\<close>, \<open>register_ipc_symm_region\<close> and their inverses
    of \<open>backend_bc.cpp\<close>, and the overrides of \<open>ipc/backend_ipc.cpp\<close> that combine them;
  \<^item> \<open>IpcOnImpl::ipcPeerPtr\<close> of \<open>ipc_policy.hpp\<close>, the device-side translation.

  The state counts every resource the code acquires (retained allocation handles,
  reserved and mapped address ranges, opened and exported IPC handles, device arrays),
  so that a path that forgets to release one is visible.
\<close>

type_synonym handle = nat

section \<open>The allocator\<close>

record vmm_answers =
  handle_type :: nat
  granularity :: u64
  access_flags :: "nat option"
  retain_ok :: bool
  alloc_props :: "(nat \<times> nat) option"
  reserve :: "u64 option"
  map_ok :: bool
  get_device_ok :: bool
  set_access_ok :: bool

definition hipMemHandleTypeNone :: nat where
  "hipMemHandleTypeNone = 0"

definition hipMemAccessFlagsProtReadWrite :: nat where
  "hipMemAccessFlagsProtReadWrite = 3"

definition ValidateVMMRegistration :: "vmm_answers \<Rightarrow> u64 \<Rightarrow> u64 \<Rightarrow> nat \<Rightarrow> bool" where
  "ValidateVMMRegistration v ptr size1 device_id =
     (if handle_type v = hipMemHandleTypeNone then False
      else if ptr = 0 \<or> size1 = 0 then False
      else let g = (if granularity v = 0 then 1 else granularity v)
           in if size1 mod g \<noteq> 0 then False
              else case access_flags v of
                None \<Rightarrow> False
              | Some f \<Rightarrow>
                  if f \<noteq> hipMemAccessFlagsProtReadWrite then False
                  else if \<not> retain_ok v then False
                  else case alloc_props v of
                    None \<Rightarrow> False
                  | Some (loc, types) \<Rightarrow>
                      if loc \<noteq> device_id then False
                      else if types \<noteq> handle_type v then False else True)"

record vmm_state =
  retained :: nat
  reserved :: "u64 multiset"
  mapped :: "u64 multiset"

definition MapLocalAlias :: "vmm_answers \<Rightarrow> u64 \<Rightarrow> u64 \<Rightarrow> vmm_state \<Rightarrow> u64 option \<times> vmm_state" where
  "MapLocalAlias v dev_ptr len s =
     (if handle_type v = hipMemHandleTypeNone then (None, s)
      else if dev_ptr = 0 \<or> len = 0 then (None, s)
      else if \<not> retain_ok v then (None, s)
      else let s1 = s\<lparr>retained := retained s + 1\<rparr> in
      case reserve v of
        None \<Rightarrow> (None, s1\<lparr>retained := retained s1 - 1\<rparr>)
      | Some va \<Rightarrow>
          let s2 = s1\<lparr>reserved := reserved s1 + {#va#}\<rparr> in
          if \<not> map_ok v
          then (None, s2\<lparr>reserved := reserved s2 - {#va#}, retained := retained s2 - 1\<rparr>)
          else let s3 = s2\<lparr>mapped := mapped s2 + {#va#}\<rparr> in
          if \<not> (get_device_ok v \<and> set_access_ok v)
          then (None, s3\<lparr>mapped := mapped s3 - {#va#}, reserved := reserved s3 - {#va#},
                         retained := retained s3 - 1\<rparr>)
          else (Some va, s3\<lparr>retained := retained s3 - 1\<rparr>))"

definition UnmapLocalAlias :: "u64 \<Rightarrow> u64 \<Rightarrow> vmm_state \<Rightarrow> vmm_state" where
  "UnmapLocalAlias alias1 len s =
     (if alias1 = 0 \<or> len = 0 then s
      else s\<lparr>mapped := mapped s - {#alias1#}, reserved := reserved s - {#alias1#}\<rparr>)"

section \<open>Agreement of the PEs\<close>

text \<open>\<open>contributed\<close> holds the value of every PE; the slot of this PE is overwritten by its own.\<close>

definition all_pes_agree :: "('t \<Rightarrow> bool) \<Rightarrow> nat \<Rightarrow> 't list \<Rightarrow> 't \<Rightarrow> bool" where
  "all_pes_agree ok my_pe contributed local_value = list_all ok (contributed[my_pe := local_value])"

definition all_pes_succeeded :: "nat \<Rightarrow> bool list \<Rightarrow> bool \<Rightarrow> bool" where
  "all_pes_succeeded my_pe contributed local_success = all_pes_agree (\<lambda>v. v) my_pe contributed local_success"

definition symm_lengths_match :: "nat \<Rightarrow> u64 list \<Rightarrow> u64 \<Rightarrow> bool" where
  "symm_lengths_match my_pe contributed len = all_pes_agree (\<lambda>v. v = len) my_pe contributed len"

section \<open>State\<close>

record ipc_symm_region =
  local_base :: u64
  region_length :: u64
  peer_bases :: "u64 list"

record ipc_symm_table =
  table_count :: nat
  table_capacity :: nat
  table_regions :: "ipc_symm_region list"

record ipc_symm_record =
  slot :: nat
  self_index :: nat
  rec_peer_bases :: "u64 list"
  local_handle :: handle

record symm_state =
  vmm :: vmm_state
  symm_buffer_regions :: "(u64 \<times> u64 \<times> u64) list"
  symm_orig_regions :: region_map
  max_symm_regions :: nat
  symm_table :: "ipc_symm_table option"
  ipc_symm_records :: "(u64 \<times> ipc_symm_record) list"
  opened :: "u64 multiset"
  exported :: "handle multiset"
  dev_arrays :: nat

text \<open>What the driver and the other PEs answer during one collective registration.\<close>

record symm_answers =
  vmm_ans :: vmm_answers
  lengths_of :: "u64 list"
  registered_of :: "bool list"
  export_handle :: "handle option"
  exported_of :: "bool list"
  gathered :: "handle list"
  open_handle :: "handle \<Rightarrow> u64 option"
  opened_of :: "bool list"

section \<open>Registration with the backend\<close>

definition backend_register_symmetric ::
    "vmm_answers \<Rightarrow> nat \<Rightarrow> u64 \<Rightarrow> u64 \<Rightarrow> symm_state \<Rightarrow> u64 option \<times> symm_state" where
  "backend_register_symmetric v dev addr len s =
     (if \<not> ValidateVMMRegistration v addr len dev then (None, s)
      else if length (symm_buffer_regions s) \<ge> max_symm_regions s then (None, s)
      else if addr > - 1 - len then (None, s)
      else if region_overlaps addr (addr + len) (symm_orig_regions s) then (None, s)
      else case MapLocalAlias v addr len (vmm s) of
        (None, m) \<Rightarrow> (None, s\<lparr>vmm := m\<rparr>)
      | (Some alias1, m) \<Rightarrow>
          (Some alias1,
           s\<lparr>vmm := m, symm_buffer_regions := map_put alias1 (len, addr) (symm_buffer_regions s),
             symm_orig_regions := map_put addr len (symm_orig_regions s)\<rparr>))"

definition backend_unregister_symmetric :: "u64 \<Rightarrow> symm_state \<Rightarrow> bool \<times> symm_state" where
  "backend_unregister_symmetric addr s =
     (if addr = 0 then (False, s)
      else case map_of (symm_buffer_regions s) addr of
        None \<Rightarrow> (False, s)
      | Some (len, orig) \<Rightarrow>
          (True, s\<lparr>vmm := UnmapLocalAlias addr len (vmm s),
                   symm_orig_regions := map_erase orig (symm_orig_regions s),
                   symm_buffer_regions := map_erase addr (symm_buffer_regions s)\<rparr>))"

section \<open>The device table\<close>

definition alloc_ipc_symm_table :: "symm_state \<Rightarrow> symm_state" where
  "alloc_ipc_symm_table s =
     (let capacity = (if max_symm_regions s = 0 then 1 else max_symm_regions s)
      in s\<lparr>symm_table := Some \<lparr>table_count = 0, table_capacity = capacity,
             table_regions = replicate capacity \<lparr>local_base = 0, region_length = 0, peer_bases = []\<rparr>\<rparr>\<rparr>)"

definition peers_but :: "nat \<Rightarrow> u64 list \<Rightarrow> u64 multiset" where
  "peers_but self bases = mset (map ((!) bases) (filter (\<lambda>i. i \<noteq> self) [0..<length bases]))"

definition close_peers :: "nat \<Rightarrow> u64 list \<Rightarrow> u64 multiset \<Rightarrow> u64 multiset" where
  "close_peers self bases op = op - peers_but self bases"

fun open_peers :: "(handle \<Rightarrow> u64 option) \<Rightarrow> nat \<Rightarrow> u64 \<Rightarrow> handle list \<Rightarrow> u64 list \<Rightarrow> u64 multiset
    \<Rightarrow> bool \<times> u64 list \<times> u64 multiset" where
  "open_peers opn self symm_addr [] bases op = (True, bases, op)"
| "open_peers opn self symm_addr (h # hs) bases op =
     (if length bases = self then open_peers opn self symm_addr hs (bases @ [symm_addr]) op
      else case opn h of
        None \<Rightarrow> (False, bases, close_peers self bases op)
      | Some p \<Rightarrow> open_peers opn self symm_addr hs (bases @ [p]) (op + {#p#}))"

text \<open>
  When this PE's own step fails, its failure is one of the gathered values and the
  agreement fails: the two branches below on a local failure return at once.

  The last part of \<open>register_ipc_symm_region\<close>: publish the region in the next free slot.\<close>

definition publish_region :: "ipc_symm_table \<Rightarrow> u64 \<Rightarrow> u64 \<Rightarrow> nat \<Rightarrow> u64 list \<Rightarrow> handle \<Rightarrow> symm_state
    \<Rightarrow> bool \<times> symm_state" where
  "publish_region tab symm_addr len self bases h s =
     (let s1 = s\<lparr>dev_arrays := dev_arrays s + 1\<rparr>; k = table_count tab in
      if k \<ge> table_capacity tab
      then (False, s1\<lparr>opened := close_peers self bases (opened s1), dev_arrays := dev_arrays s1 - 1,
                      exported := exported s1 - {#h#}\<rparr>)
      else (True, s1\<lparr>symm_table := Some (tab\<lparr>table_regions := (table_regions tab)
                        [k := \<lparr>local_base = symm_addr, region_length = len, peer_bases = bases\<rparr>],
                        table_count := k + 1\<rparr>),
                     ipc_symm_records := map_put symm_addr
                       \<lparr>slot = k, self_index = self, rec_peer_bases = bases, local_handle = h\<rparr>
                       (ipc_symm_records s1)\<rparr>))"

definition register_ipc_symm_region :: "symm_answers \<Rightarrow> nat \<Rightarrow> u64 \<Rightarrow> u64 \<Rightarrow> nat list \<Rightarrow> nat \<Rightarrow> symm_state
    \<Rightarrow> bool \<times> symm_state" where
  "register_ipc_symm_region e my_pe symm_addr len peer_global self s =
     (case symm_table s of
        None \<Rightarrow> (False, s)
      | Some tab \<Rightarrow>
          (case export_handle e of
             None \<Rightarrow> (False, s)
           | Some h \<Rightarrow>
               let s1 = s\<lparr>exported := exported s + {#h#}\<rparr> in
               if \<not> all_pes_succeeded my_pe (exported_of e) True
               then (False, s1\<lparr>exported := exported s1 - {#h#}\<rparr>)
               else let (open_ok, bases, op) = open_peers (open_handle e) self symm_addr
                          (map ((!) (gathered e)) peer_global) [] (opened s1) in
               if \<not> all_pes_succeeded my_pe (opened_of e) open_ok
               then (False, s1\<lparr>opened := (if open_ok then close_peers self bases op else op),
                               exported := exported s1 - {#h#}\<rparr>)
               else publish_region tab symm_addr len self bases h (s1\<lparr>opened := op\<rparr>)))"

fun reslot :: "nat \<Rightarrow> nat \<Rightarrow> (u64 \<times> ipc_symm_record) list \<Rightarrow> (u64 \<times> ipc_symm_record) list" where
  "reslot from to1 [] = []"
| "reslot from to1 ((k, r) # rs) =
     (if slot r = from then (k, r\<lparr>slot := to1\<rparr>) # rs else (k, r) # reslot from to1 rs)"

definition unregister_ipc_symm_region :: "u64 \<Rightarrow> symm_state \<Rightarrow> bool \<times> symm_state" where
  "unregister_ipc_symm_region symm_addr s =
     (case symm_table s of
        None \<Rightarrow> (False, s)
      | Some tab \<Rightarrow>
          (case map_of (ipc_symm_records s) symm_addr of
             None \<Rightarrow> (False, s)
           | Some r \<Rightarrow>
               let last1 = table_count tab - 1;
                   regs = table_regions tab;
                   moved = (slot r \<noteq> last1);
                   regs' = (if moved then regs[slot r := regs ! last1] else regs);
                   recs' = (if moved then reslot last1 (slot r) (ipc_symm_records s) else ipc_symm_records s)
               in (True, s\<lparr>opened := close_peers (self_index r) (rec_peer_bases r) (opened s),
                           exported := exported s - {#local_handle r#},
                           symm_table := Some (tab\<lparr>table_regions := regs', table_count := last1\<rparr>),
                           dev_arrays := dev_arrays s - 1,
                           ipc_symm_records := map_erase symm_addr recs'\<rparr>)))"

section \<open>The IPC backend\<close>

definition ipc_register_symmetric :: "symm_answers \<Rightarrow> nat \<Rightarrow> nat \<Rightarrow> nat \<Rightarrow> u64 \<Rightarrow> u64 \<Rightarrow> symm_state
    \<Rightarrow> u64 option \<times> symm_state" where
  "ipc_register_symmetric e num_pes my_pe dev addr len s =
     (if symm_table s = None then (None, s)
      else if \<not> symm_lengths_match my_pe (lengths_of e) len then (None, s)
      else case backend_register_symmetric (vmm_ans e) dev addr len s of
        (None, s1) \<Rightarrow> (None, s1)
      | (Some alias1, s1) \<Rightarrow>
          if \<not> all_pes_succeeded my_pe (registered_of e) True
          then (None, snd (backend_unregister_symmetric alias1 s1))
          else let (ok, s2) = register_ipc_symm_region e my_pe alias1 len [0..<num_pes] my_pe s1
               in if \<not> ok then (None, snd (backend_unregister_symmetric alias1 s2))
                  else (Some alias1, s2))"

definition ipc_unregister_symmetric :: "u64 \<Rightarrow> symm_state \<Rightarrow> bool \<times> symm_state" where
  "ipc_unregister_symmetric addr s =
     (if addr = 0 \<or> symm_table s = None then (False, s)
      else let (ok, s1) = unregister_ipc_symm_region addr s
           in if \<not> ok then (False, s1) else backend_unregister_symmetric addr s1)"

definition cleanup_symm_registration :: "symm_state \<Rightarrow> symm_state" where
  "cleanup_symm_registration s =
     (fold (\<lambda>a s. snd (ipc_unregister_symmetric a s)) (map fst (ipc_symm_records s)) s)\<lparr>symm_table := None\<rparr>"

section \<open>Translation on the device\<close>

fun find_region :: "u64 \<Rightarrow> ipc_symm_region list \<Rightarrow> ipc_symm_region option" where
  "find_region addr [] = None"
| "find_region addr (r # rs) =
     (if addr \<ge> local_base r \<and> addr < local_base r + region_length r then Some r else find_region addr rs)"

definition ipcPeerPtr :: "u64 \<Rightarrow> u64 \<Rightarrow> u64 list \<Rightarrow> symm_state \<Rightarrow> u64 \<Rightarrow> nat \<Rightarrow> u64 option" where
  "ipcPeerPtr heap_base heap_size ipc_bases s addr pe =
     (if addr - heap_base < heap_size then Some (ipc_bases ! pe + (addr - heap_base))
      else case symm_table s of
        None \<Rightarrow> None
      | Some tab \<Rightarrow>
          (case find_region addr (take (table_count tab) (table_regions tab)) of
             None \<Rightarrow> None
           | Some r \<Rightarrow> Some (peer_bases r ! pe + (addr - local_base r))))"

section \<open>Lemmas on the maps\<close>

lemma map_erase_absent: "k \<notin> fst ` set m \<Longrightarrow> map_erase k m = m"
  unfolding map_erase_def by (rule filter_True) (auto simp: image_iff)

lemma map_erase_put: "k \<notin> fst ` set m \<Longrightarrow> map_erase k (map_put k v m) = m"
proof (induction m)
  case (Cons r m)
  then have "map_erase k m = m" by (intro map_erase_absent) auto
  then show ?case using Cons by (cases r) (auto simp: map_erase_def)
qed (simp add: map_erase_def)

lemma mset_map_put: "k \<notin> fst ` set m \<Longrightarrow> mset (map_put k v m) = add_mset (k, v) (mset m)"
  by (induction m) auto

lemma length_map_put: "k \<notin> fst ` set m \<Longrightarrow> length (map_put k v m) = Suc (length m)"
  using mset_map_put [of k m v] by (metis size_add_mset size_mset)

lemma set_map_put: "k \<notin> fst ` set m \<Longrightarrow> set (map_put k v m) = insert (k, v) (set m)"
  using mset_map_put [of k m v] by (metis set_mset_add_mset_insert set_mset_mset)

lemma map_put_keys:
  "map fst m = map fst m' \<Longrightarrow> map fst (map_put k v m) = map fst (map_put k v' m')"
proof (induction m arbitrary: m')
  case (Cons r m)
  then show ?case by (cases m'; cases r) auto
qed simp

lemma map_put_map:
  "map (\<lambda>(a, v). (a, f v)) (map_put k v m) = map_put k (f v) (map (\<lambda>(a, v). (a, f v)) m)"
  by (induction m) auto

lemma map_erase_map:
  "map (\<lambda>(a, v). (a, f a v)) (map_erase k m) = map_erase k (map (\<lambda>(a, v). (a, f a v)) m)"
  by (induction m) (auto simp: map_erase_def)

lemma map_erase_keys: "map fst (map_erase k m) = filter (\<lambda>a. a \<noteq> k) (map fst m)"
  by (induction m) (auto simp: map_erase_def)

lemma map_erase_unique:
  assumes "distinct (map fst m)" "(k, v) \<in> set m"
  shows "mset m = add_mset (k, v) (mset (map_erase k m))"
  using assms
proof (induction m)
  case (Cons r m)
  show ?case
  proof (cases "fst r = k")
    case True
    then have "map_erase k m = m" using Cons.prems(1) by (intro map_erase_absent) auto
    moreover have "r = (k, v)" using True Cons.prems by (cases r) (force simp: rev_image_eqI)
    ultimately show ?thesis by (simp add: map_erase_def)
  next
    case False
    then show ?thesis using Cons by (auto simp: map_erase_def)
  qed
qed simp

lemma reslot_map:
  "distinct (map (slot \<circ> snd) rs) \<Longrightarrow>
   reslot from to1 rs = map (\<lambda>(k, r). (k, if slot r = from then r\<lparr>slot := to1\<rparr> else r)) rs"
proof (induction rs)
  case (Cons x rs)
  have "map (\<lambda>(k, r). (k, if slot r = from then r\<lparr>slot := to1\<rparr> else r)) rs = rs"
    if "from \<notin> (slot \<circ> snd) ` set rs" using that by (force intro: map_idI)
  then show ?case using Cons by (cases x) auto
qed simp

section \<open>A failed registration leaves no trace\<close>

lemma vmm_state_same: "s\<lparr>retained := retained s\<rparr> = (s :: vmm_state)"
  by simp

lemma MapLocalAlias_cases:
  "MapLocalAlias v p len s = (None, s) \<or>
   (\<exists>va. reserve v = Some va \<and> p \<noteq> 0 \<and> len \<noteq> 0 \<and>
      MapLocalAlias v p len s = (Some va, s\<lparr>reserved := reserved s + {#va#}, mapped := mapped s + {#va#}\<rparr>))"
  by (auto simp: MapLocalAlias_def Let_def split: option.splits)

lemma backend_register_cases:
  "backend_register_symmetric v dev addr len s = (None, s) \<or>
   (\<exists>va. reserve v = Some va \<and> len \<noteq> 0 \<and> unat addr + unat len < 2 ^ 64
      \<and> \<not> region_overlaps addr (addr + len) (symm_orig_regions s)
      \<and> length (symm_buffer_regions s) < max_symm_regions s
      \<and> backend_register_symmetric v dev addr len s =
          (Some va, s\<lparr>vmm := (vmm s)\<lparr>reserved := reserved (vmm s) + {#va#}, mapped := mapped (vmm s) + {#va#}\<rparr>,
             symm_buffer_regions := map_put va (len, addr) (symm_buffer_regions s),
             symm_orig_regions := map_put addr len (symm_orig_regions s)\<rparr>))"
  using MapLocalAlias_cases [of v addr len "vmm s"]
  by (auto simp: backend_register_symmetric_def not_overflow_iff)

lemma fresh_start_key:
  assumes "regions_ok m" "region_ok (a, l)" "\<not> region_overlaps a (a + l) m"
  shows "a \<notin> fst ` set m"
proof
  assume "a \<in> fst ` set m"
  then obtain r where r: "r \<in> set m" "fst r = a" by blast
  then have "unat a \<in> region_bytes r \<inter> region_bytes (a, l)"
    using assms(1,2) region_ok_pos [of r] region_ok_pos [of "(a, l)"]
    by (auto simp: region_bytes_def regions_ok_def)
  then show False using assms r by (auto simp: region_overlaps_iff)
qed

lemma backend_undo:
  assumes s: "symm_orig_regions s = orig" "symm_buffer_regions s = buf"
    and fresh: "va \<noteq> 0" "va \<notin> fst ` set buf" "addr \<notin> fst ` set orig" and len: "len \<noteq> 0"
    and s1: "s1 = s\<lparr>vmm := (vmm s)\<lparr>reserved := reserved (vmm s) + {#va#}, mapped := mapped (vmm s) + {#va#}\<rparr>,
       symm_buffer_regions := map_put va (len, addr) buf, symm_orig_regions := map_put addr len orig\<rparr>"
  shows "backend_unregister_symmetric va s1 = (True, s)"
proof -
  have "map_of (map_put va (len, addr) buf) va = Some (len, addr)"
    using fresh(2) by (induction buf) auto
  then show ?thesis using assms
    by (auto simp: backend_unregister_symmetric_def UnmapLocalAlias_def map_erase_put)
qed

lemma peers_but_snoc:
  "peers_but self (bs @ [p]) = peers_but self bs + (if length bs = self then {#} else {#p#})"
proof -
  have "map ((!) (bs @ [p])) (filter (\<lambda>i. i \<noteq> self) [0..<length bs])
      = map ((!) bs) (filter (\<lambda>i. i \<noteq> self) [0..<length bs])"
    by (intro map_cong) (auto simp: nth_append)
  then have "map ((!) (bs @ [p])) (filter (\<lambda>i. i \<noteq> self) [0..<length (bs @ [p])])
      = map ((!) bs) (filter (\<lambda>i. i \<noteq> self) [0..<length bs]) @ (if length bs = self then [] else [p])"
    by simp
  then show ?thesis by (simp only: peers_but_def mset_append) simp
qed

lemma open_peers_resources:
  "open_peers opn self sa hs bs (op + peers_but self bs) = (ok, bs', op')
   \<Longrightarrow> op' = (if ok then op + peers_but self bs' else op) \<and> (ok \<longrightarrow> length bs' = length bs + length hs)"
proof (induction hs arbitrary: bs)
  case (Cons h hs)
  show ?case
  proof (cases "length bs = self")
    case True
    then show ?thesis using Cons.prems Cons.IH [of "bs @ [sa]"] by (simp add: peers_but_snoc)
  next
    case False
    then show ?thesis
      using Cons.prems Cons.IH [of "bs @ [p]" for p]
      by (auto simp: peers_but_snoc close_peers_def split: option.splits)
  qed
qed (simp add: peers_but_def)

lemma all_pes_succeeded_own: "my_pe < length l \<Longrightarrow> \<not> all_pes_succeeded my_pe l False"
  by (auto simp: all_pes_succeeded_def all_pes_agree_def list_all_length intro!: exI [of _ my_pe])

lemma register_ipc_cases:
  assumes "symm_table s = Some tab" "my_pe < length (opened_of e)"
  shows "register_ipc_symm_region e my_pe sa len pg self s = (False, s) \<or>
   (\<exists>h bases. length bases = length pg \<and> table_count tab < table_capacity tab \<and>
      register_ipc_symm_region e my_pe sa len pg self s =
      (True, s\<lparr>exported := exported s + {#h#}, opened := opened s + peers_but self bases,
         dev_arrays := dev_arrays s + 1,
         symm_table := Some (tab\<lparr>table_regions := (table_regions tab)[table_count tab :=
            \<lparr>local_base = sa, region_length = len, peer_bases = bases\<rparr>], table_count := table_count tab + 1\<rparr>),
         ipc_symm_records := map_put sa \<lparr>slot = table_count tab, self_index = self, rec_peer_bases = bases,
            local_handle = h\<rparr> (ipc_symm_records s)\<rparr>))"
proof (cases "export_handle e")
  case (Some h)
  obtain ok bases op where op: "open_peers (open_handle e) self sa (map ((!) (gathered e)) pg) [] (opened s) = (ok, bases, op)"
    by (metis prod_cases3)
  have res: "op = (if ok then opened s + peers_but self bases else opened s)" "ok \<Longrightarrow> length bases = length pg"
    using open_peers_resources [of "open_handle e" self sa "map ((!) (gathered e)) pg" "[]" "opened s" ok bases op] op
    by (auto simp: peers_but_def)
  show ?thesis
  proof (cases "all_pes_succeeded my_pe (exported_of e) True")
    case True
    show ?thesis
    proof (cases "all_pes_succeeded my_pe (opened_of e) ok")
      case all: True
      then show ?thesis using True Some op res assms
all_pes_succeeded_own [OF assms(2)]
        by (cases ok) (auto simp: register_ipc_symm_region_def publish_region_def Let_def close_peers_def)
    qed (use True Some op res assms in \<open>auto simp: register_ipc_symm_region_def close_peers_def\<close>)
  qed (use Some assms in \<open>simp add: register_ipc_symm_region_def\<close>)
qed (use assms in \<open>simp add: register_ipc_symm_region_def\<close>)

section \<open>The invariant\<close>

definition alias_regions :: "symm_state \<Rightarrow> region_map" where
  "alias_regions s = map (\<lambda>(a, v). (a, fst v)) (symm_buffer_regions s)"

definition record_published :: "ipc_symm_table \<Rightarrow> region_map \<Rightarrow> u64 \<times> ipc_symm_record \<Rightarrow> bool" where
  "record_published tab al kr \<longleftrightarrow> slot (snd kr) < table_count tab \<and>
     (\<exists>l. (fst kr, l) \<in> set al \<and> table_regions tab ! slot (snd kr)
        = \<lparr>local_base = fst kr, region_length = l, peer_bases = rec_peer_bases (snd kr)\<rparr>)"

definition table_inv :: "symm_state \<Rightarrow> bool" where
  "table_inv s \<longleftrightarrow> (\<exists>tab. symm_table s = Some tab
     \<and> table_count tab = length (ipc_symm_records s)
     \<and> table_capacity tab = length (table_regions tab) \<and> table_count tab \<le> table_capacity tab
     \<and> distinct (map (slot \<circ> snd) (ipc_symm_records s))
     \<and> (\<forall>kr\<in>set (ipc_symm_records s). record_published tab (alias_regions s) kr))"

definition maps_inv :: "symm_state \<Rightarrow> bool" where
  "maps_inv s \<longleftrightarrow> regions_ok (alias_regions s) \<and> 0 \<notin> fst ` set (alias_regions s)
     \<and> regions_ok (symm_orig_regions s)
     \<and> mset (symm_orig_regions s) = mset (map (\<lambda>(a, l, orig). (orig, l)) (symm_buffer_regions s))
     \<and> map fst (ipc_symm_records s) = map fst (symm_buffer_regions s)"

text \<open>Every resource the process holds belongs to a live registration.\<close>

definition resources_inv :: "symm_state \<Rightarrow> bool" where
  "resources_inv s \<longleftrightarrow> retained (vmm s) = 0
     \<and> reserved (vmm s) = mset (map fst (symm_buffer_regions s))
     \<and> mapped (vmm s) = mset (map fst (symm_buffer_regions s))
     \<and> opened s = (\<Sum>(k, r)\<in>#mset (ipc_symm_records s). peers_but (self_index r) (rec_peer_bases r))
     \<and> exported s = mset (map (local_handle \<circ> snd) (ipc_symm_records s))
     \<and> dev_arrays s = length (ipc_symm_records s)"

definition symm_inv :: "symm_state \<Rightarrow> bool" where
  "symm_inv s \<longleftrightarrow> maps_inv s \<and> table_inv s \<and> resources_inv s"

text \<open>
  The driver reserves an address range that is not in use: not null, inside the address
  space and apart from every live alias. The collective gathers one value per PE.
\<close>

definition answers_ok :: "symm_answers \<Rightarrow> nat \<Rightarrow> nat \<Rightarrow> u64 \<Rightarrow> symm_state \<Rightarrow> bool" where
  "answers_ok e num_pes my_pe len s \<longleftrightarrow> my_pe < num_pes \<and> length (opened_of e) = num_pes \<and>
     (case reserve (vmm_ans e) of None \<Rightarrow> True
      | Some va \<Rightarrow> va \<noteq> 0 \<and> unat va + unat len < 2 ^ 64
          \<and> (\<forall>r\<in>set (alias_regions s). region_bytes r \<inter> region_bytes (va, len) = {}))"

inductive symm_step :: "nat \<Rightarrow> nat \<Rightarrow> nat \<Rightarrow> symm_state \<Rightarrow> symm_state \<Rightarrow> bool" for num_pes my_pe dev where
  register: "answers_ok e num_pes my_pe len s
    \<Longrightarrow> symm_step num_pes my_pe dev s (snd (ipc_register_symmetric e num_pes my_pe dev addr len s))"
| unregister: "symm_step num_pes my_pe dev s (snd (ipc_unregister_symmetric addr s))"

definition symm_init :: "nat \<Rightarrow> symm_state" where
  "symm_init n = alloc_ipc_symm_table
     \<lparr>vmm = \<lparr>retained = 0, reserved = {#}, mapped = {#}\<rparr>, symm_buffer_regions = [], symm_orig_regions = [],
      max_symm_regions = n, symm_table = None, ipc_symm_records = [], opened = {#}, exported = {#}, dev_arrays = 0\<rparr>"

lemma symm_init_inv: "symm_inv (symm_init n)"
  by (simp add: symm_inv_def symm_init_def alloc_ipc_symm_table_def maps_inv_def table_inv_def resources_inv_def
      alias_regions_def regions_ok_def)

subsection \<open>Registration\<close>

lemma alias_key: "a \<in> fst ` set (alias_regions s) \<longleftrightarrow> a \<in> fst ` set (symm_buffer_regions s)"
  by (force simp: alias_regions_def)

lemma fresh_alias_key:
  assumes "regions_ok (alias_regions s)" "region_ok (va, len)"
    "\<forall>r\<in>set (alias_regions s). region_bytes r \<inter> region_bytes (va, len) = {}"
  shows "va \<notin> fst ` set (symm_buffer_regions s)" "\<not> region_overlaps va (va + len) (alias_regions s)"
proof -
  show "\<not> region_overlaps va (va + len) (alias_regions s)"
    using assms by (simp add: region_overlaps_iff)
  then show "va \<notin> fst ` set (symm_buffer_regions s)"
    using fresh_start_key [OF assms(1,2)] alias_key by blast
qed

text \<open>A registration fails without a trace, or adds exactly one entry everywhere.\<close>

lemma ipc_register_cases:
  assumes inv: "symm_inv s" and ans: "answers_ok e num_pes my_pe len s"
  obtains (failed) "ipc_register_symmetric e num_pes my_pe dev addr len s = (None, s)"
  | (added) va h bases tab s' where
      "ipc_register_symmetric e num_pes my_pe dev addr len s = (Some va, s')"
      "symm_table s = Some tab" "table_count tab < table_capacity tab" "length bases = num_pes"
      "region_ok (va, len)" "va \<noteq> 0" "\<not> region_overlaps va (va + len) (alias_regions s)"
      "va \<notin> fst ` set (symm_buffer_regions s)"
      "region_ok (addr, len)" "\<not> region_overlaps addr (addr + len) (symm_orig_regions s)"
      "s' = s\<lparr>vmm := (vmm s)\<lparr>reserved := reserved (vmm s) + {#va#}, mapped := mapped (vmm s) + {#va#}\<rparr>,
         symm_buffer_regions := map_put va (len, addr) (symm_buffer_regions s),
         symm_orig_regions := map_put addr len (symm_orig_regions s),
         exported := exported s + {#h#}, opened := opened s + peers_but my_pe bases,
         dev_arrays := dev_arrays s + 1,
         symm_table := Some (tab\<lparr>table_regions := (table_regions tab)[table_count tab :=
            \<lparr>local_base = va, region_length = len, peer_bases = bases\<rparr>], table_count := table_count tab + 1\<rparr>),
         ipc_symm_records := map_put va \<lparr>slot = table_count tab, self_index = my_pe, rec_peer_bases = bases,
            local_handle = h\<rparr> (ipc_symm_records s)\<rparr>"
proof -
  obtain tab where tab: "symm_table s = Some tab" using inv by (auto simp: symm_inv_def table_inv_def)
  show thesis
  proof (cases "symm_lengths_match my_pe (lengths_of e) len \<and> fst (backend_register_symmetric (vmm_ans e) dev addr len s) \<noteq> None")
    case False
    then have "ipc_register_symmetric e num_pes my_pe dev addr len s = (None, s)"
      using tab backend_register_cases [of "vmm_ans e" dev addr len s] by (auto simp: ipc_register_symmetric_def)
    then show thesis by (rule failed)
  next
    case True
    then obtain va s1 where va: "reserve (vmm_ans e) = Some va" and len: "len \<noteq> 0" "unat addr + unat len < 2 ^ 64"
      and free: "\<not> region_overlaps addr (addr + len) (symm_orig_regions s)"
      and s1: "s1 = s\<lparr>vmm := (vmm s)\<lparr>reserved := reserved (vmm s) + {#va#}, mapped := mapped (vmm s) + {#va#}\<rparr>,
             symm_buffer_regions := map_put va (len, addr) (symm_buffer_regions s),
             symm_orig_regions := map_put addr len (symm_orig_regions s)\<rparr>"
      and reg: "backend_register_symmetric (vmm_ans e) dev addr len s = (Some va, s1)"
      using backend_register_cases [of "vmm_ans e" dev addr len s] by auto
    have ok: "region_ok (va, len)" "region_ok (addr, len)" "va \<noteq> 0" and pes: "my_pe < length (opened_of e)"
      using ans va len by (auto simp: answers_ok_def region_ok_def)
    have fresh: "va \<notin> fst ` set (symm_buffer_regions s)" "\<not> region_overlaps va (va + len) (alias_regions s)"
      using fresh_alias_key [OF _ ok(1)] inv ans va by (auto simp: symm_inv_def maps_inv_def answers_ok_def)
    have "addr \<notin> fst ` set (symm_orig_regions s)"
      using fresh_start_key [OF _ ok(2) free] inv by (simp add: symm_inv_def maps_inv_def)
    then have undo: "backend_unregister_symmetric va s1 = (True, s)"
      using backend_undo [OF refl refl ok(3) fresh(1) _ len(1) s1] by simp
    have tab1: "symm_table s1 = Some tab" using tab s1 by simp
    note reg_cases = register_ipc_cases [OF tab1 pes, of va len "[0..<num_pes]" my_pe]
    show thesis
    proof (cases "all_pes_succeeded my_pe (registered_of e) True
        \<and> fst (register_ipc_symm_region e my_pe va len [0..<num_pes] my_pe s1)")
      case False
      then have "ipc_register_symmetric e num_pes my_pe dev addr len s = (None, s)"
        using reg_cases tab reg True undo by (auto simp: ipc_register_symmetric_def)
      then show thesis by (rule failed)
    next
      case 2: True
      then obtain h bases where "length bases = num_pes" "table_count tab < table_capacity tab"
        "register_ipc_symm_region e my_pe va len [0..<num_pes] my_pe s1 =
           (True, s1\<lparr>exported := exported s1 + {#h#}, opened := opened s1 + peers_but my_pe bases,
             dev_arrays := dev_arrays s1 + 1,
             symm_table := Some (tab\<lparr>table_regions := (table_regions tab)[table_count tab :=
                \<lparr>local_base = va, region_length = len, peer_bases = bases\<rparr>], table_count := table_count tab + 1\<rparr>),
             ipc_symm_records := map_put va \<lparr>slot = table_count tab, self_index = my_pe, rec_peer_bases = bases,
                local_handle = h\<rparr> (ipc_symm_records s1)\<rparr>)"
        using reg_cases by auto
      then show thesis using 2 tab reg True ok fresh free s1
        by (intro added [of va _ tab bases h]) (auto simp: ipc_register_symmetric_def)
    qed
  qed
qed

lemma published_mono:
  assumes "record_published tab al kr" "set al \<subseteq> set al'" "slot (snd kr) < table_count tab'"
    "table_regions tab' ! slot (snd kr) = table_regions tab ! slot (snd kr)"
  shows "record_published tab' al' kr"
  using assms by (auto simp: record_published_def)

lemma register_inv:
  assumes inv: "symm_inv s" and ans: "answers_ok e num_pes my_pe len s"
  shows "symm_inv (snd (ipc_register_symmetric e num_pes my_pe dev addr len s))"
  using inv ans
proof (cases rule: ipc_register_cases [where dev = dev and addr = addr])
  case failed
  then show ?thesis using inv by simp
next
  case (added va h bases tab s')
  let ?r = "\<lparr>slot = table_count tab, self_index = my_pe, rec_peer_bases = bases, local_handle = h\<rparr>"
  have m: "maps_inv s" and t: "table_inv s" and r: "resources_inv s" using inv by (auto simp: symm_inv_def)
  have al: "alias_regions s' = map_put va len (alias_regions s)"
    using map_put_map [of fst va "(len, addr)" "symm_buffer_regions s"] added by (simp add: alias_regions_def)
  have newal: "regions_ok (alias_regions s') \<and> set (alias_regions s') = insert (va, len) (set (alias_regions s))"
    using map_put_region [OF _ added(5,7)] m al by (simp add: maps_inv_def)
  have neworig: "regions_ok (symm_orig_regions s')" "addr \<notin> fst ` set (symm_orig_regions s)"
    using map_put_region [OF _ added(9,10)] fresh_start_key [OF _ added(9,10)] m added by (auto simp: maps_inv_def)
  have key: "va \<notin> fst ` set (ipc_symm_records s)"
    using added(8) m by (metis list.set_map maps_inv_def)
  have recs: "ipc_symm_records s' = map_put va ?r (ipc_symm_records s)" using added by simp
  have buf: "symm_buffer_regions s' = map_put va (len, addr) (symm_buffer_regions s)"
    and orig: "symm_orig_regions s' = map_put addr len (symm_orig_regions s)" using added(11) by simp_all
  have "mset (symm_orig_regions s') = mset (map (\<lambda>(a, l, orig). (orig, l)) (symm_buffer_regions s'))"
    unfolding orig buf using m neworig(2) added(8) by (simp add: maps_inv_def mset_map_put)
  moreover have "map fst (ipc_symm_records s') = map fst (symm_buffer_regions s')"
    unfolding recs buf by (rule map_put_keys) (use m in \<open>simp add: maps_inv_def\<close>)
  ultimately have "maps_inv s'"
    using m newal neworig(1) added(6) by (auto simp: maps_inv_def)
  moreover have "table_inv s'"
  proof -
    have tab: "table_count tab = length (ipc_symm_records s)" "table_capacity tab = length (table_regions tab)"
      "distinct (map (slot \<circ> snd) (ipc_symm_records s))"
      "\<forall>kr\<in>set (ipc_symm_records s). record_published tab (alias_regions s) kr"
      using t added(2) by (auto simp: table_inv_def)
    have len: "length (ipc_symm_records s') = Suc (table_count tab)"
      using tab(1) key recs by (simp add: length_map_put)
    have slots: "\<forall>kr\<in>set (ipc_symm_records s). slot (snd kr) < table_count tab"
      using tab(4) by (auto simp: record_published_def)
    have "mset (map (slot \<circ> snd) (ipc_symm_records s')) = add_mset (table_count tab) (mset (map (slot \<circ> snd) (ipc_symm_records s)))"
      using recs key by (simp add: mset_map_put)
    then have "distinct (map (slot \<circ> snd) (ipc_symm_records s'))"
      using tab(3) slots by (metis (mono_tags, lifting) comp_apply distinct.simps(2) imageE less_irrefl list.set_map
          mset.simps(2) mset_eq_imp_distinct_iff)
    moreover have "record_published tab' (alias_regions s') kr"
      if "kr \<in> set (ipc_symm_records s')" and tab': "tab' = tab\<lparr>table_regions := (table_regions tab)[table_count tab :=
            \<lparr>local_base = va, region_length = len, peer_bases = bases\<rparr>], table_count := table_count tab + 1\<rparr>" for kr tab'
    proof (cases "kr \<in> set (ipc_symm_records s)")
      case True
      then have "slot (snd kr) < table_count tab" using slots by blast
      then show ?thesis using newal tab' by (intro published_mono [OF bspec [OF tab(4) True]]) auto
    next
      case False
      then have "kr = (va, ?r)" using that(1) recs set_map_put [OF key] by auto
      then show ?thesis using newal tab' tab(1,2) added(3) by (auto simp: record_published_def)
    qed
    ultimately show ?thesis using tab added(3,11) len by (auto simp: table_inv_def)
  qed
  moreover have "resources_inv s'"
    using r added(8,11) key recs by (auto simp: resources_inv_def mset_map_put length_map_put ac_simps)
  ultimately show ?thesis using added(1) by (simp add: symm_inv_def)
qed

subsection \<open>Unregistration\<close>

lemma distinct_keys:
  assumes "maps_inv s"
  shows "distinct (map fst (symm_buffer_regions s))" "distinct (map fst (symm_orig_regions s))"
proof -
  have d: "distinct (map fst m)" if "regions_ok m" for m
    using that
  proof (induction m)
    case (Cons r m)
    have "fst r \<noteq> fst q" if "q \<in> set m" for q
      using Cons.prems that region_ok_pos [of r] by (fastforce simp: regions_ok_Cons)
    then show ?case using Cons by (auto simp: regions_ok_Cons)
  qed simp
  have "map fst (alias_regions s) = map fst (symm_buffer_regions s)"
    by (auto simp: alias_regions_def)
  then show "distinct (map fst (symm_buffer_regions s))" "distinct (map fst (symm_orig_regions s))"
    using d assms by (metis maps_inv_def)+
qed

text \<open>
  The slots after the move of the last region: the record that owned the last slot now
  owns the freed one.
\<close>

lemma swap_last_table:
  assumes d: "distinct (map fst recs)" "distinct (map (slot \<circ> snd) recs)" and r: "(a, r) \<in> set recs"
    and n: "length recs = n" "n \<le> length regs"
    and pub: "\<forall>kr\<in>set recs. slot (snd kr) < n \<and> P (fst kr) (rec_peer_bases (snd kr)) (regs ! slot (snd kr))"
    and recs': "recs' = map_erase a (if slot r \<noteq> n - 1 then reslot (n - 1) (slot r) recs else recs)"
    and regs': "regs' = (if slot r \<noteq> n - 1 then regs[slot r := regs ! (n - 1)] else regs)"
  shows "distinct (map (slot \<circ> snd) recs')"
    "\<forall>kr\<in>set recs'. slot (snd kr) < n - 1 \<and> P (fst kr) (rec_peer_bases (snd kr)) (regs' ! slot (snd kr))"
proof -
  let ?f = "\<lambda>(k :: u64) q. if slot q = n - 1 then q\<lparr>slot := slot r\<rparr> else (q :: ipc_symm_record)"
  have swap: "recs' = map (\<lambda>(k, q). (k, ?f k q)) (map_erase a recs)"
  proof (cases "slot r = n - 1")
    case True
    then have "(\<lambda>(k, q). (k, ?f k q)) x = x" for x by (cases x) simp
    then show ?thesis using recs' True by (simp add: map_idI)
  next
    case False
    then show ?thesis using recs' reslot_map [OF d(2)] map_erase_map [of ?f a recs] by simp
  qed
  have sub: "set (map_erase a recs) \<subseteq> set recs" by (auto simp: map_erase_def)
  have inj: "slot q = slot q' \<Longrightarrow> (k, q) = (k', q')" if "(k, q) \<in> set recs" "(k', q') \<in> set recs" for k q k' q'
    using d(2) that by (force simp: distinct_map inj_on_def)
  have other: "slot q \<noteq> slot r" if "(k, q) \<in> set (map_erase a recs)" for k q
    using inj [of k q a r] r that sub by (auto simp: map_erase_def)
  have lt: "slot q < n" if "(k, q) \<in> set recs" for k q using pub that by fastforce
  have pos: "0 < n" using r n(1) by (auto intro!: Nat.gr0I)
  have dist: "distinct (map_erase a recs)" using d(1) by (auto simp: map_erase_def distinct_map intro: distinct_filter)
  have "inj_on (\<lambda>(k, q). slot (?f k q)) (set (map_erase a recs))"
  proof (rule inj_onI)
    fix x y assume xy: "x \<in> set (map_erase a recs)" "y \<in> set (map_erase a recs)"
      and eq: "(case x of (k, q) \<Rightarrow> slot (?f k q)) = (case y of (k, q) \<Rightarrow> slot (?f k q))"
    obtain k q k' q' where x: "x = (k, q)" and y: "y = (k', q')" by (cases x; cases y)
    have "slot q \<noteq> slot r" "slot q' \<noteq> slot r" using other xy x y by blast+
    then have "slot q = slot q'" using eq x y by (auto split: if_splits)
    then show "x = y" using inj [of k q k' q'] xy sub x y by blast
  qed
  then have "distinct (map (\<lambda>(k, q). slot (?f k q)) (map_erase a recs))"
    using dist by (simp add: distinct_map)
  then show "distinct (map (slot \<circ> snd) recs')"
    unfolding swap by (simp add: case_prod_unfold comp_def)
  have "slot (?f k q) < n - 1 \<and> P k (rec_peer_bases (?f k q)) (regs' ! slot (?f k q))"
    if kq: "(k, q) \<in> set (map_erase a recs)" for k q
  proof -
    have in1: "(k, q) \<in> set recs" using kq sub by blast
    then have P: "slot q < n" "P k (rec_peer_bases q) (regs ! slot q)" using pub by fastforce+
    show ?thesis
    proof (cases "slot q = n - 1")
      case True
      then have "slot r \<noteq> n - 1" using other [OF kq] by simp
      then show ?thesis using True P regs' lt [OF r] n by auto
    next
      case False
      then show ?thesis using P regs' other [OF kq] by auto
    qed
  qed
  then show "\<forall>kr\<in>set recs'. slot (snd kr) < n - 1 \<and> P (fst kr) (rec_peer_bases (snd kr)) (regs' ! slot (snd kr))"
    unfolding swap by auto
qed

lemma reslot_length [simp]: "length (reslot i j rs) = length rs"
  by (induction i j rs rule: reslot.induct) auto

lemma reslot_keys: "map fst (reslot i j rs) = map fst rs"
  by (induction i j rs rule: reslot.induct) auto

lemma reslot_fields:
  assumes "\<And>k r j. g (k, r\<lparr>slot := j\<rparr>) = g (k, r)"
  shows "map g (map_erase a (reslot i j rs)) = map g (map_erase a rs)"
  using assms by (induction i j rs rule: reslot.induct) (auto simp: map_erase_def)

lemma ipc_unregister_absent:
  assumes "symm_inv s" "a \<notin> fst ` set (ipc_symm_records s)"
  shows "ipc_unregister_symmetric a s = (False, s)"
proof -
  have "map_of (ipc_symm_records s) a = None" using assms(2) by (simp add: map_of_eq_None_iff)
  then show ?thesis using assms(1)
    by (auto simp: ipc_unregister_symmetric_def unregister_ipc_symm_region_def symm_inv_def table_inv_def)
qed

lemma ipc_unregister_present:
  assumes inv: "symm_inv s" and a: "a \<in> fst ` set (ipc_symm_records s)"
  obtains s' where "ipc_unregister_symmetric a s = (True, s')" "symm_inv s'"
    "map fst (ipc_symm_records s') = filter (\<lambda>k. k \<noteq> a) (map fst (ipc_symm_records s))"
proof -
  have m: "maps_inv s" and t: "table_inv s" and res: "resources_inv s" using inv by (auto simp: symm_inv_def)
  have keys: "map fst (ipc_symm_records s) = map fst (symm_buffer_regions s)" using m by (simp add: maps_inv_def)
  have d: "distinct (map fst (ipc_symm_records s))" "distinct (map fst (symm_buffer_regions s))"
    "distinct (map fst (symm_orig_regions s))" using distinct_keys [OF m] keys by simp_all
  obtain r where r: "(a, r) \<in> set (ipc_symm_records s)" using a by auto
  have "a \<in> fst ` set (symm_buffer_regions s)" using a keys by (metis list.set_map)
  then obtain l orig where b: "(a, l, orig) \<in> set (symm_buffer_regions s)" by auto
  obtain tab where tab: "symm_table s = Some tab" "table_count tab = length (ipc_symm_records s)"
    "table_capacity tab = length (table_regions tab)" "table_count tab \<le> length (table_regions tab)"
    "distinct (map (slot \<circ> snd) (ipc_symm_records s))"
    "\<forall>kr\<in>set (ipc_symm_records s). record_published tab (alias_regions s) kr"
    using t by (auto simp: table_inv_def)
  have al: "(a, l) \<in> set (alias_regions s)" using b by (force simp: alias_regions_def)
  then have nz: "a \<noteq> 0" "l \<noteq> 0" using m by (auto simp: maps_inv_def regions_ok_def region_ok_def image_iff)
  define n where "n = table_count tab"
  define regs' where "regs' = (if slot r \<noteq> n - 1 then (table_regions tab)[slot r := table_regions tab ! (n - 1)] else table_regions tab)"
  define recs' where "recs' = map_erase a (if slot r \<noteq> n - 1 then reslot (n - 1) (slot r) (ipc_symm_records s) else ipc_symm_records s)"
  define s' where "s' = s\<lparr>opened := close_peers (self_index r) (rec_peer_bases r) (opened s),
     exported := exported s - {#local_handle r#},
     symm_table := Some (tab\<lparr>table_regions := regs', table_count := n - 1\<rparr>),
     dev_arrays := dev_arrays s - 1, ipc_symm_records := recs',
     vmm := (vmm s)\<lparr>mapped := mapped (vmm s) - {#a#}, reserved := reserved (vmm s) - {#a#}\<rparr>,
     symm_orig_regions := map_erase orig (symm_orig_regions s),
     symm_buffer_regions := map_erase a (symm_buffer_regions s)\<rparr>"
  have "map_of (ipc_symm_records s) a = Some r" "map_of (symm_buffer_regions s) a = Some (l, orig)"
    using r b d by (auto simp: map_of_eq_Some_iff)
  then have run: "ipc_unregister_symmetric a s = (True, s')"
    using tab(1) nz by (simp add: ipc_unregister_symmetric_def unregister_ipc_symm_region_def Let_def
        backend_unregister_symmetric_def UnmapLocalAlias_def s'_def recs'_def regs'_def n_def)
  have keys': "map fst recs' = filter (\<lambda>k. k \<noteq> a) (map fst (ipc_symm_records s))"
    by (simp add: recs'_def map_erase_keys reslot_keys)
  note erased = map_erase_unique [OF d(1) r] map_erase_unique [OF d(2) b]
  have size': "length recs' = length (map_erase a (ipc_symm_records s))"
    using arg_cong [OF keys', of length] map_erase_keys [of a "ipc_symm_records s"] by (metis length_map)
  have size: "length (ipc_symm_records s) = Suc (length recs')"
    using arg_cong [OF erased(1), of size] by (simp only: size' size_mset size_add_mset)
  have al': "alias_regions s' = map_erase a (alias_regions s)"
    using map_erase_map [of "\<lambda>_ v. fst v" a "symm_buffer_regions s"] by (simp add: alias_regions_def s'_def)
  show thesis
  proof (rule that [OF run])
    have "maps_inv s'"
    proof -
      have "(orig, l) \<in># mset (symm_orig_regions s)" using m b by (force simp: maps_inv_def)
      then have o: "(orig, l) \<in> set (symm_orig_regions s)" by simp
      have "regions_ok (alias_regions s')" "regions_ok (map_erase orig (symm_orig_regions s))"
        using m by (auto simp: al' maps_inv_def map_erase_def regions_ok_filter)
      moreover have "mset (map_erase orig (symm_orig_regions s))
          = mset (map (\<lambda>(a, l, orig). (orig, l)) (map_erase a (symm_buffer_regions s)))"
        using m erased(2) map_erase_unique [OF d(3) o] by (simp add: maps_inv_def)
      moreover have "0 \<notin> fst ` set (alias_regions s')" using m by (auto simp: al' maps_inv_def map_erase_def image_iff)
      ultimately show ?thesis
        using keys keys' by (simp add: maps_inv_def s'_def map_erase_keys)
    qed
    moreover have "table_inv s'"
    proof -
      have "\<forall>kr\<in>set (ipc_symm_records s). slot (snd kr) < n \<and>
          (\<exists>l. (fst kr, l) \<in> set (alias_regions s) \<and> table_regions tab ! slot (snd kr)
            = \<lparr>local_base = fst kr, region_length = l, peer_bases = rec_peer_bases (snd kr)\<rparr>)"
        using tab(6) by (simp add: record_published_def n_def)
      note sw = swap_last_table [OF d(1) tab(5) r tab(2) [symmetric, folded n_def] tab(4) [folded n_def] this recs'_def regs'_def]
      have len: "length recs' = n - 1"
        using size tab(2) by (simp add: n_def)
      have "record_published (tab\<lparr>table_regions := regs', table_count := n - 1\<rparr>) (alias_regions s') kr"
        if kr: "kr \<in> set recs'" for kr
      proof -
        have "fst kr \<in> set (map fst recs')" using kr by simp
        then have "fst kr \<noteq> a" unfolding keys' by simp
        then show ?thesis using bspec [OF sw(2) kr] by (auto simp: record_published_def al' map_erase_def)
      qed
      then show ?thesis using sw(1) len tab(3,4) by (auto simp: table_inv_def s'_def regs'_def n_def)
    qed
    moreover have "resources_inv s'"
    proof -
      have same: "mset (map g recs') = mset (map g (map_erase a (ipc_symm_records s)))"
        if "\<And>k r j. g (k, r\<lparr>slot := j\<rparr>) = g (k, r)" for g :: "u64 \<times> ipc_symm_record \<Rightarrow> 'z"
        using reslot_fields [of g, OF that] by (simp add: recs'_def del: mset_map)
      have "image_mset (\<lambda>(k, r). peers_but (self_index r) (rec_peer_bases r)) (mset recs')
          = image_mset (\<lambda>(k, r). peers_but (self_index r) (rec_peer_bases r)) (mset (map_erase a (ipc_symm_records s)))"
        using same [of "\<lambda>(k, r). peers_but (self_index r) (rec_peer_bases r)"] by simp
      moreover have "image_mset (local_handle \<circ> snd) (mset recs') = image_mset (local_handle \<circ> snd) (mset (map_erase a (ipc_symm_records s)))"
        using same [of "local_handle \<circ> snd"] by simp
      ultimately show ?thesis
        using res size by (simp add: resources_inv_def s'_def close_peers_def erased)
    qed
    ultimately show "symm_inv s'" by (simp add: symm_inv_def)
    show "map fst (ipc_symm_records s') = filter (\<lambda>k. k \<noteq> a) (map fst (ipc_symm_records s))"
      using keys' by (simp add: s'_def)
  qed
qed

section \<open>Properties\<close>

interpretation symm: invariant_system "\<lambda>s. \<exists>n. s = symm_init n" "symm_step num_pes my_pe dev" symm_inv for num_pes my_pe dev
proof unfold_locales
  fix s s' assume inv: "symm_inv s" and "symm_step num_pes my_pe dev s s'"
  from this(2) show "symm_inv s'"
  proof cases
    case (register e len addr)
    then show ?thesis using register_inv inv by blast
  next
    case (unregister addr)
    then show ?thesis
      using inv ipc_unregister_absent [OF inv] ipc_unregister_present [OF inv]
      by (cases "addr \<in> fst ` set (ipc_symm_records s)") (auto, metis snd_conv)
  qed
qed (auto simp: symm_init_inv)

abbreviation symm_reachable :: "nat \<Rightarrow> nat \<Rightarrow> nat \<Rightarrow> symm_state \<Rightarrow> bool" where
  "symm_reachable num_pes my_pe dev \<equiv> reachable (\<lambda>s. \<exists>n. s = symm_init n) (symm_step num_pes my_pe dev)"

text \<open>
  A concrete run: PE 0 of two registers the page at \<open>4096\<close>; the driver maps the alias at
  \<open>65536\<close> and the peer's memory at \<open>131072\<close>.
\<close>

definition demo_answers :: symm_answers where
  "demo_answers = \<lparr>vmm_ans = \<lparr>handle_type = 1, granularity = 4096, access_flags = Some 3, retain_ok = True,
       alloc_props = Some (0, 1), reserve = Some 65536, map_ok = True, get_device_ok = True, set_access_ok = True\<rparr>,
     lengths_of = [4096, 4096], registered_of = [True, True], export_handle = Some 7, exported_of = [True, True],
     gathered = [7, 8], open_handle = (\<lambda>h. if h = 8 then Some 131072 else None), opened_of = [True, True]\<rparr>"

definition demo_state :: symm_state where
  "demo_state = snd (ipc_register_symmetric demo_answers 2 0 0 4096 4096 (symm_init 4))"

lemma two_pes: "[0..<2] = [0, 1 :: nat]"
  by (simp add: upt_rec)

lemmas demo_defs = two_pes demo_answers_def symm_init_def alloc_ipc_symm_table_def ipc_register_symmetric_def
  backend_register_symmetric_def register_ipc_symm_region_def publish_region_def MapLocalAlias_def
  ValidateVMMRegistration_def symm_lengths_match_def all_pes_succeeded_def all_pes_agree_def Let_def
  region_overlaps_def from_lower_def before_lower_def hipMemHandleTypeNone_def hipMemAccessFlagsProtReadWrite_def

lemma demo_init_reachable: "symm_reachable 2 0 0 (symm_init 4)"
  by (rule reachable.intros) blast

lemma demo_answers_ok: "answers_ok demo_answers 2 0 4096 (symm_init 4)"
  by (simp add: answers_ok_def demo_answers_def symm_init_def alloc_ipc_symm_table_def alias_regions_def)

lemma demo_reachable: "symm_reachable 2 0 0 demo_state"
  unfolding demo_state_def
  by (rule reachable.intros(2) [OF demo_init_reachable symm_step.register [OF demo_answers_ok]])

lemma demo_register: "fst (ipc_register_symmetric demo_answers 2 0 0 4096 4096 (symm_init 4)) = Some 65536"
  by (simp add: demo_defs)

lemma demo_alias: "alias_regions demo_state = [(65536, 4096)]"
  by (simp add: alias_regions_def demo_state_def demo_defs)

lemma demo_records: "map_of (ipc_symm_records demo_state) 65536
    = Some \<lparr>slot = 0, self_index = 0, rec_peer_bases = [65536, 131072], local_handle = 7\<rparr>"
  by (simp add: demo_state_def demo_defs)

text \<open>C25. A symmetric registration is all or nothing. If it fails, at whatever step, on
  this PE or on another one, the state is exactly the one before the call: no handle stays
  open or exported, no alias stays mapped, no map or table entry is left. If it succeeds,
  the returned alias is the base of a new live region of the requested length.\<close>

theorem symm_register_all_or_nothing:
  assumes "symm_reachable num_pes my_pe dev s" "answers_ok e num_pes my_pe len s"
  shows "case ipc_register_symmetric e num_pes my_pe dev addr len s of
      (None, s') \<Rightarrow> s' = s
    | (Some va, s') \<Rightarrow> va \<notin> fst ` set (alias_regions s)
        \<and> set (alias_regions s') = insert (va, len) (set (alias_regions s))"
  using symm.reachable_inv [OF assms(1)] assms(2)
proof (cases rule: ipc_register_cases [where dev = dev and addr = addr])
  case (added va h bases tab s')
  have "alias_regions s' = map_put va len (alias_regions s)"
    using map_put_map [of fst va "(len, addr)" "symm_buffer_regions s"] added by (simp add: alias_regions_def)
  then show ?thesis using added set_map_put [of va "alias_regions s" len] alias_key [of va s] by simp
qed simp

theorem symm_register_all_or_nothing_witness:
  "symm_reachable 2 0 0 (symm_init 4)
   \<and> fst (ipc_register_symmetric demo_answers 2 0 0 4096 4096 (symm_init 4)) = Some 65536
   \<and> set (alias_regions (snd (ipc_register_symmetric demo_answers 2 0 0 4096 4096 (symm_init 4)))) =
       insert (65536, 4096) (set (alias_regions (symm_init 4)))"
  using symm_register_all_or_nothing [OF demo_init_reachable demo_answers_ok, of 4096] demo_init_reachable demo_register
  by (simp add: case_prod_beta)

lemma cleanup_fold:
  "symm_inv s \<Longrightarrow> map fst (ipc_symm_records s) = ks
   \<Longrightarrow> symm_inv (fold (\<lambda>a s. snd (ipc_unregister_symmetric a s)) ks s)
     \<and> ipc_symm_records (fold (\<lambda>a s. snd (ipc_unregister_symmetric a s)) ks s) = []"
proof (induction ks arbitrary: s)
  case (Cons a ks)
  have d: "distinct (a # ks)"
    using Cons.prems distinct_keys(1) [of s] by (auto simp: symm_inv_def maps_inv_def)
  have "a \<in> fst ` set (ipc_symm_records s)" using Cons.prems(2) by (metis list.set_intros(1) list.set_map)
  then obtain s' where s': "ipc_unregister_symmetric a s = (True, s')" "symm_inv s'"
    "map fst (ipc_symm_records s') = filter (\<lambda>k. k \<noteq> a) (map fst (ipc_symm_records s))"
    using ipc_unregister_present [OF Cons.prems(1)] by metis
  moreover have "filter (\<lambda>k. k \<noteq> a) (a # ks) = ks" using d by (auto intro: filter_True)
  ultimately show ?case using Cons by simp
qed simp

text \<open>Every resource the process holds belongs to a live registration in every reachable
  state, and the cleanup of the backend returns all of them: afterwards no address range is
  reserved or mapped, no IPC handle is open or exported and no device array is left.\<close>

theorem symm_resources_balanced:
  assumes "symm_reachable num_pes my_pe dev s"
  shows "resources_inv s \<and> (let s' = cleanup_symm_registration s in
      retained (vmm s') = 0 \<and> reserved (vmm s') = {#} \<and> mapped (vmm s') = {#} \<and> opened s' = {#}
      \<and> exported s' = {#} \<and> dev_arrays s' = 0 \<and> symm_buffer_regions s' = [] \<and> symm_orig_regions s' = []
      \<and> symm_table s' = None)"
proof -
  have inv: "symm_inv s" by (rule symm.reachable_inv [OF assms])
  from cleanup_fold [OF this refl]
  have "maps_inv s'' \<and> resources_inv s'' \<and> ipc_symm_records s'' = []"
    if "s'' = fold (\<lambda>a s. snd (ipc_unregister_symmetric a s)) (map fst (ipc_symm_records s)) s" for s''
    using that by (simp add: symm_inv_def)
  then show ?thesis
    using inv by (auto simp: cleanup_symm_registration_def Let_def symm_inv_def maps_inv_def resources_inv_def)
qed

theorem symm_resources_balanced_witness:
  "opened demo_state = {#131072#} \<and> opened (cleanup_symm_registration demo_state) = {#}"
proof -
  have "opened demo_state = {#131072#}" by (simp add: demo_state_def demo_defs)
  then show ?thesis using symm_resources_balanced [OF demo_reachable] by (simp add: Let_def)
qed

lemma table_regions_live:
  assumes "table_inv s" "symm_table s = Some tab"
  shows "set (take (table_count tab) (table_regions tab))
    = {\<lparr>local_base = k, region_length = l, peer_bases = rec_peer_bases r\<rparr> | k l r.
         (k, r) \<in> set (ipc_symm_records s) \<and> (k, l) \<in> set (alias_regions s)
         \<and> table_regions tab ! slot r = \<lparr>local_base = k, region_length = l, peer_bases = rec_peer_bases r\<rparr>
         \<and> slot r < table_count tab}"
    (is "?L = ?R")
proof (intro set_eqI iffI)
  let ?n = "table_count tab" and ?slots = "map (slot \<circ> snd) (ipc_symm_records s)"
  have tab: "?n = length (ipc_symm_records s)" "?n \<le> length (table_regions tab)" "distinct ?slots"
    "\<forall>kr\<in>set (ipc_symm_records s). record_published tab (alias_regions s) kr"
    using assms by (auto simp: table_inv_def)
  have "set ?slots = {..<?n}"
  proof (rule card_subset_eq)
    show "set ?slots \<subseteq> {..<?n}" using tab(4) by (auto simp: record_published_def)
    show "card (set ?slots) = card {..<?n}" using distinct_card [OF tab(3)] tab(1) by simp
  qed simp
  fix x assume "x \<in> ?L"
  then obtain i where i: "i < ?n" "x = table_regions tab ! i" by (auto simp: in_set_conv_nth)
  then have "i \<in> set ?slots" using \<open>set ?slots = {..<?n}\<close> by blast
  then obtain k r where "(k, r) \<in> set (ipc_symm_records s)" "slot r = i" by auto
  then show "x \<in> ?R" using tab(4) i by (fastforce simp: record_published_def)
next
  fix x assume "x \<in> ?R"
  moreover have "table_count tab \<le> length (table_regions tab)" using assms by (auto simp: table_inv_def)
  ultimately show "x \<in> ?L" by (force simp: in_set_conv_nth)
qed

lemma find_region_cases:
  "(find_region a rs = None \<and> (\<forall>r\<in>set rs. \<not> (local_base r \<le> a \<and> a < local_base r + region_length r)))
   \<or> (\<exists>r\<in>set rs. find_region a rs = Some r \<and> local_base r \<le> a \<and> a < local_base r + region_length r)"
  by (induction rs) auto

lemma in_region: "region_ok (k, l) \<Longrightarrow> k \<le> a \<and> a < k + l \<longleftrightarrow> unat a \<in> region_bytes (k, l)"
  using unat_add_region [of "(k, l)"] by (simp add: region_bytes_def word_le_nat_alt word_less_nat_alt)

text \<open>The device translates symmetric addresses as registered. An address of the heap is
  moved to the heap mapping of the peer; an address inside a live alias is moved, at the same
  offset, to the mapping of that peer recorded when the alias was registered; every other
  address gives the null pointer. This holds after any sequence of registrations and
  unregistrations, although unregistration moves table entries.\<close>

theorem ipcPeerPtr_correct:
  assumes "symm_reachable num_pes my_pe dev s"
  shows "(addr - hb < hs \<longrightarrow> ipcPeerPtr hb hs bases s addr pe = Some (bases ! pe + (addr - hb)))
    \<and> (\<not> addr - hb < hs \<longrightarrow>
        (\<forall>k l. (k, l) \<in> set (alias_regions s) \<longrightarrow> unat addr \<in> region_bytes (k, l) \<longrightarrow>
           (\<exists>r. map_of (ipc_symm_records s) k = Some r
              \<and> ipcPeerPtr hb hs bases s addr pe = Some (rec_peer_bases r ! pe + (addr - k))))
      \<and> ((\<forall>kl\<in>set (alias_regions s). unat addr \<notin> region_bytes kl) \<longrightarrow> ipcPeerPtr hb hs bases s addr pe = None))"
proof -
  have inv: "symm_inv s" by (rule symm.reachable_inv [OF assms])
  then obtain tab where tab: "symm_table s = Some tab" by (auto simp: symm_inv_def table_inv_def)
  have al: "regions_ok (alias_regions s)" and t: "table_inv s" and m: "maps_inv s"
    using inv by (auto simp: symm_inv_def maps_inv_def)
  have ok: "region_ok kl" if "kl \<in> set (alias_regions s)" for kl using al that by (simp add: regions_ok_def)
  have dist: "distinct (map fst (ipc_symm_records s))" using distinct_keys(1) [OF m] m by (simp add: maps_inv_def)
  let ?rs = "take (table_count tab) (table_regions tab)"
  note live = table_regions_live [OF t tab]
  have none: "ipcPeerPtr hb hs bases s addr pe = None"
    if "\<not> addr - hb < hs" "\<forall>kl\<in>set (alias_regions s). unat addr \<notin> region_bytes kl"
  proof -
    have "find_region addr ?rs = None"
      using find_region_cases [of addr ?rs] that(2) in_region [OF ok] unfolding live by fastforce
    then show ?thesis using that(1) tab by (simp add: ipcPeerPtr_def)
  qed
  have some: "\<exists>r. map_of (ipc_symm_records s) k = Some r
      \<and> ipcPeerPtr hb hs bases s addr pe = Some (rec_peer_bases r ! pe + (addr - k))"
    if h: "\<not> addr - hb < hs" and kl: "(k, l) \<in> set (alias_regions s)" "unat addr \<in> region_bytes (k, l)" for k l
  proof -
    have "k \<in> fst ` set (alias_regions s)" using kl(1) by (rule rev_image_eqI) simp
    then have "k \<in> set (map fst (ipc_symm_records s))" using m alias_key by (simp add: maps_inv_def)
    then obtain r where r: "(k, r) \<in> set (ipc_symm_records s)" by auto
    then have "record_published tab (alias_regions s) (k, r)" using t tab by (auto simp: table_inv_def)
    then obtain l' where l': "(k, l') \<in> set (alias_regions s)" "slot r < table_count tab"
      "table_regions tab ! slot r = \<lparr>local_base = k, region_length = l', peer_bases = rec_peer_bases r\<rparr>"
      by (auto simp: record_published_def)
    have "l' = l" using region_keys_inj [OF al l'(1) kl(1)] by simp
    then have "\<lparr>local_base = k, region_length = l, peer_bases = rec_peer_bases r\<rparr> \<in> set ?rs"
      using r kl(1) l' unfolding live by blast
    moreover have "k \<le> addr \<and> addr < k + l" using in_region [OF ok [OF kl(1)]] kl(2) by blast
    ultimately obtain q where q: "q \<in> set ?rs" "find_region addr ?rs = Some q"
      "local_base q \<le> addr" "addr < local_base q + region_length q"
      using find_region_cases [of addr ?rs] by fastforce
    then obtain k' l'' r' where q': "q = \<lparr>local_base = k', region_length = l'', peer_bases = rec_peer_bases r'\<rparr>"
      "(k', r') \<in> set (ipc_symm_records s)" "(k', l'') \<in> set (alias_regions s)" unfolding live by blast
    have "k' \<le> addr \<and> addr < k' + l''" using q(3,4) q'(1) by simp
    then have "unat addr \<in> region_bytes (k', l'')" using in_region [OF ok [OF q'(3)]] by blast
    then have "k' = k" using regions_disjoint [OF al q'(3) kl(1)] kl(2) by blast
    then have "map_of (ipc_symm_records s) k = Some r'" using q'(2) dist by (simp add: map_of_eq_Some_iff)
    then show ?thesis using h tab q q' \<open>k' = k\<close> by (simp add: ipcPeerPtr_def)
  qed
  have heap: "addr - hb < hs \<Longrightarrow> ipcPeerPtr hb hs bases s addr pe = Some (bases ! pe + (addr - hb))"
    by (simp add: ipcPeerPtr_def)
  show ?thesis using heap some none by blast
qed

theorem ipcPeerPtr_correct_witness:
  "ipcPeerPtr 1048576 4096 [] demo_state 65546 1 = Some 131082"
proof -
  have "unat (65546 :: u64) \<in> region_bytes (65536, 4096)" by (simp add: region_bytes_def)
  then show ?thesis
    using ipcPeerPtr_correct [OF demo_reachable, of 65546 1048576 4096 "[]" 1] demo_alias demo_records by simp
qed

end
