(* ===== verification/Ipc_Policy.thy ===== *)
theory Ipc_Policy
  imports Lanes
begin

text \<open>
  Which PEs are reached over shared memory.

  \<^item> \<open>matchIpcCapableRanks\<close> of \<open>memfabric/pod_detection.cpp\<close>;
  \<^item> \<open>ipcDetectPattern\<close> and the host and device versions of \<open>isIpcAvailable\<close> of
    \<open>ipc_policy.hpp\<close>, with the constant memory that \<open>constmem.cpp\<close> fills for the device.

  The host keeps the list of reachable ranks; the device tests a rank by arithmetic when the
  list is an arithmetic progression, on 32-bit unsigned numbers.
\<close>

record pod_ids =
  physicalPodId :: "u8 list"
  virtualPodId :: u32

definition matchIpcCapableRanks :: "int \<Rightarrow> pod_ids list \<Rightarrow> int list" where
  "matchIpcCapableRanks rank allPodIds =
     (if rank < 0 \<or> rank \<ge> int (length allPodIds) then []
      else let my = allPodIds ! nat rank
           in [int i. i \<leftarrow> [0..<length allPodIds],
                 physicalPodId (allPodIds ! i) = physicalPodId my \<and> virtualPodId (allPodIds ! i) = virtualPodId my])"

section \<open>Host side\<close>

record ipc_impl =
  shm_size :: nat
  pes_with_ipc_avail :: "int list option"
  ipc_first_pe :: int
  ipc_stride :: int

fun follows_stride :: "int \<Rightarrow> int \<Rightarrow> nat \<Rightarrow> int list \<Rightarrow> bool" where
  "follows_stride first stride i [] = True"
| "follows_stride first stride i (r # rs) =
     (if r \<noteq> first + stride * int i then False else follows_stride first stride (i + 1) rs)"

definition ipcDetectPattern :: "int list \<Rightarrow> ipc_impl \<Rightarrow> ipc_impl" where
  "ipcDetectPattern host_ranks s =
     (let s = s\<lparr>ipc_stride := 0\<rparr> in
      if host_ranks = [] then s
      else let first = host_ranks ! 0; s = s\<lparr>ipc_first_pe := first\<rparr>;
               stride = (if length host_ranks > 1 then host_ranks ! 1 - host_ranks ! 0 else 1)
           in if stride \<le> 0 then s
              else if \<not> follows_stride first stride 0 host_ranks then s
              else s\<lparr>ipc_stride := stride\<rparr>)"

text \<open>The part of \<open>ipcHostInit\<close> after the ranks are known.\<close>

definition ipcHostInit_ranks :: "bool \<Rightarrow> int list \<Rightarrow> ipc_impl" where
  "ipcHostInit_ranks disable_ipc ranks =
     (let s = \<lparr>shm_size = length ranks, pes_with_ipc_avail = None, ipc_first_pe = 0, ipc_stride = 0\<rparr>
      in if disable_ipc then s else (ipcDetectPattern ranks s)\<lparr>pes_with_ipc_avail := Some ranks\<rparr>)"

fun scan_ranks :: "int \<Rightarrow> nat \<Rightarrow> int list \<Rightarrow> nat option" where
  "scan_ranks target i [] = None"
| "scan_ranks target i (r # rs) = (if r = target then Some i else scan_ranks target (i + 1) rs)"

definition isIpcAvailable_host :: "ipc_impl \<Rightarrow> int \<Rightarrow> nat option" where
  "isIpcAvailable_host s target =
     (case pes_with_ipc_avail s of None \<Rightarrow> None | Some ranks \<Rightarrow> scan_ranks target 0 (take (shm_size s) ranks))"

section \<open>Device side\<close>

record ipc_constmem =
  const_first_pe :: int
  const_stride :: int
  const_shm_size :: nat

definition init_constant_memory :: "ipc_impl \<Rightarrow> ipc_constmem" where
  "init_constant_memory s =
     \<lparr>const_first_pe = ipc_first_pe s, const_stride = ipc_stride s,
      const_shm_size = (if pes_with_ipc_avail s \<noteq> None then shm_size s else 0)\<rparr>"

definition isIpcAvailable_irregular :: "ipc_impl \<Rightarrow> int \<Rightarrow> nat option" where
  "isIpcAvailable_irregular s target =
     (case pes_with_ipc_avail s of None \<Rightarrow> None | Some ranks \<Rightarrow> scan_ranks target 0 (take (shm_size s) ranks))"

definition isIpcAvailable_strided :: "ipc_constmem \<Rightarrow> u32 \<Rightarrow> int \<Rightarrow> nat option" where
  "isIpcAvailable_strided c offset stride =
     (let idx = trunc_div (sint offset) stride
      in if (word_of_int idx :: u32) < word_of_nat (const_shm_size c) \<and> offset = word_of_int (idx * stride)
         then Some (nat idx) else None)"

definition isIpcAvailable :: "ipc_constmem \<Rightarrow> ipc_impl \<Rightarrow> int \<Rightarrow> nat option" where
  "isIpcAvailable c s target =
     (if const_shm_size c = 0 then None
      else let offset = word_of_int (target - const_first_pe c) :: u32; stride = const_stride c
           in if stride = 1
              then (if offset < word_of_nat (const_shm_size c) then Some (unat offset) else None)
              else if stride > 1 then isIpcAvailable_strided c offset stride
              else isIpcAvailable_irregular s target)"

section \<open>Arithmetic test and list scan agree\<close>

lemma follows_stride_iff:
  "follows_stride first stride i rs \<longleftrightarrow> rs = map (\<lambda>j. first + stride * int j) [i..<i + length rs]"
proof (induction first stride i rs rule: follows_stride.induct)
  case (2 first stride i r rs)
  have "[i..<i + length (r # rs)] = i # [i + 1..<i + 1 + length rs]" 
    by (simp add: upt_conv_Cons del: upt_Suc)
  then show ?case using 2 by (auto simp del: upt_Suc)
qed simp

lemma scan_ranks_progression:
  assumes "0 < stride"
  shows "scan_ranks target i (map (\<lambda>j. first + stride * int j) [i..<n])
     = (if \<exists>j. i \<le> j \<and> j < n \<and> target = first + stride * int j
        then Some (nat ((target - first) div stride)) else None)"
proof (induction "n - i" arbitrary: i)
  case (Suc k)
  then have up: "[i..<n] = i # [i + 1..<n]" by (simp add: upt_conv_Cons)
  show ?case
  proof (cases "target = first + stride * int i")
    case True
    moreover have "i < n" using Suc(2) by simp
    ultimately have "\<exists>j. i \<le> j \<and> j < n \<and> target = first + stride * int j" by blast
    moreover have "(target - first) div stride = int i" using True assms by simp
    ultimately show ?thesis using True by (simp add: up)
  next
    case False
    have "(\<exists>j. i \<le> j \<and> j < n \<and> target = first + stride * int j)
        \<longleftrightarrow> (\<exists>j. i + 1 \<le> j \<and> j < n \<and> target = first + stride * int j)"
      using False by (auto simp: Suc_le_eq le_less)
    then show ?thesis using False Suc(1) [of "i + 1"] Suc(2) by (simp add: up)
  qed
qed simp

lemma sint_u32_small: "- (2 ^ 31) \<le> d \<Longrightarrow> d < 2 ^ 31 \<Longrightarrow> sint (word_of_int d :: u32) = d"
  by (simp add: sint_sbintrunc' signed_take_bit_int_eq_self)

lemma uint_u32_small: "0 \<le> d \<Longrightarrow> d < 2 ^ 32 \<Longrightarrow> uint (word_of_int d :: u32) = d"
  by (simp add: uint_word_of_int)

lemma uint_u32_neg: "- (2 ^ 31) \<le> d \<Longrightarrow> d < 0 \<Longrightarrow> uint (word_of_int d :: u32) = 2 ^ 32 + d"
  using mod_pos_pos_trivial [of "d + 2 ^ 32" "2 ^ 32"] by (simp add: uint_word_of_int)

lemma int_div_le_self: "0 \<le> a \<Longrightarrow> 0 < b \<Longrightarrow> a div b \<le> (a :: int)"
  using zdiv_mono2 [of a 1 b] by simp

lemma trunc_div_neg: "d < 0 \<Longrightarrow> 0 < s \<Longrightarrow> trunc_div d s = - (- d div s)"
  by (simp add: trunc_div_def)

text \<open>C32. The device's test for shared-memory reachability gives the same answer, and the same
  local index, as the host's search through the list of reachable ranks: for consecutive,
  strided and irregular lists, for a disabled IPC path, and for targets below the first rank,
  whose 32-bit offset wraps around.\<close>

theorem device_ipc_matches_host:
  assumes ranks: "\<forall>r\<in>set ranks. 0 \<le> r \<and> r < 2 ^ 31" and target: "0 \<le> target" "target < 2 ^ 31"
    and len: "length ranks < 2 ^ 31"
  shows "isIpcAvailable (init_constant_memory (ipcHostInit_ranks dis ranks)) (ipcHostInit_ranks dis ranks) target
       = isIpcAvailable_host (ipcHostInit_ranks dis ranks) target"
proof -
  let ?s = "ipcHostInit_ranks dis ranks"
  let ?n = "length ranks"
  show ?thesis
  proof (cases "dis \<or> ranks = [] \<or> ipc_stride ?s \<le> 0")
    case True
    then show ?thesis
      by (auto simp: isIpcAvailable_def isIpcAvailable_host_def isIpcAvailable_irregular_def init_constant_memory_def
          ipcHostInit_ranks_def ipcDetectPattern_def Let_def)
  next
    case False
    define first where "first = ranks ! 0"
    define stride where "stride = ipc_stride ?s"
    have s: "ipc_first_pe ?s = first" "pes_with_ipc_avail ?s = Some ranks" "shm_size ?s = ?n" "0 < stride"
      and prog: "ranks = map (\<lambda>j. first + stride * int j) [0..<?n]"
      using False by (auto simp: ipcHostInit_ranks_def ipcDetectPattern_def Let_def first_def stride_def
          follows_stride_iff split: if_splits)
    have host: "isIpcAvailable_host ?s target = (if \<exists>j<?n. target = first + stride * int j
        then Some (nat ((target - first) div stride)) else None)"
      using scan_ranks_progression [OF s(4), of target 0 first ?n] s prog by (simp add: isIpcAvailable_host_def)
    have first: "0 \<le> first" "first < 2 ^ 31" using ranks False by (auto simp: first_def)
    define d where "d = target - first"
    have d: "- (2 ^ 31) \<le> d" "d < 2 ^ 31" using first target by (auto simp: d_def)
    have found: "(\<exists>j<?n. target = first + stride * int j) \<longleftrightarrow> 0 \<le> d \<and> d div stride < int ?n \<and> d mod stride = 0"
    proof
      assume "\<exists>j<?n. target = first + stride * int j"
      then show "0 \<le> d \<and> d div stride < int ?n \<and> d mod stride = 0" using s(4) by (auto simp: d_def)
    next
      assume *: "0 \<le> d \<and> d div stride < int ?n \<and> d mod stride = 0"
      then have "0 \<le> d div stride" using s(4) by (simp add: pos_imp_zdiv_nonneg_iff)
      then show "\<exists>j<?n. target = first + stride * int j"
        using * by (intro exI [of _ "nat (d div stride)"]) (auto simp: d_def mult_div_mod_eq)
    qed
    have size: "uint (word_of_nat ?n :: u32) = int ?n"
      using uint_u32_small [of "int ?n"] len by simp
    have c: "const_shm_size (init_constant_memory ?s) = ?n" "const_first_pe (init_constant_memory ?s) = first"
      "const_stride (init_constant_memory ?s) = stride" using s by (simp_all add: init_constant_memory_def stride_def)
    have dev: "isIpcAvailable (init_constant_memory ?s) ?s target
       = (if stride = 1 then (if (word_of_int d :: u32) < word_of_nat ?n then Some (unat (word_of_int d :: u32)) else None)
          else isIpcAvailable_strided (init_constant_memory ?s) (word_of_int d) stride)"
      using s(4) False c by (auto simp: isIpcAvailable_def Let_def d_def)
    show ?thesis
    proof (cases "0 \<le> d")
      case True
      have u: "uint (word_of_int d :: u32) = d" using True d by (simp add: uint_u32_small)
      have q: "0 \<le> d div stride" "d div stride \<le> d" "d div stride * stride \<le> d" "0 \<le> d div stride * stride"
        using s(4) True pos_mod_sign [of stride d] zmod_le_nonneg_dividend [of d stride]
        by (auto simp: pos_imp_zdiv_nonneg_iff int_div_le_self minus_mod_eq_div_mult [symmetric])
      have uq1: "uint (word_of_int (d div stride) :: u32) = d div stride"
        by (rule uint_u32_small) (use q d in simp_all)
      have uq2: "uint (word_of_int (d div stride * stride) :: u32) = d div stride * stride"
        by (rule uint_u32_small) (use q d in simp_all)
      have eq: "(word_of_int d :: u32) = word_of_int (d div stride * stride) \<longleftrightarrow> d mod stride = 0"
        unfolding word_uint_eq_iff u uq2 using minus_mod_eq_div_mult [of d stride] by linarith
      have "isIpcAvailable_strided (init_constant_memory ?s) (word_of_int d) stride
          = (if d div stride < int ?n \<and> d mod stride = 0 then Some (nat (d div stride)) else None)"
        unfolding isIpcAvailable_strided_def Let_def c sint_u32_small [OF d] trunc_div_nonneg [OF True s(4)] eq
        by (simp add: word_less_alt uq1 size)
      moreover have "unat (word_of_int d :: u32) = nat d" using u by (metis nat_uint_eq)
      ultimately show ?thesis
        unfolding dev host found d_def [symmetric] using True by (auto simp: word_less_alt u size)
    next
      case False
      then have u: "uint (word_of_int d :: u32) = 2 ^ 32 + d" using d by (simp add: uint_u32_neg)
      have q: "0 \<le> - d div stride" "- d div stride \<le> - d"
        using s(4) False by (auto simp: pos_imp_zdiv_nonneg_iff int_div_le_self)
      have "isIpcAvailable_strided (init_constant_memory ?s) (word_of_int d) stride = None"
      proof (cases "- d div stride = 0")
        case True
        have "(word_of_int d :: u32) \<noteq> 0" using u d by (auto simp: word_uint_eq_iff)
        then show ?thesis using True trunc_div_neg [of d stride] False s(4)
          by (simp add: isIpcAvailable_strided_def Let_def sint_u32_small [OF d])
      next
        case nz: False
        then have "uint (word_of_int (- (- d div stride)) :: u32) = 2 ^ 32 - (- d div stride)"
          using uint_u32_neg [of "- (- d div stride)"] q d by simp
        then show ?thesis using q d len trunc_div_neg [of d stride] False s(4)
          by (simp add: isIpcAvailable_strided_def Let_def sint_u32_small [OF d] word_less_alt size c)
      qed
      then show ?thesis
        unfolding dev host found using False d len by (auto simp: word_less_alt u size)
    qed
  qed
qed

theorem device_ipc_matches_host_witness:
  "isIpcAvailable (init_constant_memory (ipcHostInit_ranks False [3, 5, 7])) (ipcHostInit_ranks False [3, 5, 7]) 7 = Some 2
   \<and> isIpcAvailable (init_constant_memory (ipcHostInit_ranks False [3, 5, 7])) (ipcHostInit_ranks False [3, 5, 7]) 1 = None"
  using device_ipc_matches_host [of "[3, 5, 7]" 7 False] device_ipc_matches_host [of "[3, 5, 7]" 1 False]
  by (simp add: isIpcAvailable_host_def ipcHostInit_ranks_def ipcDetectPattern_def)

text \<open>The ranks of one pod see the same list, and every rank is in its own list.\<close>

lemma pod_ranks_agree:
  assumes "i < length ids" "int j \<in> set (matchIpcCapableRanks (int i) ids)"
  shows "matchIpcCapableRanks (int j) ids = matchIpcCapableRanks (int i) ids"
    and "int i \<in> set (matchIpcCapableRanks (int i) ids)"
  using assms by (auto simp: matchIpcCapableRanks_def Let_def)

section \<open>Copies by the SDMA engines\<close>

text \<open>
  The copy engines of \<open>sdma_policy.hpp\<close> and the operations of \<open>IpcSdmaImpl\<close> in
  \<open>ipc_policy.hpp\<close>. A queue per peer and channel has index
  \<open>local_pe * numChannels + channel\<close>; \<open>pending\<close> is the set of queues with a submitted and not
  drained copy; a bit of \<open>sdmaDirty\<close> marks a queue a later fence has to drain.
\<close>

record sdma_impl =
  sdmaEnabled :: bool
  sdmaThreshold :: nat
  numChannels :: nat
  sdmaChannel :: nat
  sdmaChannelStride :: nat
  sdmaDirty :: u64
  has_handle :: "nat \<Rightarrow> bool"
  pending :: "nat set"

definition assignSdmaChannel :: "bool \<Rightarrow> nat \<Rightarrow> sdma_impl \<Rightarrow> sdma_impl" where
  "assignSdmaChannel spread_channels ctx_id s =
     (if numChannels s > 0
      then s\<lparr>sdmaChannel := ctx_id mod numChannels s,
             sdmaChannelStride := (if ctx_id = 0 \<or> spread_channels then 1 else 0)\<rparr>
      else s)"

definition effective_channel :: "sdma_impl \<Rightarrow> nat \<Rightarrow> nat" where
  "effective_channel s wf_id = (sdmaChannel s + sdmaChannelStride s * wf_id) mod numChannels s"

definition sdma_index :: "sdma_impl \<Rightarrow> nat \<Rightarrow> nat \<Rightarrow> nat" where
  "sdma_index s wf_id local_pe = local_pe * numChannels s + effective_channel s wf_id"

definition sdmaCopy :: "bool \<Rightarrow> nat \<Rightarrow> nat \<Rightarrow> sdma_impl \<Rightarrow> nat option \<times> sdma_impl" where
  "sdmaCopy blocking wf_id local_pe s =
     (let idx = sdma_index s wf_id local_pe in
      if \<not> has_handle s idx then (None, s)
      else let s = s\<lparr>pending := insert idx (pending s)\<rparr>
           in (Some idx, if blocking then s else s\<lparr>sdmaDirty := sdmaDirty s OR push_bit idx 1\<rparr>))"

definition drain :: "nat \<Rightarrow> sdma_impl \<Rightarrow> sdma_impl" where
  "drain idx s = (if has_handle s idx then s\<lparr>pending := pending s - {idx}\<rparr> else s)"

definition pe_mask :: "sdma_impl \<Rightarrow> nat \<Rightarrow> u64" where
  "pe_mask s local_pe = push_bit (local_pe * numChannels s) (push_bit (numChannels s) 1 - 1)"

text \<open>\<open>sdmaQuiet\<close> drains the marked channels of one peer.\<close>

definition sdmaQuiet :: "nat \<Rightarrow> sdma_impl \<Rightarrow> sdma_impl" where
  "sdmaQuiet local_pe s =
     (let m = pe_mask s local_pe; was_dirty = sdmaDirty s AND m; base = local_pe * numChannels s;
          s1 = s\<lparr>sdmaDirty := sdmaDirty s AND NOT m\<rparr>
      in if was_dirty = 0 then s1
         else fold (\<lambda>ch s. if was_dirty AND push_bit (base + ch) 1 \<noteq> 0 then drain (base + ch) s else s)
                [0..<numChannels s] s1)"

text \<open>The loop of \<open>sdmaQuietAll\<close>: drain the lowest set bit until none is left.\<close>

lemma bit_ctzT:
  assumes "w \<noteq> 0"
  shows "bit (w :: 'l::len word) (ctzT w)"
proof -
  obtain i where "bit w i" using assms by (auto simp: bit_eq_iff)
  then have "bit w (LEAST i. bit w i)" by (rule LeastI)
  moreover have "countr_zero w = (LEAST i. bit w i)"
    using calculation not_less_Least by (intro countr_zero_eq) blast+
  ultimately show ?thesis using assms by (simp add: countr_zero_def ctzT_fallback_def)
qed

lemma clear_bit_bits: "{i. bit (w AND NOT (push_bit b 1)) i} = {i. bit (w :: 'l::len word) i} - {b}"
proof -
  have "bit (w AND NOT (push_bit b 1)) i \<longleftrightarrow> bit w i \<and> i \<noteq> b" for i
    using bit_imp_le_length [of w i] by (auto simp: bit_simps)
  then show ?thesis by auto
qed

function quiet_bits :: "u64 \<Rightarrow> sdma_impl \<Rightarrow> sdma_impl" where
  "quiet_bits dirty s =
     (if dirty = 0 then s
      else let b = ctzT dirty in quiet_bits (dirty AND NOT (push_bit b 1)) (drain b s))"
  by pat_completeness auto
termination
proof (relation "measure (\<lambda>(d, _). card {i. bit d i})", goal_cases)
  case (2 dirty s b)
  then show ?case
    using bit_ctzT [of dirty] by (simp only: in_measure prod.case clear_bit_bits) (simp add: card_Diff1_less del: card_Diff_insert)
qed simp

definition sdmaQuietAll :: "sdma_impl \<Rightarrow> sdma_impl" where
  "sdmaQuietAll s = quiet_bits (sdmaDirty s) (s\<lparr>sdmaDirty := 0\<rparr>)"

subsection \<open>Operations of the IPC policy\<close>

definition sdma_ipcCopy :: "bool \<Rightarrow> nat \<Rightarrow> nat \<Rightarrow> nat \<Rightarrow> sdma_impl \<Rightarrow> sdma_impl result" where
  "sdma_ipcCopy blocking size1 wf_id local_pe s =
     (if sdmaEnabled s \<and> size1 \<ge> sdmaThreshold s
      then (case sdmaCopy blocking wf_id local_pe s of
              (None, _) \<Rightarrow> Inl Assert_fail
            | (Some idx, s') \<Rightarrow> Inr (if blocking then drain idx s' else s'))
      else Inr s)"

definition sdma_ipcFence_all :: "sdma_impl \<Rightarrow> sdma_impl" where
  "sdma_ipcFence_all s = (if sdmaEnabled s \<and> sdmaDirty s \<noteq> 0 then sdmaQuietAll s else s)"

definition sdma_ipcFence_pe :: "nat \<Rightarrow> sdma_impl \<Rightarrow> sdma_impl" where
  "sdma_ipcFence_pe local_pe s =
     (if sdmaEnabled s then (if sdmaDirty s AND pe_mask s local_pe \<noteq> 0 then sdmaQuiet local_pe s else s) else s)"

subsection \<open>A fence drains what it has to\<close>

definition pe_queues :: "sdma_impl \<Rightarrow> nat \<Rightarrow> nat set" where
  "pe_queues s local_pe = {local_pe * numChannels s..<local_pe * numChannels s + numChannels s}"

definition sdma_inv :: "nat \<Rightarrow> sdma_impl \<Rightarrow> bool" where
  "sdma_inv pes s \<longleftrightarrow> 0 < numChannels s \<and> pes * numChannels s \<le> 64
     \<and> (\<forall>idx\<in>pending s. sdmaEnabled s \<and> has_handle s idx \<and> bit (sdmaDirty s) idx)"

lemma sdma_index_queue: "0 < numChannels s \<Longrightarrow> sdma_index s wid pe \<in> pe_queues s pe"
  by (simp add: sdma_index_def pe_queues_def effective_channel_def)

lemma pe_queues_less: "pe < pes \<Longrightarrow> idx \<in> pe_queues s pe \<Longrightarrow> idx < pes * numChannels s"
  unfolding pe_queues_def by (metis Suc_leI atLeastLessThan_iff mult_Suc mult_le_mono1 add.commute order.strict_trans2)

lemma bit_pe_mask: "pe < pes \<Longrightarrow> pes * numChannels s \<le> 64 \<Longrightarrow> bit (pe_mask s pe) i \<longleftrightarrow> i \<in> pe_queues s pe"
proof -
  assume a: "pe < pes" "pes * numChannels s \<le> 64"
  have "push_bit (numChannels s) 1 - 1 = (mask (numChannels s) :: u64)"
    by (simp add: mask_eq_exp_minus_1 push_bit_eq_mult)
  then have "pe_mask s pe = push_bit (pe * numChannels s) (mask (numChannels s))" by (simp add: pe_mask_def)
  then show ?thesis
    using pe_queues_less [OF a(1), of i s] a(2) by (auto simp: pe_queues_def bit_simps)
qed

lemma and_push_bit: "w AND push_bit i 1 \<noteq> 0 \<longleftrightarrow> bit (w :: 'l::len word) i"
proof -
  have a: "bit (w AND push_bit i 1) n \<longleftrightarrow> bit w n \<and> n = i" for n
    using bit_imp_le_length [of w n] by (auto simp: bit_simps)
  have b: "w AND push_bit i 1 = 0 \<longleftrightarrow> (\<forall>n. \<not> bit (w AND push_bit i 1) n)"
    by (metis bit_0_eq bit_eqI bot_apply bot_bool_def)
  show ?thesis unfolding b a by simp
qed

lemma drain_fields [simp]:
  "sdmaEnabled (drain i s) = sdmaEnabled s" "has_handle (drain i s) = has_handle s"
  "sdmaDirty (drain i s) = sdmaDirty s" "numChannels (drain i s) = numChannels s"
  by (simp_all add: drain_def)

lemma pending_drain [simp]: "pending (drain i s) = pending s - {j. j = i \<and> has_handle s j}"
  by (auto simp: drain_def)

lemma fold_drain:
  "fold (\<lambda>ch s. if P (base + ch) then drain (base + ch) s else s) chs s
     = s\<lparr>pending := pending s - {base + ch | ch. ch \<in> set chs \<and> P (base + ch) \<and> has_handle s (base + ch)}\<rparr>"
proof (induction chs arbitrary: s)
  case (Cons ch chs)
  show ?case using Cons by (auto simp: drain_def intro!: arg_cong [where f = "\<lambda>p. s\<lparr>pending := p\<rparr>"])
qed simp

lemma quiet_bits_eq: "quiet_bits d s = s\<lparr>pending := pending s - {i. bit d i \<and> has_handle s i}\<rparr>"
proof (induction d s rule: quiet_bits.induct)
  case (1 dirty s)
  show ?case
  proof (cases "dirty = 0")
    case False
    let ?b = "ctzT dirty"
    have "quiet_bits dirty s = quiet_bits (dirty AND NOT (push_bit ?b 1)) (drain ?b s)"
      using False by (subst quiet_bits.simps) (simp add: Let_def)
    also have "\<dots> = (drain ?b s)\<lparr>pending := pending (drain ?b s) - {i. i \<in> {i. bit dirty i} - {?b} \<and> has_handle s i}\<rparr>"
      using 1 [OF False refl] by (simp add: clear_bit_bits [symmetric])
    also have "\<dots> = s\<lparr>pending := pending s - {i. bit dirty i \<and> has_handle s i}\<rparr>"
      using bit_ctzT [OF False] by (auto simp: drain_def intro!: arg_cong [where f = "\<lambda>p. s\<lparr>pending := p\<rparr>"])
    finally show ?thesis .
  qed simp
qed

declare quiet_bits.simps [simp del]

lemma sdmaQuiet_pending:
  assumes "pe < pes" "pes * numChannels s \<le> 64"
  shows "sdmaQuiet pe s = s\<lparr>sdmaDirty := sdmaDirty s AND NOT (pe_mask s pe),
     pending := pending s - {i \<in> pe_queues s pe. bit (sdmaDirty s) i \<and> has_handle s i}\<rparr>"
proof -
  let ?d = "sdmaDirty s AND pe_mask s pe"
  have bits: "bit ?d i \<longleftrightarrow> i \<in> pe_queues s pe \<and> bit (sdmaDirty s) i" for i
    using bit_pe_mask [OF assms] by (auto simp: bit_simps)
  have "{pe * numChannels s + ch | ch. ch \<in> set [0..<numChannels s] \<and> bit ?d (pe * numChannels s + ch)
      \<and> has_handle s (pe * numChannels s + ch)} = {i \<in> pe_queues s pe. bit (sdmaDirty s) i \<and> has_handle s i}"
    unfolding bits by (auto simp: pe_queues_def nat_le_iff_add)
  moreover have "pending s - {i \<in> pe_queues s pe. bit (sdmaDirty s) i \<and> has_handle s i} = pending s" if "?d = 0"
  proof -
    have "\<not> bit ?d i" for i using that by simp
    then show ?thesis unfolding bits by blast
  qed
  ultimately show ?thesis
    unfolding sdmaQuiet_def Let_def and_push_bit fold_drain by (cases "?d = 0") simp_all
qed

text \<open>Non-blocking copies through the SDMA engines are never lost by a fence. Every queue
  with a pending copy is marked in the dirty mask after any sequence of copies and fences, as
  long as the mask has a bit for every queue; so a fence for all peers leaves no copy pending,
  a fence for one peer leaves none on that peer's queues and touches no other queue, and a
  blocking copy has completed when it returns.\<close>

theorem sdma_fence_complete:
  assumes inv: "sdma_inv pes s" and pe: "pe < pes"
  shows "(\<forall>s'. sdma_ipcCopy blocking n wid pe s = Inr s' \<longrightarrow> sdma_inv pes s'
            \<and> (blocking \<longrightarrow> pending s' \<subseteq> pending s) \<and> pending s' \<subseteq> pending s \<union> pe_queues s pe)
       \<and> sdma_inv pes (sdma_ipcFence_all s) \<and> pending (sdma_ipcFence_all s) = {}
       \<and> sdma_inv pes (sdma_ipcFence_pe pe s)
       \<and> pending (sdma_ipcFence_pe pe s) = pending s - pe_queues s pe"
proof -
  have n: "0 < numChannels s" "pes * numChannels s \<le> 64"
    and p: "\<forall>idx\<in>pending s. sdmaEnabled s \<and> has_handle s idx \<and> bit (sdmaDirty s) idx"
    using inv by (auto simp: sdma_inv_def)
  have idx: "sdma_index s wid pe \<in> pe_queues s pe" by (rule sdma_index_queue [OF n(1)])
  then have "sdma_index s wid pe < 64" using pe_queues_less [OF pe] n(2) by (meson order.strict_trans2)
  then have copy: "sdma_inv pes s' \<and> (blocking \<longrightarrow> pending s' \<subseteq> pending s) \<and> pending s' \<subseteq> pending s \<union> pe_queues s pe"
    if "sdma_ipcCopy blocking n wid pe s = Inr s'" for s'
    using that inv idx n p
    by (auto simp: sdma_ipcCopy_def sdmaCopy_def Let_def sdma_inv_def drain_def bit_simps split: if_splits)
  have all: "pending (sdma_ipcFence_all s) = {} \<and> sdma_inv pes (sdma_ipcFence_all s)"
    using p n by (auto simp: sdma_ipcFence_all_def sdmaQuietAll_def quiet_bits_eq sdma_inv_def)
  have clean: "pending s \<inter> pe_queues s pe = {}" if "sdmaDirty s AND pe_mask s pe = 0"
  proof -
    have "\<not> bit (sdmaDirty s AND pe_mask s pe) i" for i using that by simp
    then show ?thesis using p bit_pe_mask [OF pe n(2)] by (auto simp: bit_and_iff)
  qed
  have "\<forall>idx\<in>pending s. idx < 64" using p bit_imp_le_length [of "sdmaDirty s"] by fastforce
  then have "sdma_inv pes (sdma_ipcFence_pe pe s) \<and> pending (sdma_ipcFence_pe pe s) = pending s - pe_queues s pe"
    using p n inv clean bit_pe_mask [OF pe n(2)]
    by (auto simp: sdma_ipcFence_pe_def sdmaQuiet_pending [OF pe n(2)] sdma_inv_def bit_simps)
  then show ?thesis using copy all by blast
qed

definition demo_sdma :: sdma_impl where
  "demo_sdma = \<lparr>sdmaEnabled = True, sdmaThreshold = 256, numChannels = 2, sdmaChannel = 0,
      sdmaChannelStride = 1, sdmaDirty = 9, has_handle = (\<lambda>_. True), pending = {0, 3}\<rparr>"

theorem sdma_fence_complete_witness:
  "sdma_inv 2 demo_sdma \<and> pending demo_sdma = {0, 3} \<and> pending (sdma_ipcFence_pe 1 demo_sdma) = {0}"
proof -
  have inv: "sdma_inv 2 demo_sdma" by (simp add: sdma_inv_def demo_sdma_def bit_numeral_rec)
  have "pending (sdma_ipcFence_pe 1 demo_sdma) = pending demo_sdma - pe_queues demo_sdma 1"
    using sdma_fence_complete [OF inv, of 1 False 0 0] by simp
  also have "\<dots> = {0}" by (auto simp: demo_sdma_def pe_queues_def)
  finally show ?thesis using inv by (simp add: demo_sdma_def)
qed

end
