(* ===== verification/Ro_Commands.thy ===== *)
theory Ro_Commands
  imports Prelude
begin

text \<open>
  Commands of the reverse-offload backend.

  \<^item> the commands and types of \<open>reverse_offload/commands_types.hpp\<close> and \<open>GetROType\<close> of
    \<open>context_ro_tmpl_device.hpp\<close>;
  \<^item> the queue element of \<open>queue_proxy.hpp\<close> and how \<open>build_queue_element\<close>
    (\<open>context_ro_device.cpp\<close>) fills it: the element lives in a ring slot and keeps every field
    the command does not write;
  \<^item> the decoding by \<open>MPITransport::submitRequestsToMPI\<close>, with \<open>get_mpi_op\<close> and \<open>convertType\<close>
    (\<open>mpi_transport.cpp\<close>).

  Pointers, sizes and the two unions of the element are 64-bit words. The fields
  \<open>logPE_stride\<close>, \<open>PE_size\<close> and \<open>pSync\<close> are neither written nor read and left out.
\<close>

unbundle bit_operations_syntax

section \<open>Commands and types\<close>

datatype ro_net_cmds =
  RO_NET_PUT | RO_NET_P | RO_NET_GET | RO_NET_PUT_NBI | RO_NET_GET_NBI | RO_NET_AMO_FOP | RO_NET_AMO_FCAS
| RO_NET_FENCE | RO_NET_QUIET | RO_NET_FINALIZE | RO_NET_TEAM_REDUCE | RO_NET_SYNC | RO_NET_BARRIER
| RO_NET_TEAM_BROADCAST | RO_NET_ALLTOALL | RO_NET_FCOLLECT | RO_NET_TEAM_REDUCE_SCATTER

datatype ro_net_types =
  RO_NET_FLOAT | RO_NET_CHAR | RO_NET_SIGNED_CHAR | RO_NET_UNSIGNED_CHAR | RO_NET_DOUBLE | RO_NET_INT
| RO_NET_LONG | RO_NET_UNSIGNED_LONG | RO_NET_LONG_LONG | RO_NET_SHORT | RO_NET_LONG_DOUBLE

datatype rocshmem_op =
  ROCSHMEM_SUM | ROCSHMEM_MAX | ROCSHMEM_MIN | ROCSHMEM_PROD | ROCSHMEM_AND | ROCSHMEM_OR | ROCSHMEM_XOR
| ROCSHMEM_REPLACE

datatype c_type =
  C_char | C_unsigned_char | C_signed_char | C_unsigned_short | C_unsigned_int | C_unsigned_long
| C_unsigned_long_long | C_float | C_double | C_int | C_short | C_long | C_long_long | C_long_double

fun GetROType :: "c_type \<Rightarrow> ro_net_types" where
  "GetROType C_char = RO_NET_CHAR"
| "GetROType C_unsigned_char = RO_NET_UNSIGNED_CHAR"
| "GetROType C_signed_char = RO_NET_SIGNED_CHAR"
| "GetROType C_unsigned_short = RO_NET_SHORT"
| "GetROType C_unsigned_int = RO_NET_INT"
| "GetROType C_unsigned_long = RO_NET_UNSIGNED_LONG"
| "GetROType C_unsigned_long_long = RO_NET_LONG_LONG"
| "GetROType C_float = RO_NET_FLOAT"
| "GetROType C_double = RO_NET_DOUBLE"
| "GetROType C_int = RO_NET_INT"
| "GetROType C_short = RO_NET_SHORT"
| "GetROType C_long = RO_NET_LONG"
| "GetROType C_long_long = RO_NET_LONG_LONG"
| "GetROType C_long_double = RO_NET_LONG_DOUBLE"

datatype mpi_op = MPI_SUM | MPI_MAX | MPI_MIN | MPI_PROD | MPI_BAND | MPI_BOR | MPI_BXOR | MPI_REPLACE

datatype mpi_type =
  MPI_FLOAT | MPI_DOUBLE | MPI_INT | MPI_LONG | MPI_UNSIGNED_LONG | MPI_LONG_LONG | MPI_SHORT | MPI_LONG_DOUBLE
| MPI_CHAR | MPI_SIGNED_CHAR | MPI_UNSIGNED_CHAR

fun get_mpi_op :: "rocshmem_op \<Rightarrow> mpi_op" where
  "get_mpi_op ROCSHMEM_SUM = MPI_SUM"
| "get_mpi_op ROCSHMEM_MAX = MPI_MAX"
| "get_mpi_op ROCSHMEM_MIN = MPI_MIN"
| "get_mpi_op ROCSHMEM_PROD = MPI_PROD"
| "get_mpi_op ROCSHMEM_AND = MPI_BAND"
| "get_mpi_op ROCSHMEM_OR = MPI_BOR"
| "get_mpi_op ROCSHMEM_XOR = MPI_BXOR"
| "get_mpi_op ROCSHMEM_REPLACE = MPI_REPLACE"

fun convertType :: "ro_net_types \<Rightarrow> mpi_type" where
  "convertType RO_NET_FLOAT = MPI_FLOAT"
| "convertType RO_NET_DOUBLE = MPI_DOUBLE"
| "convertType RO_NET_INT = MPI_INT"
| "convertType RO_NET_LONG = MPI_LONG"
| "convertType RO_NET_UNSIGNED_LONG = MPI_UNSIGNED_LONG"
| "convertType RO_NET_LONG_LONG = MPI_LONG_LONG"
| "convertType RO_NET_SHORT = MPI_SHORT"
| "convertType RO_NET_LONG_DOUBLE = MPI_LONG_DOUBLE"
| "convertType RO_NET_CHAR = MPI_CHAR"
| "convertType RO_NET_SIGNED_CHAR = MPI_SIGNED_CHAR"
| "convertType RO_NET_UNSIGNED_CHAR = MPI_UNSIGNED_CHAR"

text \<open>Sizes in bytes under the LP64 model, and whether a type is a signed integer type.\<close>

fun c_size :: "c_type \<Rightarrow> nat" where
  "c_size t = (case t of C_char \<Rightarrow> 1 | C_unsigned_char \<Rightarrow> 1 | C_signed_char \<Rightarrow> 1 | C_unsigned_short \<Rightarrow> 2
     | C_unsigned_int \<Rightarrow> 4 | C_unsigned_long \<Rightarrow> 8 | C_unsigned_long_long \<Rightarrow> 8 | C_float \<Rightarrow> 4 | C_double \<Rightarrow> 8
     | C_int \<Rightarrow> 4 | C_short \<Rightarrow> 2 | C_long \<Rightarrow> 8 | C_long_long \<Rightarrow> 8 | C_long_double \<Rightarrow> 16)"

fun mpi_size :: "mpi_type \<Rightarrow> nat" where
  "mpi_size t = (case t of MPI_FLOAT \<Rightarrow> 4 | MPI_DOUBLE \<Rightarrow> 8 | MPI_INT \<Rightarrow> 4 | MPI_LONG \<Rightarrow> 8 | MPI_UNSIGNED_LONG \<Rightarrow> 8
     | MPI_LONG_LONG \<Rightarrow> 8 | MPI_SHORT \<Rightarrow> 2 | MPI_LONG_DOUBLE \<Rightarrow> 16 | MPI_CHAR \<Rightarrow> 1 | MPI_SIGNED_CHAR \<Rightarrow> 1
     | MPI_UNSIGNED_CHAR \<Rightarrow> 1)"

section \<open>Queue elements\<close>

record queue_element =
  valid :: bool
  cmd :: ro_net_cmds
  PE :: int
  src :: u64
  dst :: u64
  win_id :: int
  op :: rocshmem_op
  datatype1 :: ro_net_types
  PE_root :: int
  status :: u64
  team_comm :: u64
  ol1 :: u64
  ol2 :: u64

text \<open>
  The arguments of \<open>build_queue_element\<close>. For \<open>RO_NET_P\<close> the source is the address of the
  value; \<open>req_src\<close> then holds the bytes found there.
\<close>

record ro_request =
  req_cmd :: ro_net_cmds
  req_dst :: u64
  req_src :: u64
  req_size :: u64
  req_pe :: int
  req_root :: int
  req_pWrk :: u64
  req_comm :: u64
  req_win :: int
  req_blocking :: bool
  req_status :: u64
  req_op :: rocshmem_op
  req_type :: ro_net_types

text \<open>\<open>memcpy(&queue_element->src, src, size)\<close>: the low bytes are replaced.\<close>

definition copy_low_bytes :: "u64 \<Rightarrow> nat \<Rightarrow> u64 \<Rightarrow> u64" where
  "copy_low_bytes v n old = (v AND mask (8 * n)) OR (old AND NOT (mask (8 * n)))"

definition fill_element :: "ro_request \<Rightarrow> queue_element \<Rightarrow> queue_element" where
  "fill_element r e =
     (let t = req_cmd r;
          e = e\<lparr>cmd := t, PE := req_pe r, ol1 := req_size r, dst := req_dst r, win_id := req_win r\<rparr>;
          e = (if req_blocking r then e\<lparr>status := req_status r\<rparr> else e);
          e = (if t = RO_NET_P then e\<lparr>src := copy_low_bytes (req_src r) (unat (req_size r)) (src e)\<rparr>
               else e\<lparr>src := req_src r\<rparr>);
          e = (if t = RO_NET_AMO_FOP then e\<lparr>op := req_op r, datatype1 := req_type r\<rparr> else e);
          e = (if t = RO_NET_AMO_FCAS then e\<lparr>ol2 := req_pWrk r, datatype1 := req_type r\<rparr> else e);
          e = (if t = RO_NET_TEAM_REDUCE
               then e\<lparr>op := req_op r, datatype1 := req_type r, team_comm := req_comm r\<rparr> else e);
          e = (if t = RO_NET_TEAM_REDUCE_SCATTER
               then e\<lparr>op := req_op r, datatype1 := req_type r, team_comm := req_comm r\<rparr> else e);
          e = (if t = RO_NET_TEAM_BROADCAST
               then e\<lparr>PE_root := req_root r, datatype1 := req_type r, team_comm := req_comm r\<rparr> else e);
          e = (if t = RO_NET_ALLTOALL
               then e\<lparr>datatype1 := req_type r, team_comm := req_comm r, ol2 := req_pWrk r\<rparr> else e);
          e = (if t = RO_NET_FCOLLECT
               then e\<lparr>datatype1 := req_type r, team_comm := req_comm r, ol2 := req_pWrk r\<rparr> else e);
          e = (if t = RO_NET_SYNC then e\<lparr>team_comm := req_comm r\<rparr> else e)
      in e\<lparr>valid := True\<rparr>)"

section \<open>Decoding on the host\<close>

text \<open>
  The call the transport makes for an element. A status address is passed on only where the
  transport may write to it.
\<close>

datatype mpi_call =
  PutMem u64 u64 u64 int int "u64 option"
| PutInline u64 u64 nat int int u64
| GetMem u64 u64 u64 int int "u64 option"
| AmoFOP u64 u64 u64 int int u64 mpi_op mpi_type
| AmoFCAS u64 u64 u64 int int u64 u64 mpi_type
| ReduceScatter u64 u64 u64 int u64 mpi_op mpi_type u64
| Reduction u64 u64 u64 int u64 mpi_op mpi_type u64
| Broadcast u64 u64 u64 int u64 int mpi_type u64
| Alltoall u64 u64 u64 int u64 mpi_type u64
| Fcollect u64 u64 u64 int u64 mpi_type u64
| Barrier u64 "u64 option" bool
| Quiet u64

abbreviation team_or_world :: "u64 \<Rightarrow> u64 option" where
  "team_or_world c \<equiv> (if c = 0 then None else Some c)"

fun submitRequest :: "queue_element \<Rightarrow> mpi_call" where
  "submitRequest e =
     (case cmd e of
        RO_NET_PUT \<Rightarrow> PutMem (dst e) (src e) (ol1 e) (PE e) (win_id e) (Some (status e))
      | RO_NET_P \<Rightarrow> PutInline (dst e) (src e AND mask (8 * unat (ol1 e))) (unat (ol1 e)) (PE e) (win_id e) (status e)
      | RO_NET_GET \<Rightarrow> GetMem (dst e) (src e) (ol1 e) (PE e) (win_id e) (Some (status e))
      | RO_NET_PUT_NBI \<Rightarrow> PutMem (dst e) (src e) (ol1 e) (PE e) (win_id e) None
      | RO_NET_GET_NBI \<Rightarrow> GetMem (dst e) (src e) (ol1 e) (PE e) (win_id e) None
      | RO_NET_AMO_FOP \<Rightarrow> AmoFOP (dst e) (src e) (ol1 e) (PE e) (win_id e) (status e) (get_mpi_op (op e)) (convertType (datatype1 e))
      | RO_NET_AMO_FCAS \<Rightarrow> AmoFCAS (dst e) (src e) (ol1 e) (PE e) (win_id e) (status e) (ol2 e) (convertType (datatype1 e))
      | RO_NET_TEAM_REDUCE_SCATTER \<Rightarrow>
          ReduceScatter (dst e) (src e) (ol1 e) (win_id e) (team_comm e) (get_mpi_op (op e)) (convertType (datatype1 e)) (status e)
      | RO_NET_TEAM_REDUCE \<Rightarrow>
          Reduction (dst e) (src e) (ol1 e) (win_id e) (team_comm e) (get_mpi_op (op e)) (convertType (datatype1 e)) (status e)
      | RO_NET_TEAM_BROADCAST \<Rightarrow>
          Broadcast (dst e) (src e) (ol1 e) (win_id e) (team_comm e) (PE_root e) (convertType (datatype1 e)) (status e)
      | RO_NET_ALLTOALL \<Rightarrow> Alltoall (dst e) (src e) (ol1 e) (win_id e) (team_comm e) (convertType (datatype1 e)) (status e)
      | RO_NET_FCOLLECT \<Rightarrow> Fcollect (dst e) (src e) (ol1 e) (win_id e) (team_comm e) (convertType (datatype1 e)) (status e)
      | RO_NET_BARRIER \<Rightarrow> Barrier (status e) (team_or_world (team_comm e)) True
      | RO_NET_SYNC \<Rightarrow> Barrier (status e) (team_or_world (team_comm e)) False
      | RO_NET_FENCE \<Rightarrow> Quiet (status e)
      | RO_NET_QUIET \<Rightarrow> Quiet (status e)
      | RO_NET_FINALIZE \<Rightarrow> Quiet (status e))"

section \<open>What a request asks for\<close>

fun request_call :: "ro_request \<Rightarrow> mpi_call" where
  "request_call r =
     (case req_cmd r of
        RO_NET_PUT \<Rightarrow> PutMem (req_dst r) (req_src r) (req_size r) (req_pe r) (req_win r) (Some (req_status r))
      | RO_NET_P \<Rightarrow> PutInline (req_dst r) (req_src r AND mask (8 * unat (req_size r))) (unat (req_size r)) (req_pe r)
                     (req_win r) (req_status r)
      | RO_NET_GET \<Rightarrow> GetMem (req_dst r) (req_src r) (req_size r) (req_pe r) (req_win r) (Some (req_status r))
      | RO_NET_PUT_NBI \<Rightarrow> PutMem (req_dst r) (req_src r) (req_size r) (req_pe r) (req_win r) None
      | RO_NET_GET_NBI \<Rightarrow> GetMem (req_dst r) (req_src r) (req_size r) (req_pe r) (req_win r) None
      | RO_NET_AMO_FOP \<Rightarrow> AmoFOP (req_dst r) (req_src r) (req_size r) (req_pe r) (req_win r) (req_status r)
                     (get_mpi_op (req_op r)) (convertType (req_type r))
      | RO_NET_AMO_FCAS \<Rightarrow> AmoFCAS (req_dst r) (req_src r) (req_size r) (req_pe r) (req_win r) (req_status r)
                     (req_pWrk r) (convertType (req_type r))
      | RO_NET_TEAM_REDUCE_SCATTER \<Rightarrow> ReduceScatter (req_dst r) (req_src r) (req_size r) (req_win r) (req_comm r)
                     (get_mpi_op (req_op r)) (convertType (req_type r)) (req_status r)
      | RO_NET_TEAM_REDUCE \<Rightarrow> Reduction (req_dst r) (req_src r) (req_size r) (req_win r) (req_comm r)
                     (get_mpi_op (req_op r)) (convertType (req_type r)) (req_status r)
      | RO_NET_TEAM_BROADCAST \<Rightarrow> Broadcast (req_dst r) (req_src r) (req_size r) (req_win r) (req_comm r) (req_root r)
                     (convertType (req_type r)) (req_status r)
      | RO_NET_ALLTOALL \<Rightarrow> Alltoall (req_dst r) (req_src r) (req_size r) (req_win r) (req_comm r)
                     (convertType (req_type r)) (req_status r)
      | RO_NET_FCOLLECT \<Rightarrow> Fcollect (req_dst r) (req_src r) (req_size r) (req_win r) (req_comm r)
                     (convertType (req_type r)) (req_status r)
      | RO_NET_BARRIER \<Rightarrow> Barrier (req_status r) (team_or_world (req_comm r)) True
      | RO_NET_SYNC \<Rightarrow> Barrier (req_status r) (team_or_world (req_comm r)) False
      | _ \<Rightarrow> Quiet (req_status r))"

text \<open>Every command but the two \<open>NBI\<close> ones is issued blocking.\<close>

definition request_ok :: "ro_request \<Rightarrow> bool" where
  "request_ok r \<longleftrightarrow> (req_blocking r \<longleftrightarrow> req_cmd r \<notin> {RO_NET_PUT_NBI, RO_NET_GET_NBI})"

lemma copy_low_bytes_low: "copy_low_bytes v n old AND mask (8 * n) = v AND mask (8 * n)"
  by (rule bit_eqI) (auto simp: copy_low_bytes_def bit_simps)

text \<open>Decoding, command by command.\<close>

lemma request_decodes:
  assumes "request_ok r" "req_cmd r \<noteq> RO_NET_BARRIER"
  shows "submitRequest (fill_element r e) = request_call r \<and> valid (fill_element r e)"
  using assms by (cases "req_cmd r") (simp_all add: request_ok_def fill_element_def Let_def copy_low_bytes_low)

text \<open>The host makes the call the device asked for. Whatever a ring slot held before, an
  element filled by \<open>build_queue_element\<close> for any command except \<open>RO_NET_BARRIER\<close> decodes to the
  call with exactly the arguments of the request: no stale field of the slot is read, and the
  value of an \<open>RO_NET_P\<close> is recovered from the bytes stored in place of the source pointer.\<close>

theorem element_decodes_to_request:
  assumes "request_ok r" "req_cmd r \<noteq> RO_NET_BARRIER"
  shows "submitRequest (fill_element r e) = request_call r \<and> valid (fill_element r e)"
  using assms by (rule request_decodes)

definition demo_request :: ro_request where
  "demo_request = \<lparr>req_cmd = RO_NET_P, req_dst = 4096, req_src = 305419896, req_size = 4, req_pe = 3, req_root = 0,
     req_pWrk = 0, req_comm = 0, req_win = 1, req_blocking = True, req_status = 77, req_op = ROCSHMEM_SUM,
     req_type = RO_NET_INT\<rparr>"

definition demo_element :: queue_element where
  "demo_element = \<lparr>valid = False, cmd = RO_NET_GET, PE = 9, src = 18446744073709551615, dst = 1, win_id = 5,
     op = ROCSHMEM_MAX, datatype1 = RO_NET_CHAR, PE_root = 2, status = 13, team_comm = 42, ol1 = 8, ol2 = 6\<rparr>"

theorem element_decodes_to_request_witness:
  "submitRequest (fill_element demo_request demo_element) = PutInline 4096 305419896 4 3 1 77"
  using element_decodes_to_request [of demo_request demo_element]
  by (simp add: demo_request_def request_ok_def mask_eq_exp_minus_1)

text \<open>C39. The team barrier does not reach the team. \<open>build_queue_element\<close> does not store the
  communicator of an \<open>RO_NET_BARRIER\<close>, although the host reads it, so the barrier runs on the
  communicator an earlier command left in the ring slot, whatever team was requested.\<close>

theorem barrier_ignores_requested_team:
  assumes "req_cmd r = RO_NET_BARRIER" "req_blocking r"
  shows "submitRequest (fill_element r e) = Barrier (req_status r) (team_or_world (team_comm e)) True"
  using assms by (simp add: fill_element_def Let_def)

theorem barrier_ignores_requested_team_witness:
  "submitRequest (fill_element (demo_request\<lparr>req_cmd := RO_NET_BARRIER, req_comm := 7\<rparr>) demo_element)
     = Barrier 77 (Some 42) True
   \<and> request_call (demo_request\<lparr>req_cmd := RO_NET_BARRIER, req_comm := 7\<rparr>) = Barrier 77 (Some 7) True"
  using barrier_ignores_requested_team [of "demo_request\<lparr>req_cmd := RO_NET_BARRIER, req_comm := 7\<rparr>" demo_element]
  by (simp add: demo_request_def demo_element_def)

text \<open>The MPI type of a C type has its size, and operations keep their meaning.\<close>

lemma mpi_type_size: "mpi_size (convertType (GetROType t)) = c_size t"
  by (cases t) simp_all

lemma get_mpi_op_inj: "get_mpi_op x = get_mpi_op y \<longleftrightarrow> x = y"
  by (cases x; cases y) simp_all

end
