(* ===== verification/Ro_Context.thy ===== *)
theory Ro_Context
  imports Ro_Commands Grid_Index
begin

text \<open>
  The device interface of the reverse-offload backend: \<open>ROContext\<close> of
  \<open>reverse_offload/context_ro_device.cpp\<close> and \<open>context_ro_tmpl_device.hpp\<close>.

  An operation of one thread is the list of its actions: copies over shared memory,
  requests put into the command queue (Theory \<open>Ro_Commands\<close>), taking and returning of status
  flags and return buffers of the default context, fences and workgroup barriers. Which PEs
  are reached over shared memory is the function \<open>ipc_avail\<close> of the context, and the
  decision of the wavefront coalescer is the function \<open>coal\<close>.
\<close>

section \<open>Contexts and actions\<close>

datatype ro_scope = Lane | Wave | Workgroup

datatype ro_action =
  Ipc_Copy ro_scope bool u64 u64 u64 nat
| Ipc_Fence
| Ipc_Quiet
| Enqueue ro_request
| Return_Status u64
| Take_Buf u64
| Return_Buf u64
| Read_Buf u64
| Sync_Threads
| Warn

record ro_context =
  ro_net_win_id :: int
  is_default_ctx :: bool
  my_pe :: int
  ipc_avail :: "int \<Rightarrow> nat option"
  ipc_bases :: "u64 list"
  shm_rank :: nat
  block_status :: u64
  block_atomic_ret :: u64
  block_g_ret :: u64
  dequeued_status :: u64
  dequeued_atomic_ret :: u64
  dequeued_g_ret :: u64
  coal :: "int \<Rightarrow> u64 \<Rightarrow> u64 \<Rightarrow> u64 \<Rightarrow> bool \<times> u64"

text \<open>A team as the backend uses it: its communicator and its alltoall buffer.\<close>

record ro_team =
  mpi_comm :: u64
  ata_buffer :: u64

definition get_status_flag :: "ro_context \<Rightarrow> thread_pos \<Rightarrow> u64" where
  "get_status_flag c t =
     (if is_default_ctx c then dequeued_status c else block_status c + of_nat (get_flat_block_id t))"

definition get_atomic_ret_buf :: "ro_context \<Rightarrow> thread_pos \<Rightarrow> u64" where
  "get_atomic_ret_buf c t =
     (if is_default_ctx c then dequeued_atomic_ret c else block_atomic_ret c + 8 * of_nat (get_flat_block_id t))"

definition get_g_ret_buf :: "ro_context \<Rightarrow> thread_pos \<Rightarrow> u64" where
  "get_g_ret_buf c t =
     (if is_default_ctx c then dequeued_g_ret c else block_g_ret c + 8 * of_nat (get_flat_block_id t))"

definition build_queue_element :: "ro_request \<Rightarrow> bool \<Rightarrow> ro_action list" where
  "build_queue_element r default_ctx =
     Enqueue r # (if default_ctx then [Return_Status (req_status r)] else [])"

text \<open>The argument list of a call with the default arguments of the declaration.\<close>

definition base_request :: "ro_context \<Rightarrow> ro_net_cmds \<Rightarrow> u64 \<Rightarrow> u64 \<Rightarrow> u64 \<Rightarrow> int \<Rightarrow> ro_request" where
  "base_request c k d s n pe =
     \<lparr>req_cmd = k, req_dst = d, req_src = s, req_size = n, req_pe = pe, req_root = 0, req_pWrk = 0, req_comm = 0,
      req_win = ro_net_win_id c, req_blocking = False, req_status = 0, req_op = ROCSHMEM_SUM, req_type = RO_NET_INT\<rparr>"

definition blocking_request :: "ro_context \<Rightarrow> thread_pos \<Rightarrow> ro_request \<Rightarrow> ro_action list" where
  "blocking_request c t r =
     build_queue_element (r\<lparr>req_blocking := True, req_status := get_status_flag c t\<rparr>) (is_default_ctx c)"

definition nonblocking_request :: "ro_request \<Rightarrow> ro_action list" where
  "nonblocking_request r = build_queue_element r False"

text \<open>The address of a local symmetric object in the mapping of a peer.\<close>

definition peer_addr :: "ro_context \<Rightarrow> nat \<Rightarrow> u64 \<Rightarrow> u64" where
  "peer_addr c local_pe a = ipc_bases c ! local_pe + (a - ipc_bases c ! shm_rank c)"

section \<open>Memory transfers\<close>

definition ro_putmem :: "ro_context \<Rightarrow> thread_pos \<Rightarrow> u64 \<Rightarrow> u64 \<Rightarrow> u64 \<Rightarrow> int \<Rightarrow> ro_action list" where
  "ro_putmem c t dest source n pe =
     (case ipc_avail c pe of
        Some l \<Rightarrow> [Ipc_Copy Lane True (peer_addr c l dest) source n l]
      | None \<Rightarrow>
          let (must_send_message, n') = coal c pe source dest n
          in if \<not> must_send_message then []
             else blocking_request c t (base_request c RO_NET_PUT dest source n' pe))"

definition ro_getmem :: "ro_context \<Rightarrow> thread_pos \<Rightarrow> u64 \<Rightarrow> u64 \<Rightarrow> u64 \<Rightarrow> int \<Rightarrow> ro_action list" where
  "ro_getmem c t dest source n pe =
     (case ipc_avail c pe of
        Some l \<Rightarrow> [Ipc_Copy Lane True dest (peer_addr c l source) n l]
      | None \<Rightarrow>
          let (must_send_message, n') = coal c pe source dest n
          in if \<not> must_send_message then []
             else blocking_request c t (base_request c RO_NET_GET dest source n' pe))"

definition ro_putmem_nbi :: "ro_context \<Rightarrow> thread_pos \<Rightarrow> u64 \<Rightarrow> u64 \<Rightarrow> u64 \<Rightarrow> int \<Rightarrow> ro_action list" where
  "ro_putmem_nbi c t dest source n pe =
     (case ipc_avail c pe of
        Some l \<Rightarrow> [Ipc_Copy Lane False (peer_addr c l dest) source n l]
      | None \<Rightarrow>
          let (must_send_message, n') = coal c pe source dest n
          in if \<not> must_send_message then []
             else nonblocking_request (base_request c RO_NET_PUT_NBI dest source n' pe))"

definition ro_getmem_nbi :: "ro_context \<Rightarrow> thread_pos \<Rightarrow> u64 \<Rightarrow> u64 \<Rightarrow> u64 \<Rightarrow> int \<Rightarrow> ro_action list" where
  "ro_getmem_nbi c t dest source n pe =
     (case ipc_avail c pe of
        Some l \<Rightarrow> [Ipc_Copy Lane False dest (peer_addr c l source) n l]
      | None \<Rightarrow>
          let (must_send_message, n') = coal c pe source dest n
          in if \<not> must_send_message then []
             else nonblocking_request (base_request c RO_NET_GET_NBI dest source n' pe))"

definition ro_putmem_wg :: "ro_context \<Rightarrow> thread_pos \<Rightarrow> u64 \<Rightarrow> u64 \<Rightarrow> u64 \<Rightarrow> int \<Rightarrow> ro_action list" where
  "ro_putmem_wg c t dest source n pe =
     (case ipc_avail c pe of
        Some l \<Rightarrow> [Ipc_Copy Workgroup True (peer_addr c l dest) source n l]
      | None \<Rightarrow> if is_thread_zero_in_block t then blocking_request c t (base_request c RO_NET_PUT dest source n pe) else []) @ [Sync_Threads]"

definition ro_getmem_wg :: "ro_context \<Rightarrow> thread_pos \<Rightarrow> u64 \<Rightarrow> u64 \<Rightarrow> u64 \<Rightarrow> int \<Rightarrow> ro_action list" where
  "ro_getmem_wg c t dest source n pe =
     (case ipc_avail c pe of
        Some l \<Rightarrow> [Ipc_Copy Workgroup True dest (peer_addr c l source) n l]
      | None \<Rightarrow> if is_thread_zero_in_block t then blocking_request c t (base_request c RO_NET_GET dest source n pe) else []) @ [Sync_Threads]"

definition ro_putmem_nbi_wg :: "ro_context \<Rightarrow> thread_pos \<Rightarrow> u64 \<Rightarrow> u64 \<Rightarrow> u64 \<Rightarrow> int \<Rightarrow> ro_action list" where
  "ro_putmem_nbi_wg c t dest source n pe =
     (case ipc_avail c pe of
        Some l \<Rightarrow> [Ipc_Copy Workgroup False (peer_addr c l dest) source n l]
      | None \<Rightarrow> if is_thread_zero_in_block t then nonblocking_request (base_request c RO_NET_PUT_NBI dest source n pe) else []) @ [Sync_Threads]"

definition ro_getmem_nbi_wg :: "ro_context \<Rightarrow> thread_pos \<Rightarrow> u64 \<Rightarrow> u64 \<Rightarrow> u64 \<Rightarrow> int \<Rightarrow> ro_action list" where
  "ro_getmem_nbi_wg c t dest source n pe =
     (case ipc_avail c pe of
        Some l \<Rightarrow> [Ipc_Copy Workgroup False dest (peer_addr c l source) n l]
      | None \<Rightarrow> if is_thread_zero_in_block t then nonblocking_request (base_request c RO_NET_GET_NBI dest source n pe) else []) @ [Sync_Threads]"

definition ro_putmem_wave :: "ro_context \<Rightarrow> thread_pos \<Rightarrow> u64 \<Rightarrow> u64 \<Rightarrow> u64 \<Rightarrow> int \<Rightarrow> ro_action list" where
  "ro_putmem_wave c t dest source n pe =
     (case ipc_avail c pe of
        Some l \<Rightarrow> [Ipc_Copy Wave True (peer_addr c l dest) source n l]
      | None \<Rightarrow> if is_thread_zero_in_wave 64 t then blocking_request c t (base_request c RO_NET_PUT dest source n pe) else [])"

definition ro_getmem_wave :: "ro_context \<Rightarrow> thread_pos \<Rightarrow> u64 \<Rightarrow> u64 \<Rightarrow> u64 \<Rightarrow> int \<Rightarrow> ro_action list" where
  "ro_getmem_wave c t dest source n pe =
     (case ipc_avail c pe of
        Some l \<Rightarrow> [Ipc_Copy Wave True dest (peer_addr c l source) n l]
      | None \<Rightarrow> if is_thread_zero_in_wave 64 t then blocking_request c t (base_request c RO_NET_GET dest source n pe) else [])"

definition ro_putmem_nbi_wave :: "ro_context \<Rightarrow> thread_pos \<Rightarrow> u64 \<Rightarrow> u64 \<Rightarrow> u64 \<Rightarrow> int \<Rightarrow> ro_action list" where
  "ro_putmem_nbi_wave c t dest source n pe =
     (case ipc_avail c pe of
        Some l \<Rightarrow> [Ipc_Copy Wave False (peer_addr c l dest) source n l]
      | None \<Rightarrow> if is_thread_zero_in_wave 64 t then nonblocking_request (base_request c RO_NET_PUT_NBI dest source n pe) else [])"

definition ro_getmem_nbi_wave :: "ro_context \<Rightarrow> thread_pos \<Rightarrow> u64 \<Rightarrow> u64 \<Rightarrow> u64 \<Rightarrow> int \<Rightarrow> ro_action list" where
  "ro_getmem_nbi_wave c t dest source n pe =
     (case ipc_avail c pe of
        Some l \<Rightarrow> [Ipc_Copy Wave False dest (peer_addr c l source) n l]
      | None \<Rightarrow> if is_thread_zero_in_wave 64 t then nonblocking_request (base_request c RO_NET_GET_NBI dest source n pe) else [])"

text \<open>The typed transfers scale the element count by the size of the type.\<close>

definition ro_put :: "c_type \<Rightarrow> ro_context \<Rightarrow> thread_pos \<Rightarrow> u64 \<Rightarrow> u64 \<Rightarrow> u64 \<Rightarrow> int \<Rightarrow> ro_action list" where
  "ro_put T c t dest source nelems pe = ro_putmem c t dest source (of_nat (c_size T) * nelems) pe"

definition ro_put_nbi :: "c_type \<Rightarrow> ro_context \<Rightarrow> thread_pos \<Rightarrow> u64 \<Rightarrow> u64 \<Rightarrow> u64 \<Rightarrow> int \<Rightarrow> ro_action list" where
  "ro_put_nbi T c t dest source nelems pe = ro_putmem_nbi c t dest source (of_nat (c_size T) * nelems) pe"

definition ro_get :: "c_type \<Rightarrow> ro_context \<Rightarrow> thread_pos \<Rightarrow> u64 \<Rightarrow> u64 \<Rightarrow> u64 \<Rightarrow> int \<Rightarrow> ro_action list" where
  "ro_get T c t dest source nelems pe = ro_getmem c t dest source (of_nat (c_size T) * nelems) pe"

definition ro_get_nbi :: "c_type \<Rightarrow> ro_context \<Rightarrow> thread_pos \<Rightarrow> u64 \<Rightarrow> u64 \<Rightarrow> u64 \<Rightarrow> int \<Rightarrow> ro_action list" where
  "ro_get_nbi T c t dest source nelems pe = ro_getmem_nbi c t dest source (of_nat (c_size T) * nelems) pe"

definition ro_put_wg :: "c_type \<Rightarrow> ro_context \<Rightarrow> thread_pos \<Rightarrow> u64 \<Rightarrow> u64 \<Rightarrow> u64 \<Rightarrow> int \<Rightarrow> ro_action list" where
  "ro_put_wg T c t dest source nelems pe = ro_putmem_wg c t dest source (of_nat (c_size T) * nelems) pe"

definition ro_put_nbi_wg :: "c_type \<Rightarrow> ro_context \<Rightarrow> thread_pos \<Rightarrow> u64 \<Rightarrow> u64 \<Rightarrow> u64 \<Rightarrow> int \<Rightarrow> ro_action list" where
  "ro_put_nbi_wg T c t dest source nelems pe = ro_putmem_nbi_wg c t dest source (of_nat (c_size T) * nelems) pe"

definition ro_put_wave :: "c_type \<Rightarrow> ro_context \<Rightarrow> thread_pos \<Rightarrow> u64 \<Rightarrow> u64 \<Rightarrow> u64 \<Rightarrow> int \<Rightarrow> ro_action list" where
  "ro_put_wave T c t dest source nelems pe = ro_putmem_wave c t dest source (of_nat (c_size T) * nelems) pe"

definition ro_put_nbi_wave :: "c_type \<Rightarrow> ro_context \<Rightarrow> thread_pos \<Rightarrow> u64 \<Rightarrow> u64 \<Rightarrow> u64 \<Rightarrow> int \<Rightarrow> ro_action list" where
  "ro_put_nbi_wave T c t dest source nelems pe = ro_putmem_nbi_wave c t dest source (of_nat (c_size T) * nelems) pe"

definition ro_get_wg :: "c_type \<Rightarrow> ro_context \<Rightarrow> thread_pos \<Rightarrow> u64 \<Rightarrow> u64 \<Rightarrow> u64 \<Rightarrow> int \<Rightarrow> ro_action list" where
  "ro_get_wg T c t dest source nelems pe = ro_getmem_wg c t dest source (of_nat (c_size T) * nelems) pe"

definition ro_get_nbi_wg :: "c_type \<Rightarrow> ro_context \<Rightarrow> thread_pos \<Rightarrow> u64 \<Rightarrow> u64 \<Rightarrow> u64 \<Rightarrow> int \<Rightarrow> ro_action list" where
  "ro_get_nbi_wg T c t dest source nelems pe = ro_getmem_nbi_wg c t dest source (of_nat (c_size T) * nelems) pe"

definition ro_get_wave :: "c_type \<Rightarrow> ro_context \<Rightarrow> thread_pos \<Rightarrow> u64 \<Rightarrow> u64 \<Rightarrow> u64 \<Rightarrow> int \<Rightarrow> ro_action list" where
  "ro_get_wave T c t dest source nelems pe = ro_getmem_wave c t dest source (of_nat (c_size T) * nelems) pe"

definition ro_get_nbi_wave :: "c_type \<Rightarrow> ro_context \<Rightarrow> thread_pos \<Rightarrow> u64 \<Rightarrow> u64 \<Rightarrow> u64 \<Rightarrow> int \<Rightarrow> ro_action list" where
  "ro_get_nbi_wave T c t dest source nelems pe = ro_getmem_nbi_wave c t dest source (of_nat (c_size T) * nelems) pe"

definition ro_p :: "c_type \<Rightarrow> ro_context \<Rightarrow> thread_pos \<Rightarrow> u64 \<Rightarrow> u64 \<Rightarrow> u64 \<Rightarrow> int \<Rightarrow> ro_action list" where
  "ro_p T c t dest value_addr value pe =
     (case ipc_avail c pe of
        Some l \<Rightarrow> [Ipc_Copy Lane False (peer_addr c l dest) value_addr (of_nat (c_size T)) l]
      | None \<Rightarrow> blocking_request c t (base_request c RO_NET_P dest value (of_nat (c_size T)) pe))"

definition ro_g :: "c_type \<Rightarrow> ro_context \<Rightarrow> thread_pos \<Rightarrow> u64 \<Rightarrow> u64 \<Rightarrow> int \<Rightarrow> ro_action list" where
  "ro_g T c t local_addr source pe =
     (case ipc_avail c pe of
        Some l \<Rightarrow> [Ipc_Copy Lane False local_addr (peer_addr c l source) (of_nat (c_size T)) l]
      | None \<Rightarrow>
          let dest = get_g_ret_buf c t
          in Take_Buf dest # ro_get T c t dest source 1 pe
             @ (if is_default_ctx c then [Return_Buf dest] else []) @ [Read_Buf dest])"

section \<open>Ordering and synchronisation\<close>

definition ro_fence :: "ro_context \<Rightarrow> thread_pos \<Rightarrow> ro_action list" where
  "ro_fence c t = blocking_request c t (base_request c RO_NET_FENCE 0 0 0 0) @ [Ipc_Fence]"

definition ro_fence_pe :: "ro_context \<Rightarrow> thread_pos \<Rightarrow> int \<Rightarrow> ro_action list" where
  "ro_fence_pe c t pe = blocking_request c t (base_request c RO_NET_FENCE 0 0 0 0) @ [Ipc_Fence]"

definition ro_quiet :: "ro_context \<Rightarrow> thread_pos \<Rightarrow> ro_action list" where
  "ro_quiet c t = blocking_request c t (base_request c RO_NET_QUIET 0 0 0 0) @ [Ipc_Quiet]"

definition ro_pe_quiet :: "ro_context \<Rightarrow> thread_pos \<Rightarrow> int \<Rightarrow> ro_action list" where
  "ro_pe_quiet c t pe = ro_quiet c t"

definition ro_shmem_ptr :: "ro_context \<Rightarrow> u64 \<Rightarrow> int \<Rightarrow> u64" where
  "ro_shmem_ptr c dest pe = (case ipc_avail c pe of None \<Rightarrow> 0 | Some l \<Rightarrow> peer_addr c l dest)"

definition ro_barrier_all :: "ro_context \<Rightarrow> thread_pos \<Rightarrow> ro_action list" where
  "ro_barrier_all c t = blocking_request c t (base_request c RO_NET_BARRIER 0 0 0 0)"

definition ro_barrier_all_wave :: "ro_context \<Rightarrow> thread_pos \<Rightarrow> ro_action list" where
  "ro_barrier_all_wave c t = (if is_thread_zero_in_wave 64 t then blocking_request c t (base_request c RO_NET_BARRIER 0 0 0 0) else [])"

definition ro_barrier_all_wg :: "ro_context \<Rightarrow> thread_pos \<Rightarrow> ro_action list" where
  "ro_barrier_all_wg c t = (if is_thread_zero_in_block t then blocking_request c t (base_request c RO_NET_BARRIER 0 0 0 0) else []) @ [Sync_Threads]"

definition ro_sync_all :: "ro_context \<Rightarrow> thread_pos \<Rightarrow> ro_action list" where
  "ro_sync_all c t = blocking_request c t (base_request c RO_NET_SYNC 0 0 0 0)"

definition ro_sync_all_wave :: "ro_context \<Rightarrow> thread_pos \<Rightarrow> ro_action list" where
  "ro_sync_all_wave c t = (if is_thread_zero_in_wave 64 t then blocking_request c t (base_request c RO_NET_SYNC 0 0 0 0) else [])"

definition ro_sync_all_wg :: "ro_context \<Rightarrow> thread_pos \<Rightarrow> ro_action list" where
  "ro_sync_all_wg c t = (if is_thread_zero_in_block t then blocking_request c t (base_request c RO_NET_SYNC 0 0 0 0) else []) @ [Sync_Threads]"

definition ro_barrier :: "ro_context \<Rightarrow> thread_pos \<Rightarrow> ro_team \<Rightarrow> ro_action list" where
  "ro_barrier c t team = blocking_request c t ((base_request c RO_NET_BARRIER 0 0 0 0)\<lparr>req_comm := mpi_comm team\<rparr>)"

definition ro_barrier_wave :: "ro_context \<Rightarrow> thread_pos \<Rightarrow> ro_team \<Rightarrow> ro_action list" where
  "ro_barrier_wave c t team =
     (if is_thread_zero_in_wave 64 t then blocking_request c t ((base_request c RO_NET_BARRIER 0 0 0 0)\<lparr>req_comm := mpi_comm team\<rparr>) else [])"

definition ro_barrier_wg :: "ro_context \<Rightarrow> thread_pos \<Rightarrow> ro_team \<Rightarrow> ro_action list" where
  "ro_barrier_wg c t team =
     (if is_thread_zero_in_block t then blocking_request c t ((base_request c RO_NET_BARRIER 0 0 0 0)\<lparr>req_comm := mpi_comm team\<rparr>) else []) @ [Sync_Threads]"

definition ro_sync :: "ro_context \<Rightarrow> thread_pos \<Rightarrow> ro_team \<Rightarrow> ro_action list" where
  "ro_sync c t team = blocking_request c t ((base_request c RO_NET_SYNC 0 0 0 0)\<lparr>req_comm := mpi_comm team\<rparr>)"

definition ro_sync_wave :: "ro_context \<Rightarrow> thread_pos \<Rightarrow> ro_team \<Rightarrow> ro_action list" where
  "ro_sync_wave c t team =
     (if is_thread_zero_in_wave 64 t then blocking_request c t ((base_request c RO_NET_SYNC 0 0 0 0)\<lparr>req_comm := mpi_comm team\<rparr>) else [])"

definition ro_sync_wg :: "ro_context \<Rightarrow> thread_pos \<Rightarrow> ro_team \<Rightarrow> ro_action list" where
  "ro_sync_wg c t team =
     (if is_thread_zero_in_block t then blocking_request c t ((base_request c RO_NET_SYNC 0 0 0 0)\<lparr>req_comm := mpi_comm team\<rparr>) else []) @ [Sync_Threads]"

section \<open>Atomic memory operations\<close>

definition amo_fop :: "c_type \<Rightarrow> rocshmem_op \<Rightarrow> ro_context \<Rightarrow> thread_pos \<Rightarrow> u64 \<Rightarrow> u64 \<Rightarrow> int \<Rightarrow> ro_action list" where
  "amo_fop T ope c t d value pe =
     (let source = get_atomic_ret_buf c t
      in Take_Buf source
         # blocking_request c t ((base_request c RO_NET_AMO_FOP d source value pe)\<lparr>req_op := ope, req_type := GetROType T\<rparr>)
         @ (if is_default_ctx c then [Return_Buf source] else []) @ [Read_Buf source])"

definition ro_amo_fetch_cas :: "c_type \<Rightarrow> ro_context \<Rightarrow> thread_pos \<Rightarrow> u64 \<Rightarrow> u64 \<Rightarrow> u64 \<Rightarrow> int \<Rightarrow> ro_action list" where
  "ro_amo_fetch_cas T c t d value cond pe =
     (let source = get_atomic_ret_buf c t
      in Take_Buf source
         # blocking_request c t ((base_request c RO_NET_AMO_FCAS d source value pe)
              \<lparr>req_pWrk := cond, req_op := ROCSHMEM_SUM, req_type := GetROType T\<rparr>)
         @ (if is_default_ctx c then [Return_Buf source] else []) @ [Read_Buf source])"

definition ro_amo_cas :: "c_type \<Rightarrow> ro_context \<Rightarrow> thread_pos \<Rightarrow> u64 \<Rightarrow> u64 \<Rightarrow> u64 \<Rightarrow> int \<Rightarrow> ro_action list" where
  "ro_amo_cas T c t d value cond pe = ro_amo_fetch_cas T c t d value cond pe"

definition ro_amo_fetch_add :: "c_type \<Rightarrow> ro_context \<Rightarrow> thread_pos \<Rightarrow> u64 \<Rightarrow> u64 \<Rightarrow> int \<Rightarrow> ro_action list" where
  "ro_amo_fetch_add T c t d value pe = amo_fop T ROCSHMEM_SUM c t d value pe"

definition ro_amo_add :: "c_type \<Rightarrow> ro_context \<Rightarrow> thread_pos \<Rightarrow> u64 \<Rightarrow> u64 \<Rightarrow> int \<Rightarrow> ro_action list" where
  "ro_amo_add T c t d value pe = ro_amo_fetch_add T c t d value pe"

definition ro_amo_swap :: "c_type \<Rightarrow> ro_context \<Rightarrow> thread_pos \<Rightarrow> u64 \<Rightarrow> u64 \<Rightarrow> int \<Rightarrow> ro_action list" where
  "ro_amo_swap T c t d value pe = amo_fop T ROCSHMEM_REPLACE c t d value pe"

definition ro_amo_set :: "c_type \<Rightarrow> ro_context \<Rightarrow> thread_pos \<Rightarrow> u64 \<Rightarrow> u64 \<Rightarrow> int \<Rightarrow> ro_action list" where
  "ro_amo_set T c t d value pe = ro_amo_swap T c t d value pe"

definition ro_amo_fetch_and :: "c_type \<Rightarrow> ro_context \<Rightarrow> thread_pos \<Rightarrow> u64 \<Rightarrow> u64 \<Rightarrow> int \<Rightarrow> ro_action list" where
  "ro_amo_fetch_and T c t d value pe = amo_fop T ROCSHMEM_AND c t d value pe"

definition ro_amo_and :: "c_type \<Rightarrow> ro_context \<Rightarrow> thread_pos \<Rightarrow> u64 \<Rightarrow> u64 \<Rightarrow> int \<Rightarrow> ro_action list" where
  "ro_amo_and T c t d value pe = ro_amo_fetch_and T c t d value pe"

definition ro_amo_fetch_or :: "c_type \<Rightarrow> ro_context \<Rightarrow> thread_pos \<Rightarrow> u64 \<Rightarrow> u64 \<Rightarrow> int \<Rightarrow> ro_action list" where
  "ro_amo_fetch_or T c t d value pe = amo_fop T ROCSHMEM_OR c t d value pe"

definition ro_amo_or :: "c_type \<Rightarrow> ro_context \<Rightarrow> thread_pos \<Rightarrow> u64 \<Rightarrow> u64 \<Rightarrow> int \<Rightarrow> ro_action list" where
  "ro_amo_or T c t d value pe = ro_amo_fetch_or T c t d value pe"

definition ro_amo_fetch_xor :: "c_type \<Rightarrow> ro_context \<Rightarrow> thread_pos \<Rightarrow> u64 \<Rightarrow> u64 \<Rightarrow> int \<Rightarrow> ro_action list" where
  "ro_amo_fetch_xor T c t d value pe = amo_fop T ROCSHMEM_XOR c t d value pe"

definition ro_amo_xor :: "c_type \<Rightarrow> ro_context \<Rightarrow> thread_pos \<Rightarrow> u64 \<Rightarrow> u64 \<Rightarrow> int \<Rightarrow> ro_action list" where
  "ro_amo_xor T c t d value pe = ro_amo_fetch_xor T c t d value pe"

section \<open>Put with signal\<close>

datatype sig_op = ROCSHMEM_SIGNAL_SET | ROCSHMEM_SIGNAL_ADD | Invalid_sig_op

definition signal_amo :: "sig_op \<Rightarrow> ro_context \<Rightarrow> thread_pos \<Rightarrow> u64 \<Rightarrow> u64 \<Rightarrow> int \<Rightarrow> ro_action list" where
  "signal_amo so c t sig_addr signal pe =
     (case so of
        ROCSHMEM_SIGNAL_SET \<Rightarrow> ro_amo_set C_unsigned_long c t sig_addr signal pe
      | ROCSHMEM_SIGNAL_ADD \<Rightarrow> ro_amo_add C_unsigned_long c t sig_addr signal pe
      | Invalid_sig_op \<Rightarrow> [Warn])"

definition ro_putmem_signal :: "ro_context \<Rightarrow> thread_pos \<Rightarrow> u64 \<Rightarrow> u64 \<Rightarrow> u64 \<Rightarrow> u64 \<Rightarrow> u64 \<Rightarrow> sig_op \<Rightarrow> int \<Rightarrow> ro_action list" where
  "ro_putmem_signal c t dest source n sig_addr signal so pe =
     ro_putmem c t dest source n pe @ ro_fence c t @ signal_amo so c t sig_addr signal pe"

definition ro_putmem_signal_nbi :: "ro_context \<Rightarrow> thread_pos \<Rightarrow> u64 \<Rightarrow> u64 \<Rightarrow> u64 \<Rightarrow> u64 \<Rightarrow> u64 \<Rightarrow> sig_op \<Rightarrow> int \<Rightarrow> ro_action list" where
  "ro_putmem_signal_nbi c t dest source n sig_addr signal so pe =
     ro_putmem_signal c t dest source n sig_addr signal so pe"

definition ro_putmem_signal_wg :: "ro_context \<Rightarrow> thread_pos \<Rightarrow> u64 \<Rightarrow> u64 \<Rightarrow> u64 \<Rightarrow> u64 \<Rightarrow> u64 \<Rightarrow> sig_op \<Rightarrow> int \<Rightarrow> ro_action list" where
  "ro_putmem_signal_wg c t dest source n sig_addr signal so pe =
     ro_putmem_wg c t dest source n pe @ ro_fence c t @ (if is_thread_zero_in_block t then signal_amo so c t sig_addr signal pe else [])"

definition ro_putmem_signal_nbi_wg :: "ro_context \<Rightarrow> thread_pos \<Rightarrow> u64 \<Rightarrow> u64 \<Rightarrow> u64 \<Rightarrow> u64 \<Rightarrow> u64 \<Rightarrow> sig_op \<Rightarrow> int \<Rightarrow> ro_action list" where
  "ro_putmem_signal_nbi_wg c t dest source n sig_addr signal so pe =
     ro_putmem_signal_wg c t dest source n sig_addr signal so pe"

definition ro_putmem_signal_wave :: "ro_context \<Rightarrow> thread_pos \<Rightarrow> u64 \<Rightarrow> u64 \<Rightarrow> u64 \<Rightarrow> u64 \<Rightarrow> u64 \<Rightarrow> sig_op \<Rightarrow> int \<Rightarrow> ro_action list" where
  "ro_putmem_signal_wave c t dest source n sig_addr signal so pe =
     ro_putmem_wave c t dest source n pe @ ro_fence c t @ (if is_thread_zero_in_wave 64 t then signal_amo so c t sig_addr signal pe else [])"

definition ro_putmem_signal_nbi_wave :: "ro_context \<Rightarrow> thread_pos \<Rightarrow> u64 \<Rightarrow> u64 \<Rightarrow> u64 \<Rightarrow> u64 \<Rightarrow> u64 \<Rightarrow> sig_op \<Rightarrow> int \<Rightarrow> ro_action list" where
  "ro_putmem_signal_nbi_wave c t dest source n sig_addr signal so pe =
     ro_putmem_signal_wave c t dest source n sig_addr signal so pe"

definition ro_signal_fetch :: "ro_context \<Rightarrow> thread_pos \<Rightarrow> u64 \<Rightarrow> ro_action list" where
  "ro_signal_fetch c t sig_addr = ro_amo_fetch_add C_unsigned_long c t sig_addr 0 (my_pe c)"

definition ro_signal_fetch_wg :: "ro_context \<Rightarrow> thread_pos \<Rightarrow> u64 \<Rightarrow> ro_action list" where
  "ro_signal_fetch_wg c t sig_addr =
     (if is_thread_zero_in_block t then ro_amo_fetch_add C_unsigned_long c t sig_addr 0 (my_pe c) else []) @ [Sync_Threads]"

definition ro_signal_fetch_wave :: "ro_context \<Rightarrow> thread_pos \<Rightarrow> u64 \<Rightarrow> ro_action list" where
  "ro_signal_fetch_wave c t sig_addr =
     (if is_thread_zero_in_wave 64 t then ro_amo_fetch_add C_unsigned_long c t sig_addr 0 (my_pe c) else [])"

section \<open>Collectives\<close>

text \<open>A workgroup collective: thread zero issues the request, all threads meet.\<close>

definition wg_collective :: "ro_context \<Rightarrow> thread_pos \<Rightarrow> ro_request \<Rightarrow> ro_action list" where
  "wg_collective c t r = (if is_thread_zero_in_block t then blocking_request c t r else []) @ [Sync_Threads]"

definition ro_alltoallmem_wg :: "ro_context \<Rightarrow> thread_pos \<Rightarrow> ro_team \<Rightarrow> u64 \<Rightarrow> u64 \<Rightarrow> u64 \<Rightarrow> ro_action list" where
  "ro_alltoallmem_wg c t team dest source n =
     wg_collective c t ((base_request c RO_NET_ALLTOALL dest source n 0)
       \<lparr>req_pWrk := ata_buffer team, req_op := ROCSHMEM_SUM, req_type := RO_NET_CHAR, req_comm := mpi_comm team\<rparr>)"

definition ro_broadcastmem_wg :: "ro_context \<Rightarrow> thread_pos \<Rightarrow> ro_team \<Rightarrow> u64 \<Rightarrow> u64 \<Rightarrow> u64 \<Rightarrow> int \<Rightarrow> ro_action list" where
  "ro_broadcastmem_wg c t team dest source n pe_root =
     wg_collective c t ((base_request c RO_NET_TEAM_BROADCAST dest source n 0)
       \<lparr>req_root := pe_root, req_op := ROCSHMEM_SUM, req_type := RO_NET_CHAR, req_comm := mpi_comm team\<rparr>)"

definition ro_fcollectmem_wg :: "ro_context \<Rightarrow> thread_pos \<Rightarrow> ro_team \<Rightarrow> u64 \<Rightarrow> u64 \<Rightarrow> u64 \<Rightarrow> ro_action list" where
  "ro_fcollectmem_wg c t team dest source n =
     wg_collective c t ((base_request c RO_NET_FCOLLECT dest source n 0)
       \<lparr>req_pWrk := ata_buffer team, req_op := ROCSHMEM_SUM, req_type := RO_NET_CHAR, req_comm := mpi_comm team\<rparr>)"

definition ro_reduce_wg :: "c_type \<Rightarrow> rocshmem_op \<Rightarrow> ro_context \<Rightarrow> thread_pos \<Rightarrow> ro_team \<Rightarrow> u64 \<Rightarrow> u64 \<Rightarrow> u64 \<Rightarrow> ro_action list" where
  "ro_reduce_wg T ope c t team dest source n =
     wg_collective c t ((base_request c RO_NET_TEAM_REDUCE dest source n 0)
       \<lparr>req_op := ope, req_type := GetROType T, req_comm := mpi_comm team\<rparr>)"

definition ro_reduce_scatter_wg :: "c_type \<Rightarrow> rocshmem_op \<Rightarrow> ro_context \<Rightarrow> thread_pos \<Rightarrow> ro_team \<Rightarrow> u64 \<Rightarrow> u64 \<Rightarrow> u64 \<Rightarrow> ro_action list" where
  "ro_reduce_scatter_wg T ope c t team dest source n =
     wg_collective c t ((base_request c RO_NET_TEAM_REDUCE_SCATTER dest source n 0)
       \<lparr>req_op := ope, req_type := GetROType T, req_comm := mpi_comm team\<rparr>)"

definition ro_broadcast_wg :: "c_type \<Rightarrow> ro_context \<Rightarrow> thread_pos \<Rightarrow> ro_team \<Rightarrow> u64 \<Rightarrow> u64 \<Rightarrow> u64 \<Rightarrow> int \<Rightarrow> ro_action list" where
  "ro_broadcast_wg T c t team dest source n pe_root =
     wg_collective c t ((base_request c RO_NET_TEAM_BROADCAST dest source n 0)
       \<lparr>req_root := pe_root, req_op := ROCSHMEM_SUM, req_type := GetROType T, req_comm := mpi_comm team\<rparr>)"

definition ro_alltoall_wg :: "c_type \<Rightarrow> ro_context \<Rightarrow> thread_pos \<Rightarrow> ro_team \<Rightarrow> u64 \<Rightarrow> u64 \<Rightarrow> u64 \<Rightarrow> ro_action list" where
  "ro_alltoall_wg T c t team dest source n =
     wg_collective c t ((base_request c RO_NET_ALLTOALL dest source n 0)
       \<lparr>req_pWrk := ata_buffer team, req_op := ROCSHMEM_SUM, req_type := GetROType T, req_comm := mpi_comm team\<rparr>)"

definition ro_fcollect_wg :: "c_type \<Rightarrow> ro_context \<Rightarrow> thread_pos \<Rightarrow> ro_team \<Rightarrow> u64 \<Rightarrow> u64 \<Rightarrow> u64 \<Rightarrow> ro_action list" where
  "ro_fcollect_wg T c t team dest source n =
     wg_collective c t ((base_request c RO_NET_FCOLLECT dest source n 0)
       \<lparr>req_pWrk := ata_buffer team, req_op := ROCSHMEM_SUM, req_type := GetROType T, req_comm := mpi_comm team\<rparr>)"

section \<open>The interface as a whole\<close>

fun requests :: "ro_action list \<Rightarrow> ro_request list" where
  "requests [] = []"
| "requests (Enqueue r # as) = r # requests as"
| "requests (_ # as) = requests as"

lemma requests_append [simp]: "requests (xs @ ys) = requests xs @ requests ys"
  by (induction xs rule: requests.induct) auto

lemma Enqueue_in_requests: "Enqueue r \<in> set as \<longleftrightarrow> r \<in> set (requests as)"
  by (induction as rule: requests.induct) auto

text \<open>The calls of the interface: what each thread does in a context, for every choice of arguments.\<close>

inductive ro_api :: "(ro_context \<Rightarrow> thread_pos \<Rightarrow> ro_action list) \<Rightarrow> bool" where
  api_putmem: "ro_api (\<lambda>c t. ro_putmem c t dest source n pe)"
| api_getmem: "ro_api (\<lambda>c t. ro_getmem c t dest source n pe)"
| api_putmem_nbi: "ro_api (\<lambda>c t. ro_putmem_nbi c t dest source n pe)"
| api_getmem_nbi: "ro_api (\<lambda>c t. ro_getmem_nbi c t dest source n pe)"
| api_putmem_wg: "ro_api (\<lambda>c t. ro_putmem_wg c t dest source n pe)"
| api_getmem_wg: "ro_api (\<lambda>c t. ro_getmem_wg c t dest source n pe)"
| api_putmem_nbi_wg: "ro_api (\<lambda>c t. ro_putmem_nbi_wg c t dest source n pe)"
| api_getmem_nbi_wg: "ro_api (\<lambda>c t. ro_getmem_nbi_wg c t dest source n pe)"
| api_putmem_wave: "ro_api (\<lambda>c t. ro_putmem_wave c t dest source n pe)"
| api_getmem_wave: "ro_api (\<lambda>c t. ro_getmem_wave c t dest source n pe)"
| api_putmem_nbi_wave: "ro_api (\<lambda>c t. ro_putmem_nbi_wave c t dest source n pe)"
| api_getmem_nbi_wave: "ro_api (\<lambda>c t. ro_getmem_nbi_wave c t dest source n pe)"
| api_put: "ro_api (\<lambda>c t. ro_put T c t dest source nelems pe)"
| api_put_nbi: "ro_api (\<lambda>c t. ro_put_nbi T c t dest source nelems pe)"
| api_get: "ro_api (\<lambda>c t. ro_get T c t dest source nelems pe)"
| api_get_nbi: "ro_api (\<lambda>c t. ro_get_nbi T c t dest source nelems pe)"
| api_put_wg: "ro_api (\<lambda>c t. ro_put_wg T c t dest source nelems pe)"
| api_put_nbi_wg: "ro_api (\<lambda>c t. ro_put_nbi_wg T c t dest source nelems pe)"
| api_put_wave: "ro_api (\<lambda>c t. ro_put_wave T c t dest source nelems pe)"
| api_put_nbi_wave: "ro_api (\<lambda>c t. ro_put_nbi_wave T c t dest source nelems pe)"
| api_get_wg: "ro_api (\<lambda>c t. ro_get_wg T c t dest source nelems pe)"
| api_get_nbi_wg: "ro_api (\<lambda>c t. ro_get_nbi_wg T c t dest source nelems pe)"
| api_get_wave: "ro_api (\<lambda>c t. ro_get_wave T c t dest source nelems pe)"
| api_get_nbi_wave: "ro_api (\<lambda>c t. ro_get_nbi_wave T c t dest source nelems pe)"
| api_p: "ro_api (\<lambda>c t. ro_p T c t dest value_addr value pe)"
| api_g: "ro_api (\<lambda>c t. ro_g T c t local_addr source pe)"
| api_fence: "ro_api (\<lambda>c t. ro_fence c t)"
| api_fence_pe: "ro_api (\<lambda>c t. ro_fence_pe c t pe)"
| api_quiet: "ro_api (\<lambda>c t. ro_quiet c t)"
| api_pe_quiet: "ro_api (\<lambda>c t. ro_pe_quiet c t pe)"
| api_barrier_all: "ro_api (\<lambda>c t. ro_barrier_all c t)"
| api_barrier_all_wave: "ro_api (\<lambda>c t. ro_barrier_all_wave c t)"
| api_barrier_all_wg: "ro_api (\<lambda>c t. ro_barrier_all_wg c t)"
| api_sync_all: "ro_api (\<lambda>c t. ro_sync_all c t)"
| api_sync_all_wave: "ro_api (\<lambda>c t. ro_sync_all_wave c t)"
| api_sync_all_wg: "ro_api (\<lambda>c t. ro_sync_all_wg c t)"
| api_barrier: "ro_api (\<lambda>c t. ro_barrier c t team)"
| api_barrier_wave: "ro_api (\<lambda>c t. ro_barrier_wave c t team)"
| api_barrier_wg: "ro_api (\<lambda>c t. ro_barrier_wg c t team)"
| api_sync: "ro_api (\<lambda>c t. ro_sync c t team)"
| api_sync_wave: "ro_api (\<lambda>c t. ro_sync_wave c t team)"
| api_sync_wg: "ro_api (\<lambda>c t. ro_sync_wg c t team)"
| api_amo_fetch_cas: "ro_api (\<lambda>c t. ro_amo_fetch_cas T c t d value cond pe)"
| api_amo_cas: "ro_api (\<lambda>c t. ro_amo_cas T c t d value cond pe)"
| api_amo_fetch_add: "ro_api (\<lambda>c t. ro_amo_fetch_add T c t d value pe)"
| api_amo_add: "ro_api (\<lambda>c t. ro_amo_add T c t d value pe)"
| api_amo_swap: "ro_api (\<lambda>c t. ro_amo_swap T c t d value pe)"
| api_amo_set: "ro_api (\<lambda>c t. ro_amo_set T c t d value pe)"
| api_amo_fetch_and: "ro_api (\<lambda>c t. ro_amo_fetch_and T c t d value pe)"
| api_amo_and: "ro_api (\<lambda>c t. ro_amo_and T c t d value pe)"
| api_amo_fetch_or: "ro_api (\<lambda>c t. ro_amo_fetch_or T c t d value pe)"
| api_amo_or: "ro_api (\<lambda>c t. ro_amo_or T c t d value pe)"
| api_amo_fetch_xor: "ro_api (\<lambda>c t. ro_amo_fetch_xor T c t d value pe)"
| api_amo_xor: "ro_api (\<lambda>c t. ro_amo_xor T c t d value pe)"
| api_putmem_signal: "ro_api (\<lambda>c t. ro_putmem_signal c t dest source n sig_addr signal so pe)"
| api_putmem_signal_nbi: "ro_api (\<lambda>c t. ro_putmem_signal_nbi c t dest source n sig_addr signal so pe)"
| api_putmem_signal_wg: "ro_api (\<lambda>c t. ro_putmem_signal_wg c t dest source n sig_addr signal so pe)"
| api_putmem_signal_nbi_wg: "ro_api (\<lambda>c t. ro_putmem_signal_nbi_wg c t dest source n sig_addr signal so pe)"
| api_putmem_signal_wave: "ro_api (\<lambda>c t. ro_putmem_signal_wave c t dest source n sig_addr signal so pe)"
| api_putmem_signal_nbi_wave: "ro_api (\<lambda>c t. ro_putmem_signal_nbi_wave c t dest source n sig_addr signal so pe)"
| api_signal_fetch: "ro_api (\<lambda>c t. ro_signal_fetch c t sig_addr)"
| api_signal_fetch_wg: "ro_api (\<lambda>c t. ro_signal_fetch_wg c t sig_addr)"
| api_signal_fetch_wave: "ro_api (\<lambda>c t. ro_signal_fetch_wave c t sig_addr)"
| api_alltoallmem_wg: "ro_api (\<lambda>c t. ro_alltoallmem_wg c t team dest source n)"
| api_broadcastmem_wg: "ro_api (\<lambda>c t. ro_broadcastmem_wg c t team dest source n pe_root)"
| api_fcollectmem_wg: "ro_api (\<lambda>c t. ro_fcollectmem_wg c t team dest source n)"
| api_reduce_wg: "ro_api (\<lambda>c t. ro_reduce_wg T ope c t team dest source n)"
| api_reduce_scatter_wg: "ro_api (\<lambda>c t. ro_reduce_scatter_wg T ope c t team dest source n)"
| api_broadcast_wg: "ro_api (\<lambda>c t. ro_broadcast_wg T c t team dest source n pe_root)"
| api_alltoall_wg: "ro_api (\<lambda>c t. ro_alltoall_wg T c t team dest source n)"
| api_fcollect_wg: "ro_api (\<lambda>c t. ro_fcollect_wg T c t team dest source n)"

lemmas ro_defs =
    ro_putmem_def ro_getmem_def ro_putmem_nbi_def ro_getmem_nbi_def ro_putmem_wg_def ro_getmem_wg_def
  ro_putmem_nbi_wg_def ro_getmem_nbi_wg_def ro_putmem_wave_def ro_getmem_wave_def ro_putmem_nbi_wave_def
  ro_getmem_nbi_wave_def ro_put_def ro_put_nbi_def ro_get_def ro_get_nbi_def ro_put_wg_def ro_put_nbi_wg_def
  ro_put_wave_def ro_put_nbi_wave_def ro_get_wg_def ro_get_nbi_wg_def ro_get_wave_def ro_get_nbi_wave_def
  ro_p_def ro_g_def ro_fence_def ro_fence_pe_def ro_quiet_def ro_pe_quiet_def ro_barrier_all_def
  ro_barrier_all_wave_def ro_barrier_all_wg_def ro_sync_all_def ro_sync_all_wave_def ro_sync_all_wg_def
  ro_barrier_def ro_barrier_wave_def ro_barrier_wg_def ro_sync_def ro_sync_wave_def ro_sync_wg_def
  ro_amo_fetch_cas_def ro_amo_cas_def ro_amo_fetch_add_def ro_amo_add_def ro_amo_swap_def ro_amo_set_def
  ro_amo_fetch_and_def ro_amo_and_def ro_amo_fetch_or_def ro_amo_or_def ro_amo_fetch_xor_def ro_amo_xor_def
  ro_putmem_signal_def ro_putmem_signal_nbi_def ro_putmem_signal_wg_def ro_putmem_signal_nbi_wg_def
  ro_putmem_signal_wave_def ro_putmem_signal_nbi_wave_def ro_signal_fetch_def ro_signal_fetch_wg_def
  ro_signal_fetch_wave_def ro_alltoallmem_wg_def ro_broadcastmem_wg_def ro_fcollectmem_wg_def ro_reduce_wg_def
  ro_reduce_scatter_wg_def ro_broadcast_wg_def ro_alltoall_wg_def ro_fcollect_wg_def
  wg_collective_def signal_amo_def amo_fop_def

text \<open>What a call may leave behind: requests of the right form, and every flag and buffer it took.\<close>

definition returned_status :: "ro_action list \<Rightarrow> nat" where
  "returned_status as = length (filter (\<lambda>a. \<exists>s. a = Return_Status s) as)"

definition well_behaved :: "ro_context \<Rightarrow> thread_pos \<Rightarrow> ro_action list \<Rightarrow> bool" where
  "well_behaved c t as \<longleftrightarrow>
     (\<forall>r\<in>set (requests as). request_ok r \<and> req_win r = ro_net_win_id c
        \<and> (req_blocking r \<longrightarrow> req_status r = get_status_flag c t))
     \<and> returned_status as = (if is_default_ctx c then length (filter req_blocking (requests as)) else 0)
     \<and> (\<forall>b. count_list as (Return_Buf b) = (if is_default_ctx c then count_list as (Take_Buf b) else 0))"

lemma well_behaved_append: "well_behaved c t xs \<Longrightarrow> well_behaved c t ys \<Longrightarrow> well_behaved c t (xs @ ys)"
  by (auto simp: well_behaved_def returned_status_def)

lemma well_behaved_Nil: "well_behaved c t []"
  by (simp add: well_behaved_def returned_status_def)

lemma well_behaved_silent:
  assumes "requests [a] = []" "\<And>s. a \<noteq> Return_Status s" "\<And>b. a \<noteq> Return_Buf b" "\<And>b. a \<noteq> Take_Buf b"
  shows "well_behaved c t [a]"
  using assms by (auto simp: well_behaved_def returned_status_def)

lemma well_behaved_blocking:
  "req_cmd r \<notin> {RO_NET_PUT_NBI, RO_NET_GET_NBI} \<Longrightarrow> req_win r = ro_net_win_id c
   \<Longrightarrow> well_behaved c t (blocking_request c t r)"
  by (auto simp: well_behaved_def returned_status_def blocking_request_def build_queue_element_def request_ok_def)

lemma well_behaved_nonblocking:
  "req_cmd r \<in> {RO_NET_PUT_NBI, RO_NET_GET_NBI} \<Longrightarrow> \<not> req_blocking r \<Longrightarrow> req_win r = ro_net_win_id c
   \<Longrightarrow> well_behaved c t (nonblocking_request r)"
  by (auto simp: well_behaved_def returned_status_def nonblocking_request_def build_queue_element_def request_ok_def)

text \<open>A buffer is taken before the request and returned after it.\<close>

lemma well_behaved_buffered:
  assumes "well_behaved c t as"
  shows "well_behaved c t (Take_Buf b # as @ (if is_default_ctx c then [Return_Buf b] else []) @ [Read_Buf b])"
  using assms by (auto simp: well_behaved_def returned_status_def)

lemma base_request_simps [simp]:
  "req_cmd (base_request c k d s n pe) = k" "req_win (base_request c k d s n pe) = ro_net_win_id c"
  "\<not> req_blocking (base_request c k d s n pe)"
  by (simp_all add: base_request_def)

lemma well_behaved_if: "(P \<Longrightarrow> well_behaved c t xs) \<Longrightarrow> (\<not> P \<Longrightarrow> well_behaved c t ys) \<Longrightarrow> well_behaved c t (if P then xs else ys)"
  by simp

lemma well_behaved_option:
  "(m = None \<Longrightarrow> well_behaved c t xs) \<Longrightarrow> (\<And>l. m = Some l \<Longrightarrow> well_behaved c t (f l))
   \<Longrightarrow> well_behaved c t (case m of None \<Rightarrow> xs | Some l \<Rightarrow> f l)"
  by (cases m) simp_all

lemma well_behaved_pair: "(\<And>x y. p = (x, y) \<Longrightarrow> well_behaved c t (f x y)) \<Longrightarrow> well_behaved c t (case p of (x, y) \<Rightarrow> f x y)"
  by (cases p) simp

lemma well_behaved_sig_op:
  "well_behaved c t xs \<Longrightarrow> well_behaved c t ys \<Longrightarrow> well_behaved c t zs
   \<Longrightarrow> well_behaved c t (case so of ROCSHMEM_SIGNAL_SET \<Rightarrow> xs | ROCSHMEM_SIGNAL_ADD \<Rightarrow> ys | Invalid_sig_op \<Rightarrow> zs)"
  by (cases so) simp_all

lemmas well_behaved_intros = well_behaved_sig_op well_behaved_buffered well_behaved_append well_behaved_Nil well_behaved_blocking
  well_behaved_nonblocking well_behaved_if well_behaved_option well_behaved_pair well_behaved_silent

lemma ro_api_well_behaved: "ro_api f \<Longrightarrow> well_behaved c t (f c t)"
  by (induction rule: ro_api.induct) (unfold ro_defs Let_def, (intro well_behaved_intros; simp)+)


text \<open>The default context of PE 0, with PE 1 on the same node, and its first thread.\<close>

definition demo_ctx :: ro_context where
  "demo_ctx = \<lparr>ro_net_win_id = 3, is_default_ctx = True, my_pe = 0,
     ipc_avail = (\<lambda>pe. if pe = 1 then Some 1 else None), ipc_bases = [4096, 8192], shm_rank = 0,
     block_status = 0, block_atomic_ret = 0, block_g_ret = 0,
     dequeued_status = 77, dequeued_atomic_ret = 1024, dequeued_g_ret = 2048,
     coal = (\<lambda>pe source dest n. (True, n))\<rparr>"

definition demo_pos :: thread_pos where
  "demo_pos = \<lparr>threadIdx = \<lparr>dim_x = 0, dim_y = 0, dim_z = 0\<rparr>, blockDim = \<lparr>dim_x = 64, dim_y = 1, dim_z = 1\<rparr>,
     blockIdx = \<lparr>dim_x = 0, dim_y = 0, dim_z = 0\<rparr>, gridDim = \<lparr>dim_x = 1, dim_y = 1, dim_z = 1\<rparr>\<rparr>"

definition demo_put :: ro_request where
  "demo_put = (base_request demo_ctx RO_NET_PUT 64 128 8 2)\<lparr>req_blocking := True, req_status := 77\<rparr>"


text \<open>No call leaks a status flag or a return buffer. On the default context a thread gives
  back exactly one status flag per blocking request and every return buffer it took; on other
  contexts, whose flags and buffers belong to the block, nothing is given back.\<close>

theorem ro_call_returns_resources:
  assumes "ro_api f"
  shows "returned_status (f c t) = (if is_default_ctx c then length (filter req_blocking (requests (f c t))) else 0)
    \<and> (\<forall>b. count_list (f c t) (Return_Buf b) = (if is_default_ctx c then count_list (f c t) (Take_Buf b) else 0))"
  using ro_api_well_behaved [OF assms, of c t] by (simp add: well_behaved_def)

theorem ro_call_returns_resources_witness:
  "returned_status (ro_amo_fetch_add C_int demo_ctx demo_pos 64 1 2) = 1
   \<and> count_list (ro_amo_fetch_add C_int demo_ctx demo_pos 64 1 2) (Return_Buf 1024) = 1"
  using ro_call_returns_resources [OF api_amo_fetch_add [of C_int 64 1 2], of demo_ctx demo_pos]
  by (simp add: ro_amo_fetch_add_def amo_fop_def demo_ctx_def blocking_request_def build_queue_element_def
      get_atomic_ret_buf_def)

section \<open>Workgroup barriers\<close>

definition syncs :: "ro_action list \<Rightarrow> nat" where
  "syncs as = count_list as Sync_Threads"

lemma syncs_simps [simp]:
  "syncs [] = 0" "syncs (xs @ ys) = syncs xs + syncs ys"
  "syncs (a # as) = (if a = Sync_Threads then 1 else 0) + syncs as"
  "syncs (blocking_request c t r) = 0" "syncs (nonblocking_request r) = 0"
  by (simp_all add: syncs_def blocking_request_def nonblocking_request_def build_queue_element_def)

lemma ro_api_syncs: "ro_api f \<Longrightarrow> syncs (f c t) = syncs (f c' t')"
  by (induction rule: ro_api.induct) (simp_all add: ro_defs Let_def split: option.split prod.split sig_op.split)

text \<open>No call can hang a workgroup on a divergent barrier: how often a thread meets the
  others at a workgroup barrier is fixed by the call alone. It depends neither on the thread's
  position, nor on whether the peer is reached over shared memory, nor on the coalescer.\<close>

theorem ro_barriers_uniform:
  assumes "ro_api f"
  shows "\<exists>k. \<forall>c t. syncs (f c t) = k"
  using ro_api_syncs [OF assms] by blast

theorem ro_barriers_uniform_witness: "\<exists>k. \<forall>c t. syncs (ro_putmem_wg c t 64 128 8 2) = k"
  by (rule ro_barriers_uniform [OF api_putmem_wg])

section \<open>One request per workgroup\<close>

inductive ro_wg_api :: "(ro_context \<Rightarrow> thread_pos \<Rightarrow> ro_action list) \<Rightarrow> bool" where
  wg_api_alltoallmem_wg: "ro_wg_api (\<lambda>c t. ro_alltoallmem_wg c t team dest source n)"
| wg_api_broadcastmem_wg: "ro_wg_api (\<lambda>c t. ro_broadcastmem_wg c t team dest source n pe_root)"
| wg_api_fcollectmem_wg: "ro_wg_api (\<lambda>c t. ro_fcollectmem_wg c t team dest source n)"
| wg_api_reduce_wg: "ro_wg_api (\<lambda>c t. ro_reduce_wg T ope c t team dest source n)"
| wg_api_reduce_scatter_wg: "ro_wg_api (\<lambda>c t. ro_reduce_scatter_wg T ope c t team dest source n)"
| wg_api_broadcast_wg: "ro_wg_api (\<lambda>c t. ro_broadcast_wg T c t team dest source n pe_root)"
| wg_api_alltoall_wg: "ro_wg_api (\<lambda>c t. ro_alltoall_wg T c t team dest source n)"
| wg_api_fcollect_wg: "ro_wg_api (\<lambda>c t. ro_fcollect_wg T c t team dest source n)"
| wg_api_barrier_wg: "ro_wg_api (\<lambda>c t. ro_barrier_wg c t team)"
| wg_api_sync_wg: "ro_wg_api (\<lambda>c t. ro_sync_wg c t team)"
| wg_api_barrier_all_wg: "ro_wg_api (\<lambda>c t. ro_barrier_all_wg c t)"
| wg_api_sync_all_wg: "ro_wg_api (\<lambda>c t. ro_sync_all_wg c t)"

lemma ro_wg_api_request:
  "ro_wg_api f \<Longrightarrow> length (requests (f c t)) = (if is_thread_zero_in_block t then 1 else 0)"
  by (induction rule: ro_wg_api.induct)
    (simp_all add: ro_defs blocking_request_def build_queue_element_def)

text \<open>A workgroup collective, barrier or synchronisation is asked for exactly once: of the
  threads of a non-empty block exactly one enqueues a request, and it enqueues one.\<close>

theorem wg_call_requests_once:
  assumes "ro_wg_api f" "0 < dim_size b" "in_dim g p"
  shows "(\<exists>!t. t \<in> grid_threads g b \<and> blockIdx t = p \<and> requests (f c t) \<noteq> [])
     \<and> (\<forall>t. length (requests (f c t)) \<le> 1)"
proof -
  let ?t = "\<lparr>threadIdx = \<lparr>dim_x = 0, dim_y = 0, dim_z = 0\<rparr>, blockDim = b, blockIdx = p, gridDim = g\<rparr>"
  have req: "requests (f c t) \<noteq> [] \<longleftrightarrow> is_thread_zero_in_block t" for t
    using ro_wg_api_request [OF assms(1), of c t] by (auto split: if_splits)
  have "\<exists>!t. t \<in> grid_threads g b \<and> blockIdx t = p \<and> requests (f c t) \<noteq> []"
  proof (rule ex1I [of _ ?t])
    show "?t \<in> grid_threads g b \<and> blockIdx ?t = p \<and> requests (f c ?t) \<noteq> []"
      using assms by (auto simp: req grid_threads_def in_dim_def dim_size_def is_thread_zero_in_block_def)
  qed (auto simp: req grid_threads_def is_thread_zero_in_block_def)
  then show ?thesis using ro_wg_api_request [OF assms(1), of c] by simp
qed

theorem wg_call_requests_once_witness:
  "\<exists>!t. t \<in> grid_threads \<lparr>dim_x = 2, dim_y = 1, dim_z = 1\<rparr> \<lparr>dim_x = 64, dim_y = 1, dim_z = 1\<rparr>
     \<and> blockIdx t = \<lparr>dim_x = 1, dim_y = 0, dim_z = 0\<rparr> \<and> requests (ro_sync_all_wg demo_ctx t) \<noteq> []"
  using wg_call_requests_once [OF wg_api_sync_all_wg, of "\<lparr>dim_x = 64, dim_y = 1, dim_z = 1\<rparr>"
      "\<lparr>dim_x = 2, dim_y = 1, dim_z = 1\<rparr>" "\<lparr>dim_x = 1, dim_y = 0, dim_z = 0\<rparr>" demo_ctx]
  by (simp add: in_dim_def dim_size_def)

section \<open>Put with signal\<close>

definition moves_data :: "ro_action \<Rightarrow> bool" where
  "moves_data a = (case a of
     Ipc_Copy _ _ _ _ _ _ \<Rightarrow> True
   | Enqueue r \<Rightarrow> req_cmd r \<in> {RO_NET_PUT, RO_NET_GET, RO_NET_PUT_NBI, RO_NET_GET_NBI, RO_NET_P}
   | _ \<Rightarrow> False)"

definition updates_signal :: "ro_action \<Rightarrow> bool" where
  "updates_signal a = (case a of Enqueue r \<Rightarrow> req_cmd r \<in> {RO_NET_AMO_FOP, RO_NET_AMO_FCAS} | _ \<Rightarrow> False)"

inductive ro_signal_api :: "(ro_context \<Rightarrow> thread_pos \<Rightarrow> ro_action list) \<Rightarrow> sig_op \<Rightarrow> bool" where
  sig_api_putmem_signal: "ro_signal_api (\<lambda>c t. ro_putmem_signal c t dest source n sig_addr signal so pe) so"
| sig_api_putmem_signal_nbi: "ro_signal_api (\<lambda>c t. ro_putmem_signal_nbi c t dest source n sig_addr signal so pe) so"
| sig_api_putmem_signal_wg: "ro_signal_api (\<lambda>c t. ro_putmem_signal_wg c t dest source n sig_addr signal so pe) so"
| sig_api_putmem_signal_nbi_wg: "ro_signal_api (\<lambda>c t. ro_putmem_signal_nbi_wg c t dest source n sig_addr signal so pe) so"
| sig_api_putmem_signal_wave: "ro_signal_api (\<lambda>c t. ro_putmem_signal_wave c t dest source n sig_addr signal so pe) so"
| sig_api_putmem_signal_nbi_wave: "ro_signal_api (\<lambda>c t. ro_putmem_signal_nbi_wave c t dest source n sig_addr signal so pe) so"

lemma fence_separates:
  assumes "as = xs @ ro_fence c t @ ys" "\<forall>a\<in>set xs. \<not> updates_signal a" "\<forall>a\<in>set ys. \<not> moves_data a"
  shows "\<exists>xs ys. as = xs @ ro_fence c t @ ys \<and> (\<forall>a\<in>set xs. \<not> updates_signal a) \<and> (\<forall>a\<in>set ys. \<not> moves_data a)"
  using assms by blast

lemma put_no_signal:
  "a \<in> set (ro_putmem c t dest source n pe) \<Longrightarrow> \<not> updates_signal a"
  "a \<in> set (ro_putmem_wg c t dest source n pe) \<Longrightarrow> \<not> updates_signal a"
  "a \<in> set (ro_putmem_wave c t dest source n pe) \<Longrightarrow> \<not> updates_signal a"
  by (auto simp: ro_putmem_def ro_putmem_wg_def ro_putmem_wave_def updates_signal_def blocking_request_def
      build_queue_element_def split: option.splits if_splits prod.splits)

lemma signal_no_move: "a \<in> set (signal_amo so c t sig_addr signal pe) \<Longrightarrow> \<not> moves_data a"
  by (cases so) (auto simp: signal_amo_def ro_amo_set_def ro_amo_swap_def ro_amo_add_def ro_amo_fetch_add_def
      amo_fop_def Let_def moves_data_def blocking_request_def build_queue_element_def split: if_splits)



text \<open>On the default context the return buffer of a fetching operation is given back to its
  free list before its value is read.\<close>

lemma fetch_reads_returned_buffer:
  assumes "is_default_ctx c"
  shows "\<exists>pre. amo_fop T ope c t d value pe = pre @ [Return_Buf (get_atomic_ret_buf c t), Read_Buf (get_atomic_ret_buf c t)]"
  using assms by (simp add: amo_fop_def Let_def)

end
