(* ===== verification/Ro_Queue.thy ===== *)
theory Ro_Queue
  imports Ro_Commands Lanes
begin

text \<open>
  The command queue between the device and the host: the ring of a \<open>BlockHandle\<close>
  (\<open>reverse_offload/block_handle.hpp\<close>), the device side of \<open>context_ro_device.cpp\<close>
  (\<open>next_write_slot\<close> and \<open>build_queue_element\<close>) and the host side of \<open>queue.cpp\<close>.

  Any number of wavefronts call \<open>build_queue_element\<close> on one handle. The lowest active lane
  of a call takes the lock, waits for space, reserves one slot per active lane and releases the
  lock; then every lane stores its element, marks it valid and, for a blocking request, polls
  the status flag of its slot. The host consumes valid elements in slot order. Each shared
  access is one step, and the steps interleave freely. The requests in the order of their
  reservation and the number of a lane's request in that order are history variables.
\<close>

section \<open>Device side\<close>

record block_handle =
  queue_size :: u64
  read_index :: u64
  write_index :: u64
  lock :: u64

definition number_active_lanes :: "u64 \<Rightarrow> u64" where
  "number_active_lanes ballot = of_nat (popcount ballot)"

definition active_lanes :: "u64 \<Rightarrow> nat list" where
  "active_lanes ballot = filter (bit ballot) [0..<64]"

definition enough_space :: "block_handle \<Rightarrow> u64 \<Rightarrow> bool" where
  "enough_space h required \<longleftrightarrow> queue_size h - (write_index h - read_index h) \<ge> required"

text \<open>The lowest active lane of a call: spinning on the lock, waiting for space, about to
  reserve, about to release the lock, and past the broadcast.\<close>

datatype call_pc =
  C_start
| C_spin u64 "nat \<Rightarrow> ro_request"
| C_locked u64 "nat \<Rightarrow> ro_request"
| C_ready u64 "nat \<Rightarrow> ro_request"
| C_unlock
| C_done

datatype lane_stage = L_store | L_publish | L_wait

record lane =
  l_call :: nat
  l_slot :: u64
  l_req :: ro_request
  l_stage :: lane_stage

record ro_queue =
  handle :: block_handle
  host_read_index :: u64
  ring :: "queue_element list"
  inserted :: "queue_element list"
  flags :: "u64 \<Rightarrow> bool"
  calls :: "nat \<Rightarrow> call_pc"
  lanes :: "nat \<Rightarrow> lane option"
  reserved :: "ro_request list"

definition next_write_slot :: "block_handle \<Rightarrow> u64 \<Rightarrow> nat \<Rightarrow> u64" where
  "next_write_slot h ballot lane =
     (let write_slot = write_index h;
          write_slot = write_slot + of_nat (active_logical_lane_id ballot lane)
      in write_slot mod queue_size h)"

definition reserve :: "nat \<Rightarrow> u64 \<Rightarrow> (nat \<Rightarrow> ro_request) \<Rightarrow> ro_queue \<Rightarrow> ro_queue" where
  "reserve c ballot rs s = s
     \<lparr>handle := (handle s)\<lparr>write_index := write_index (handle s) + number_active_lanes ballot\<rparr>,
      calls := (calls s)(c := C_unlock),
      lanes := lanes s ++ map_of (map (\<lambda>p. (length (reserved s) + active_logical_lane_id ballot p,
                 \<lparr>l_call = c, l_slot = next_write_slot (handle s) ballot p, l_req = rs p, l_stage = L_store\<rparr>))
                 (active_lanes ballot)),
      reserved := reserved s @ map rs (active_lanes ballot)\<rparr>"

text \<open>The stores of \<open>build_queue_element\<close> up to the first fence, and the store that follows it.\<close>

definition store_fields :: "ro_request \<Rightarrow> queue_element \<Rightarrow> queue_element" where
  "store_fields r e = (fill_element r e)\<lparr>valid := valid e\<rparr>"

definition slot_elem :: "ro_queue \<Rightarrow> u64 \<Rightarrow> queue_element" where
  "slot_elem s w = ring s ! unat w"

section \<open>Host side\<close>

definition get_read_index :: "ro_queue \<Rightarrow> u64" where
  "get_read_index s = host_read_index s mod queue_size (handle s)"

definition process :: "ro_queue \<Rightarrow> ro_queue" where
  "process s =
     (let next_elem = slot_elem s (get_read_index s)
      in if valid next_elem then s
           \<lparr>inserted := inserted s @ [next_elem],
            ring := (ring s)[unat (get_read_index s) := next_elem\<lparr>valid := False\<rparr>],
            host_read_index := host_read_index s + 1\<rparr>
         else s)"

definition notify :: "u64 \<Rightarrow> ro_queue \<Rightarrow> ro_queue" where
  "notify p s = s\<lparr>flags := (flags s)(p := True)\<rparr>"

section \<open>Steps\<close>

inductive roq_step :: "ro_queue \<Rightarrow> ro_queue \<Rightarrow> bool" where
  call: "calls s c = C_start \<Longrightarrow> ballot \<noteq> 0 \<Longrightarrow> roq_step s (s\<lparr>calls := (calls s)(c := C_spin ballot rs)\<rparr>)"
| acquire_lock: "calls s c = C_spin ballot rs \<Longrightarrow> lock (handle s) = 0 \<Longrightarrow>
    roq_step s (s\<lparr>handle := (handle s)\<lparr>lock := 1\<rparr>, calls := (calls s)(c := C_locked ballot rs)\<rparr>)"
| wait_until_space: "calls s c = C_locked ballot rs \<Longrightarrow> \<not> enough_space (handle s) (number_active_lanes ballot) \<Longrightarrow>
    roq_step s (s\<lparr>handle := (handle s)\<lparr>read_index := host_read_index s\<rparr>\<rparr>)"
| space_found: "calls s c = C_locked ballot rs \<Longrightarrow> enough_space (handle s) (number_active_lanes ballot) \<Longrightarrow>
    roq_step s (s\<lparr>calls := (calls s)(c := C_ready ballot rs)\<rparr>)"
| reserve_slots: "calls s c = C_ready ballot rs \<Longrightarrow> roq_step s (reserve c ballot rs s)"
| release_lock: "calls s c = C_unlock \<Longrightarrow>
    roq_step s (s\<lparr>handle := (handle s)\<lparr>lock := 0\<rparr>, calls := (calls s)(c := C_done)\<rparr>)"
| lane_store: "lanes s j = Some l \<Longrightarrow> l_stage l = L_store \<Longrightarrow> calls s (l_call l) = C_done \<Longrightarrow>
    roq_step s (s\<lparr>ring := (ring s)[unat (l_slot l) := store_fields (l_req l) (slot_elem s (l_slot l))],
      lanes := (lanes s)(j \<mapsto> l\<lparr>l_stage := L_publish\<rparr>)\<rparr>)"
| lane_publish: "lanes s j = Some l \<Longrightarrow> l_stage l = L_publish \<Longrightarrow>
    roq_step s (s\<lparr>ring := (ring s)[unat (l_slot l) := (slot_elem s (l_slot l))\<lparr>valid := True\<rparr>],
      lanes := (lanes s)(j := if req_blocking (l_req l) then Some (l\<lparr>l_stage := L_wait\<rparr>) else None)\<rparr>)"
| lane_wait: "lanes s j = Some l \<Longrightarrow> l_stage l = L_wait \<Longrightarrow> flags s (status (slot_elem s (l_slot l))) \<Longrightarrow>
    roq_step s (s\<lparr>flags := (flags s)(status (slot_elem s (l_slot l)) := False), lanes := (lanes s)(j := None)\<rparr>)"
| host_process: "roq_step s (process s)"
| host_notify: "roq_step s (notify p s)"

inductive_cases roq_stepE: "roq_step s t"

text \<open>The queue after its construction: all slots invalid, all counters zero. The number of slots, 512
  in the backend, divides the range of the 64-bit counters.\<close>

definition roq_init :: "u64 \<Rightarrow> ro_queue \<Rightarrow> bool" where
  "roq_init n s \<longleftrightarrow> unat n dvd 2 ^ 64 \<and> handle s = \<lparr>queue_size = n, read_index = 0, write_index = 0, lock = 0\<rparr>
     \<and> host_read_index s = 0 \<and> length (ring s) = unat n \<and> (\<forall>e\<in>set (ring s). \<not> valid e)
     \<and> inserted s = [] \<and> calls s = (\<lambda>_. C_start) \<and> lanes s = Map.empty \<and> reserved s = []"

section \<open>Active lanes and slots\<close>

lemma card_less_nth:
  assumes "sorted_wrt (<) xs" "i < length xs"
  shows "card {x \<in> set xs. x < (xs ! i :: nat)} = i"
proof -
  have "{x \<in> set xs. x < xs ! i} = set (take i xs)"
  proof (intro set_eqI iffI)
    fix x assume "x \<in> {x \<in> set xs. x < xs ! i}"
    then obtain k where k: "k < length xs" "x = xs ! k" "xs ! k < xs ! i" by (auto simp: in_set_conv_nth)
    then have "k < i" using assms by (metis linorder_neqE_nat not_less_iff_gr_or_eq sorted_wrt_nth_less)
    then show "x \<in> set (take i xs)" using k assms by (auto simp: in_set_conv_nth)
  next
    fix x assume "x \<in> set (take i xs)"
    then obtain k where "k < i" "x = xs ! k" using assms(2) by (auto simp: in_set_conv_nth)
    then show "x \<in> {x \<in> set xs. x < xs ! i}"
      using assms by (auto simp: sorted_wrt_nth_less)
  qed
  moreover have "distinct xs" using assms(1) by (simp add: strict_sorted_iff)
  ultimately show ?thesis using assms(2) by (simp add: distinct_card)
qed

lemma set_active_lanes: "set (active_lanes ballot) = {p. bit ballot p}"
  by (auto simp: active_lanes_def dest: bit_lane_less)

lemma length_active_lanes [simp]: "length (active_lanes ballot) = popcount ballot"
  by (simp add: active_lanes_def popcount_def)

lemma logical_ids: "map (active_logical_lane_id ballot) (active_lanes ballot) = [0..<popcount ballot]"
proof (rule nth_equalityI)
  fix i assume "i < length (map (active_logical_lane_id ballot) (active_lanes ballot))"
  then have i: "i < length (active_lanes ballot)" by simp
  have "sorted_wrt (<) (active_lanes ballot)" by (simp add: active_lanes_def sorted_wrt_filter)
  then have "card {x. bit ballot x \<and> x < active_lanes ballot ! i} = i"
    using card_less_nth [OF _ i] set_active_lanes by simp
  moreover have "active_lanes ballot ! i < 64"
    using nth_mem [OF i] by (simp add: set_active_lanes bit_lane_less del: nth_mem)
  ultimately show "map (active_logical_lane_id ballot) (active_lanes ballot) ! i = [0..<popcount ballot] ! i"
    using i by (simp add: active_logical_lane_id_card)
qed simp

lemma popcount_le_64: "popcount (ballot :: u64) \<le> 64"
  by (simp add: popcount_def) (metis length_filter_le length_upt diff_zero)

lemma lookup_numbered:
  assumes "map f xs = [0..<length xs]"
  shows "map_of (map (\<lambda>p. (k + f p, g (f p) p)) xs) j
    = (if k \<le> j \<and> j < k + length xs then Some (g (j - k) (xs ! (j - k))) else None)"
proof -
  have f: "f (xs ! i) = i" if "i < length xs" for i
    using arg_cong [OF assms, of "\<lambda>ys. ys ! i"] that by simp
  have "map (\<lambda>p. (k + f p, g (f p) p)) xs = map (\<lambda>i. (k + i, g i (xs ! i))) [0..<length xs]"
    by (rule nth_equalityI) (simp_all add: f)
  also have "\<dots> = zip [k..<k + length xs] (map (\<lambda>i. g i (xs ! i)) [0..<length xs])"
    by (rule nth_equalityI) simp_all
  finally have e: "map (\<lambda>p. (k + f p, g (f p) p)) xs = \<dots>" .
  show ?thesis
  proof (cases "k \<le> j \<and> j < k + length xs")
    case True
    then have "map_of (zip [k..<k + length xs] (map (\<lambda>i. g i (xs ! i)) [0..<length xs])) ([k..<k + length xs] ! (j - k))
        = Some (map (\<lambda>i. g i (xs ! i)) [0..<length xs] ! (j - k))"
      by (intro map_of_zip_nth) auto
    moreover have "j - k < length xs" using True by auto
    ultimately show ?thesis using True unfolding e by simp
  next
    case False
    then have "j \<notin> fst ` set (map (\<lambda>p. (k + f p, g (f p) p)) xs)"
      unfolding e by (auto simp: in_set_zip)
    then have "map_of (map (\<lambda>p. (k + f p, g (f p) p)) xs) j = None"
      by (simp only: map_of_eq_None_iff) simp
    then show ?thesis using False by (simp del: map_of_eq_None_iff)
  qed
qed

lemma unat_of_nat_64: "x < 2 ^ 64 \<Longrightarrow> unat (of_nat x :: u64) = x"
  by (simp add: unat_of_nat take_bit_nat_eq_self_iff)

lemma unat_slot:
  assumes "unat n dvd 2 ^ 64"
  shows "unat ((of_nat j :: u64) mod n) = j mod unat n"
  using assms by (simp add: unat_mod unat_of_nat take_bit_eq_mod mod_mod_cancel)

lemma window_inj:
  fixes N :: nat
  assumes "i mod N = j mod N" "c \<le> i" "i < c + N" "c \<le> j" "j < c + N"
  shows "i = j"
proof -
  have "(c + (i - c)) mod N = (c + (j - c)) mod N" using assms by simp
  moreover have "i - c < N" "j - c < N" using assms(2-5) by linarith+
  ultimately have "i - c = j - c" by (rule ring_index_inj [rotated 2])
  then show ?thesis using assms(2,4) by simp
qed

lemma congruent_lap:
  fixes N :: nat
  assumes "i mod N = j mod N" "i < j" "0 < N"
  shows "i + N \<le> j"
  using strided_next [of N i j] assms by auto

section \<open>Invariant\<close>

abbreviation slots :: "ro_queue \<Rightarrow> nat" where
  "slots s \<equiv> unat (queue_size (handle s))"

abbreviation issued :: "ro_queue \<Rightarrow> nat" where
  "issued s \<equiv> length (reserved s)"

abbreviation consumed :: "ro_queue \<Rightarrow> nat" where
  "consumed s \<equiv> length (inserted s)"

definition elem :: "ro_queue \<Rightarrow> nat \<Rightarrow> queue_element" where
  "elem s j = ring s ! (j mod slots s)"

text \<open>An element holds a request, whether or not it is valid.\<close>

definition written :: "ro_request \<Rightarrow> queue_element \<Rightarrow> bool" where
  "written r e' \<longleftrightarrow> (\<exists>e. e'\<lparr>valid := True\<rparr> = fill_element r e)"

definition index_inv :: "ro_queue \<Rightarrow> nat \<Rightarrow> bool" where
  "index_inv s rd \<longleftrightarrow> slots s dvd 2 ^ 64 \<and> length (ring s) = slots s
     \<and> write_index (handle s) = of_nat (issued s) \<and> host_read_index s = of_nat (consumed s)
     \<and> read_index (handle s) = of_nat rd \<and> rd \<le> consumed s \<and> consumed s \<le> issued s \<and> issued s \<le> rd + slots s"

fun held :: "call_pc \<Rightarrow> bool" where
  "held (C_locked _ _) = True"
| "held (C_ready _ _) = True"
| "held C_unlock = True"
| "held _ = False"

definition lock_inv :: "ro_queue \<Rightarrow> bool" where
  "lock_inv s \<longleftrightarrow>
     (lock (handle s) \<noteq> 0 \<longleftrightarrow> (\<exists>c. held (calls s c))) \<and> (\<forall>c d. held (calls s c) \<longrightarrow> held (calls s d) \<longrightarrow> c = d)
     \<and> (\<forall>c ballot rs. calls s c = C_ready ballot rs \<longrightarrow> enough_space (handle s) (number_active_lanes ballot))"

definition lane_inv :: "ro_queue \<Rightarrow> nat \<Rightarrow> lane \<Rightarrow> bool" where
  "lane_inv s j l \<longleftrightarrow> j < issued s \<and> l_req l = reserved s ! j \<and> unat (l_slot l) = j mod slots s
     \<and> (l_stage l \<noteq> L_wait \<longrightarrow> consumed s \<le> j \<and> \<not> valid (elem s j))
     \<and> (l_stage l = L_wait \<longrightarrow> req_blocking (l_req l))
     \<and> (l_stage l = L_store \<longrightarrow> calls s (l_call l) \<in> {C_unlock, C_done})
     \<and> (l_stage l = L_publish \<or> l_stage l = L_wait \<and> issued s \<le> j + slots s \<longrightarrow> written (reserved s ! j) (elem s j))"

definition valid_inv :: "ro_queue \<Rightarrow> bool" where
  "valid_inv s \<longleftrightarrow> (\<forall>x < slots s. valid (ring s ! x) \<longrightarrow>
     (\<exists>j. consumed s \<le> j \<and> j < issued s \<and> x = j mod slots s \<and> written (reserved s ! j) (ring s ! x)))"

definition pending_inv :: "ro_queue \<Rightarrow> bool" where
  "pending_inv s \<longleftrightarrow> (\<forall>j. consumed s \<le> j \<and> j < issued s \<longrightarrow>
     valid (elem s j) \<or> (\<exists>l. lanes s j = Some l \<and> l_stage l \<noteq> L_wait))"

definition inserted_inv :: "ro_queue \<Rightarrow> bool" where
  "inserted_inv s \<longleftrightarrow> (\<forall>j<consumed s. written (reserved s ! j) (inserted s ! j) \<and> valid (inserted s ! j))"

definition roq_inv :: "u64 \<Rightarrow> ro_queue \<Rightarrow> bool" where
  "roq_inv n s \<longleftrightarrow> queue_size (handle s) = n \<and> (\<exists>rd. index_inv s rd) \<and> lock_inv s
     \<and> (\<forall>j l. lanes s j = Some l \<longrightarrow> lane_inv s j l) \<and> valid_inv s \<and> pending_inv s \<and> inserted_inv s"

lemma enough_space_iff:
  assumes "index_inv s rd" "n \<le> 64"
  shows "enough_space (handle s) (of_nat n) \<longleftrightarrow> issued s + n \<le> rd + slots s"
proof -
  let ?h = "handle s"
  have le: "issued s - rd \<le> slots s" "rd \<le> issued s" using assms by (auto simp: index_inv_def)
  have lt: "slots s < 2 ^ 64" using unsigned_less [where 'a = nat and w = "queue_size ?h"] by simp
  have "write_index ?h - read_index ?h = of_nat (issued s - rd)"
    using assms le by (simp add: index_inv_def of_nat_diff)
  then have d: "unat (write_index ?h - read_index ?h) = issued s - rd"
    using le lt unat_of_nat_64 [of "issued s - rd"] by simp
  then have "unat (queue_size ?h - (write_index ?h - read_index ?h)) = slots s - (issued s - rd)"
    using le by (subst unat_sub) (simp_all add: word_le_nat_alt)
  moreover have "unat (of_nat n :: u64) = n" using assms(2) by (intro unat_of_nat_64) simp
  ultimately show ?thesis
    using le by (auto simp: enough_space_def word_le_nat_alt)
qed

lemma fill_element_valid [simp]: "valid (fill_element r e)" "(fill_element r e)\<lparr>valid := True\<rparr> = fill_element r e"
  by (simp_all add: fill_element_def Let_def)

lemma written_valid [simp]: "written r (e\<lparr>valid := v\<rparr>) \<longleftrightarrow> written r e"
  by (simp add: written_def)

lemma written_store [simp]: "written r (store_fields r e)" "valid (store_fields r e) = valid e"
  by (auto simp: written_def store_fields_def)

lemma written_submit:
  assumes "written r e" "valid e"
  shows "\<exists>e'. e = fill_element r e'"
proof -
  have "e\<lparr>valid := True\<rparr> = e" using assms(2) by simp
  then show ?thesis using assms(1) by (auto simp: written_def)
qed

lemma written_status: "written r e \<Longrightarrow> req_blocking r \<Longrightarrow> status e = req_status r"
proof -
  assume "written r e" "req_blocking r"
  then obtain e' where "e\<lparr>valid := True\<rparr> = fill_element r e'" by (auto simp: written_def)
  then have "status (e\<lparr>valid := True\<rparr>) = status (fill_element r e')" by (rule arg_cong)
  then show ?thesis using \<open>req_blocking r\<close> by (simp add: fill_element_def Let_def)
qed

lemma roq_invD:
  assumes "roq_inv n s"
  shows "queue_size (handle s) = n" "\<exists>rd. index_inv s rd" "lock_inv s" "lanes s j = Some l \<Longrightarrow> lane_inv s j l"
    "valid_inv s" "pending_inv s" "inserted_inv s"
  using assms by (simp_all add: roq_inv_def)

text \<open>Steps that leave the ring and the lanes alone.\<close>

lemma roq_inv_frame:
  assumes "roq_inv n s" "\<exists>rd. index_inv t rd" "lock_inv t"
    "ring t = ring s" "inserted t = inserted s" "reserved t = reserved s" "lanes t = lanes s"
    "queue_size (handle t) = queue_size (handle s)"
    "\<And>c. calls s c \<in> {C_unlock, C_done} \<Longrightarrow> calls t c \<in> {C_unlock, C_done}"
  shows "roq_inv n t"
proof -
  have e: "elem t = elem s" using assms(4,8) by (simp add: elem_def fun_eq_iff)
  have "lane_inv t j l" if "lane_inv s j l" for j l
    using that assms(4-9) unfolding lane_inv_def e by auto
  moreover have "valid_inv t \<longleftrightarrow> valid_inv s" "pending_inv t \<longleftrightarrow> pending_inv s" "inserted_inv t \<longleftrightarrow> inserted_inv s"
    using assms(4-8) by (simp_all add: valid_inv_def pending_inv_def inserted_inv_def e)
  ultimately show ?thesis using assms(1-3,7,8) by (simp add: roq_inv_def)
qed

lemma index_inv_frame:
  "index_inv (s\<lparr>handle := (handle s)\<lparr>lock := k\<rparr>\<rparr>) rd \<longleftrightarrow> index_inv s rd"
  "index_inv (s\<lparr>calls := cs\<rparr>) rd \<longleftrightarrow> index_inv s rd"
  "index_inv (s\<lparr>flags := fs\<rparr>) rd \<longleftrightarrow> index_inv s rd"
  by (simp_all add: index_inv_def)

lemma index_inv_refresh:
  "index_inv s rd \<Longrightarrow> index_inv (s\<lparr>handle := (handle s)\<lparr>read_index := host_read_index s\<rparr>\<rparr>) (consumed s)"
  by (simp add: index_inv_def)

lemma enough_space_lock [simp]: "enough_space (h\<lparr>lock := k\<rparr>) x \<longleftrightarrow> enough_space h x"
  by (simp add: enough_space_def)

text \<open>A call that moves on without touching the lock.\<close>

lemma lock_inv_move:
  assumes "lock_inv s" "held pc = held (calls s c)" "calls t = (calls s)(c := pc)" "lock (handle t) = lock (handle s)"
    "\<And>d ballot rs. calls t d = C_ready ballot rs \<Longrightarrow> enough_space (handle t) (number_active_lanes ballot)"
  shows "lock_inv t"
proof -
  have "held (calls t d) = held (calls s d)" for d using assms(2,3) by simp
  then show ?thesis using assms(1,4,5) unfolding lock_inv_def by simp
qed

lemma lock_inv_holder:
  assumes "lock_inv s" "held (calls s c)"
  shows "held (calls s d) \<longleftrightarrow> d = c" "lock (handle s) \<noteq> 0" "d \<noteq> c \<Longrightarrow> calls s d \<noteq> C_ready ballot rs"
  using assms unfolding lock_inv_def by (blast, blast, metis held.simps(2))

lemma lock_inv_ready:
  "lock_inv s \<Longrightarrow> calls s d = C_ready ballot rs \<Longrightarrow> enough_space (handle s) (number_active_lanes ballot)"
  unfolding lock_inv_def by blast

lemma step_call:
  assumes "roq_inv n s" "calls s c = C_start"
  shows "roq_inv n (s\<lparr>calls := (calls s)(c := C_spin ballot rs)\<rparr>)"
proof (rule roq_inv_frame [OF assms(1)])
  show "lock_inv (s\<lparr>calls := (calls s)(c := C_spin ballot rs)\<rparr>)"
    using roq_invD(3) [OF assms(1)] by (rule lock_inv_move [of _ "C_spin ballot rs" c])
      (use roq_invD(3) [OF assms(1)] assms(2) in \<open>auto split: if_splits dest: lock_inv_ready\<close>)
qed (use assms roq_invD(2) [OF assms(1)] in \<open>auto simp: index_inv_frame\<close>)

lemma step_acquire:
  assumes "roq_inv n s" "calls s c = C_spin ballot rs" "lock (handle s) = 0"
  shows "roq_inv n (s\<lparr>handle := (handle s)\<lparr>lock := 1\<rparr>, calls := (calls s)(c := C_locked ballot rs)\<rparr>)"
proof (rule roq_inv_frame [OF assms(1)])
  have none: "\<not> held (calls s d)" for d using roq_invD(3) [OF assms(1)] assms(3) by (auto simp: lock_inv_def)
  then have "calls s d \<noteq> C_ready b rs" for d b rs using held.simps(2) by metis
  with none show "lock_inv (s\<lparr>handle := (handle s)\<lparr>lock := 1\<rparr>, calls := (calls s)(c := C_locked ballot rs)\<rparr>)"
    by (auto simp: lock_inv_def)
qed (use assms roq_invD(2) [OF assms(1)] in \<open>auto simp: index_inv_frame\<close>)

lemma step_release:
  assumes "roq_inv n s" "calls s c = C_unlock"
  shows "roq_inv n (s\<lparr>handle := (handle s)\<lparr>lock := 0\<rparr>, calls := (calls s)(c := C_done)\<rparr>)"
proof (rule roq_inv_frame [OF assms(1)])
  have "held (calls s c)" using assms(2) by simp
  note h = lock_inv_holder [OF roq_invD(3) [OF assms(1)] this]
  show "lock_inv (s\<lparr>handle := (handle s)\<lparr>lock := 0\<rparr>, calls := (calls s)(c := C_done)\<rparr>)"
    using h by (auto simp: lock_inv_def)
qed (use assms roq_invD(2) [OF assms(1)] in \<open>auto simp: index_inv_frame\<close>)

lemma step_refresh:
  assumes "roq_inv n s" "calls s c = C_locked ballot rs"
  shows "roq_inv n (s\<lparr>handle := (handle s)\<lparr>read_index := host_read_index s\<rparr>\<rparr>)"
proof (rule roq_inv_frame [OF assms(1)])
  have "held (calls s c)" using assms(2) by simp
  note h = lock_inv_holder [OF roq_invD(3) [OF assms(1)] this]
  have "calls s d \<noteq> C_ready b rs" for d b rs using h(3) [of d] assms(2) by (cases "d = c") auto
  then show "lock_inv (s\<lparr>handle := (handle s)\<lparr>read_index := host_read_index s\<rparr>\<rparr>)"
    using roq_invD(3) [OF assms(1)] by (simp add: lock_inv_def)
qed (use assms roq_invD(2) [OF assms(1)] index_inv_refresh in auto)

lemma step_space:
  assumes "roq_inv n s" "calls s c = C_locked ballot rs" "enough_space (handle s) (number_active_lanes ballot)"
  shows "roq_inv n (s\<lparr>calls := (calls s)(c := C_ready ballot rs)\<rparr>)"
proof (rule roq_inv_frame [OF assms(1)])
  show "lock_inv (s\<lparr>calls := (calls s)(c := C_ready ballot rs)\<rparr>)"
    using roq_invD(3) [OF assms(1)] by (rule lock_inv_move [of _ "C_ready ballot rs" c])
      (use roq_invD(3) [OF assms(1)] assms(2,3) in \<open>auto split: if_splits dest: lock_inv_ready\<close>)
qed (use assms roq_invD(2) [OF assms(1)] in \<open>auto simp: index_inv_frame\<close>)

lemma step_notify:
  assumes "roq_inv n s" shows "roq_inv n (notify p s)"
  using roq_invD [OF assms]
  by (intro roq_inv_frame [OF assms]) (auto simp: notify_def index_inv_frame lock_inv_def)

lemma slots_pos: "index_inv s rd \<Longrightarrow> 0 < slots s"
  by (rule ccontr) (simp add: index_inv_def)

text \<open>A reservation: no slot it covers holds a pending element.\<close>

lemma step_reserve:
  assumes inv: "roq_inv n s" and pc: "calls s c = C_ready ballot rs"
  shows "roq_inv n (reserve c ballot rs s)"
proof -
  let ?t = "reserve c ballot rs s" and ?m = "popcount ballot"
  obtain rd where rd: "index_inv s rd" using roq_invD(2) [OF inv] by blast
  note N = rd [unfolded index_inv_def]
  have space: "issued s + ?m \<le> rd + slots s"
  proof -
    have "enough_space (handle s) (number_active_lanes ballot)"
      using roq_invD(3) [OF inv] pc by (rule lock_inv_ready)
    then show ?thesis using enough_space_iff [OF rd popcount_le_64] by (simp add: number_active_lanes_def)
  qed
  have lanes_t: "lanes ?t j = (if issued s \<le> j \<and> j < issued s + ?m
      then Some \<lparr>l_call = c, l_slot = (of_nat (issued s) + of_nat (j - issued s)) mod queue_size (handle s),
                 l_req = rs (active_lanes ballot ! (j - issued s)), l_stage = L_store\<rparr>
      else lanes s j)" for j
    using N lookup_numbered [of "active_logical_lane_id ballot" "active_lanes ballot" "issued s"
        "\<lambda>i p. \<lparr>l_call = c, l_slot = (of_nat (issued s) + of_nat i) mod queue_size (handle s), l_req = rs p, l_stage = L_store\<rparr>" j]
    by (simp add: reserve_def next_write_slot_def Let_def logical_ids map_add_def)
  have t [simp]: "ring ?t = ring s" "inserted ?t = inserted s" "reserved ?t = reserved s @ map rs (active_lanes ballot)"
    "queue_size (handle ?t) = queue_size (handle s)" "calls ?t = (calls s)(c := C_unlock)" "elem ?t = elem s"
    by (simp_all add: reserve_def elem_def fun_eq_iff)
  have "index_inv ?t rd"
    using N space by (simp add: index_inv_def) (simp add: reserve_def number_active_lanes_def)
  moreover have "lock_inv ?t"
  proof -
    have "held (calls s c)" using pc by simp
    note h = lock_inv_holder [OF roq_invD(3) [OF inv] this]
    show ?thesis
      using roq_invD(3) [OF inv]
    proof (rule lock_inv_move [of _ C_unlock c])
      fix d b rs' assume "calls ?t d = C_ready b rs'"
      then show "enough_space (handle ?t) (number_active_lanes b)" using h(3) [of d] by (cases "d = c") auto
    qed (use pc in \<open>simp_all add: reserve_def\<close>)
  qed
  moreover have "lane_inv ?t j l" if "lanes ?t j = Some l" for j l
  proof (cases "issued s \<le> j \<and> j < issued s + ?m")
    case True
    have "\<not> valid (elem s j)"
    proof
      assume "valid (elem s j)"
      moreover have "j mod slots s < slots s" using slots_pos [OF rd] by simp
      ultimately obtain i where i: "consumed s \<le> i" "i < issued s" "j mod slots s = i mod slots s"
        using roq_invD(5) [OF inv] unfolding valid_inv_def elem_def by blast
      have "j = i" using i(3) by (rule window_inj [of _ _ _ "consumed s"]) (use i True N space in linarith)+
      then show False using i True by simp
    qed
    moreover have "unat ((of_nat (issued s) + of_nat (j - issued s)) mod queue_size (handle s)) = j mod slots s"
      using True N unat_slot [of "queue_size (handle s)" j] by (simp flip: of_nat_add)
    ultimately show ?thesis
      using that True N unfolding lanes_t by (auto simp: lane_inv_def nth_append)
  next
    case False
    then have "lanes s j = Some l" using that lanes_t [of j] by auto
    then have "lane_inv s j l" by (rule roq_invD(4) [OF inv])
    then show ?thesis by (auto simp: lane_inv_def nth_append)
  qed
  moreover have "valid_inv ?t"
    using roq_invD(5) [OF inv] by (fastforce simp: valid_inv_def nth_append)
  moreover have "pending_inv ?t"
    using roq_invD(6) [OF inv] unfolding pending_inv_def lanes_t by (auto simp: not_less)
  moreover have "inserted_inv ?t"
    using roq_invD(7) [OF inv] N by (auto simp: inserted_inv_def nth_append)
  ultimately show ?thesis using roq_invD(1) [OF inv] by (auto simp: roq_inv_def)
qed

text \<open>Steps on the slot of one request.\<close>

lemma elem_update:
  assumes "index_inv s rd" "ring t = (ring s)[j mod slots s := e]" "queue_size (handle t) = queue_size (handle s)"
  shows "elem t i = (if i mod slots s = j mod slots s then e else elem s i)"
proof -
  have "j mod slots s < length (ring s)" using assms(1) slots_pos [OF assms(1)] by (simp add: index_inv_def)
  then show ?thesis using assms(2,3) by (simp add: elem_def nth_list_update)
qed

lemma ring_update:
  assumes "index_inv s rd" "ring t = (ring s)[j mod slots s := e]" "x < slots s"
  shows "ring t ! x = (if x = j mod slots s then e else ring s ! x)"
  using assms by (simp add: index_inv_def nth_list_update)

lemma same_slot:
  assumes "index_inv s rd" "i mod slots s = j mod slots s" "consumed s \<le> i" "i < issued s" "consumed s \<le> j" "j < issued s"
  shows "i = j"
  using assms(2) by (rule window_inj [of _ _ _ "consumed s"]) (use assms in \<open>auto simp: index_inv_def\<close>)

lemma later_slot:
  assumes "index_inv s rd" "i mod slots s = j mod slots s" "i < issued s" "consumed s \<le> j" "j < issued s" "i \<noteq> j"
  shows "i + slots s < issued s"
proof -
  have "i < j"
  proof (rule ccontr)
    assume "\<not> i < j"
    then show False using same_slot [OF assms(1,2)] assms by simp
  qed
  then show ?thesis using congruent_lap [OF assms(2)] slots_pos [OF assms(1)] assms(5) by simp
qed

lemma slot_step:
  assumes inv: "roq_inv n s" and j: "consumed s \<le> j" "j < issued s"
    and r: "ring t = (ring s)[j mod slots s := e]"
    and t: "handle t = handle s" "calls t = calls s" "reserved t = reserved s" "inserted t = inserted s"
      "host_read_index t = host_read_index s" "\<And>i. i \<noteq> j \<Longrightarrow> lanes t i = lanes s i"
    and lane_j: "\<And>l. lanes t j = Some l \<Longrightarrow> lane_inv t j l"
    and e: "valid e \<Longrightarrow> written (reserved s ! j) e" "valid e \<or> (\<exists>l. lanes t j = Some l \<and> l_stage l \<noteq> L_wait)"
  shows "roq_inv n t"
proof -
  obtain rd where rd: "index_inv s rd" using roq_invD(2) [OF inv] by blast
  have q: "queue_size (handle t) = queue_size (handle s)" using t by simp
  note el = elem_update [OF rd r q]
  have lane: "lane_inv t i k" if "lanes t i = Some k" for i k
  proof (cases "i = j")
    case True
    then show ?thesis using that lane_j by simp
  next
    case False
    then have k: "lane_inv s i k" using that t(6) roq_invD(4) [OF inv] by simp
    then have "i mod slots s = j mod slots s \<Longrightarrow> i + slots s < issued s \<and> l_stage k = L_wait"
      using later_slot [OF rd, of i j] same_slot [OF rd, of i j] j False by (auto simp: lane_inv_def)
    then show ?thesis using k t unfolding lane_inv_def el by auto
  qed
  have "valid_inv t"
    unfolding valid_inv_def
  proof (intro allI impI)
    fix x assume x: "x < slots t" "valid (ring t ! x)"
    show "\<exists>i\<ge>consumed t. i < issued t \<and> x = i mod slots t \<and> written (reserved t ! i) (ring t ! x)"
    proof (cases "x = j mod slots s")
      case True
      then show ?thesis using x ring_update [OF rd r, of x] e(1) j t by (intro exI [of _ j]) auto
    next
      case False
      then have "ring t ! x = ring s ! x" using x t ring_update [OF rd r, of x] by simp
      then show ?thesis using x t roq_invD(5) [OF inv] by (auto simp: valid_inv_def)
    qed
  qed
  moreover have "pending_inv t"
    unfolding pending_inv_def
  proof (intro allI impI)
    fix i assume i: "consumed t \<le> i \<and> i < issued t"
    show "valid (elem t i) \<or> (\<exists>l. lanes t i = Some l \<and> l_stage l \<noteq> L_wait)"
    proof (cases "i = j")
      case True
      then show ?thesis using e(2) by (simp add: el)
    next
      case False
      then have "i mod slots s \<noteq> j mod slots s" using same_slot [OF rd, of i j] i j t by auto
      then show ?thesis using False roq_invD(6) [OF inv] i t by (auto simp: pending_inv_def el)
    qed
  qed
  moreover have "index_inv t rd" "lock_inv t" "inserted_inv t"
    using rd roq_invD(3,7) [OF inv] t r by (simp_all add: index_inv_def lock_inv_def inserted_inv_def)
  ultimately show ?thesis using lane q roq_invD(1) [OF inv] by (auto simp: roq_inv_def)
qed

lemma slot_elem_lane:
  assumes "lane_inv s j l" shows "slot_elem s (l_slot l) = elem s j"
  using assms by (simp add: slot_elem_def elem_def lane_inv_def)

lemma step_store:
  assumes inv: "roq_inv n s" and l: "lanes s j = Some l" "l_stage l = L_store"
    and r: "ring t = (ring s)[unat (l_slot l) := store_fields (l_req l) (slot_elem s (l_slot l))]"
    and t: "handle t = handle s" "calls t = calls s" "reserved t = reserved s" "inserted t = inserted s"
      "host_read_index t = host_read_index s" "lanes t = (lanes s)(j \<mapsto> l\<lparr>l_stage := L_publish\<rparr>)"
  shows "roq_inv n t"
proof -
  obtain rd where rd: "index_inv s rd" using roq_invD(2) [OF inv] by blast
  have lj: "lane_inv s j l" by (rule roq_invD(4) [OF inv l(1)])
  then have j: "consumed s \<le> j" "j < issued s" "l_req l = reserved s ! j" "unat (l_slot l) = j mod slots s" "\<not> valid (elem s j)"
    using l(2) by (auto simp: lane_inv_def)
  have r': "ring t = (ring s)[j mod slots s := store_fields (reserved s ! j) (elem s j)]"
    using r j slot_elem_lane [OF lj] by simp
  have "elem t j = store_fields (reserved s ! j) (elem s j)" using elem_update [OF rd r', of j] t by simp
  then have "lane_inv t j (l\<lparr>l_stage := L_publish\<rparr>)" using j t by (simp add: lane_inv_def)
  then show ?thesis using j t by (intro slot_step [OF inv j(1,2) r']) auto
qed

lemma step_publish:
  assumes inv: "roq_inv n s" and l: "lanes s j = Some l" "l_stage l = L_publish"
    and r: "ring t = (ring s)[unat (l_slot l) := (slot_elem s (l_slot l))\<lparr>valid := True\<rparr>]"
    and t: "handle t = handle s" "calls t = calls s" "reserved t = reserved s" "inserted t = inserted s"
      "host_read_index t = host_read_index s"
      "lanes t = (lanes s)(j := if req_blocking (l_req l) then Some (l\<lparr>l_stage := L_wait\<rparr>) else None)"
  shows "roq_inv n t"
proof -
  obtain rd where rd: "index_inv s rd" using roq_invD(2) [OF inv] by blast
  have lj: "lane_inv s j l" by (rule roq_invD(4) [OF inv l(1)])
  then have j: "consumed s \<le> j" "j < issued s" "l_req l = reserved s ! j" "unat (l_slot l) = j mod slots s"
    "written (reserved s ! j) (elem s j)"
    using l(2) by (auto simp: lane_inv_def)
  have r': "ring t = (ring s)[j mod slots s := (elem s j)\<lparr>valid := True\<rparr>]"
    using r j slot_elem_lane [OF lj] by simp
  have "elem t j = (elem s j)\<lparr>valid := True\<rparr>" using elem_update [OF rd r', of j] t by simp
  then have "req_blocking (l_req l) \<Longrightarrow> lane_inv t j (l\<lparr>l_stage := L_wait\<rparr>)" using j t by (simp add: lane_inv_def)
  then show ?thesis using j t by (intro slot_step [OF inv j(1,2) r']) (auto split: if_splits)
qed

lemma step_wait:
  assumes inv: "roq_inv n s" and "lanes s j = Some l" "l_stage l = L_wait"
  shows "roq_inv n (s\<lparr>flags := fs, lanes := (lanes s)(j := None)\<rparr>)"
proof -
  have "lane_inv (s\<lparr>flags := fs, lanes := (lanes s)(j := None)\<rparr>) i k" if "lane_inv s i k" for i k
    using that by (auto simp: lane_inv_def elem_def)
  moreover have "pending_inv (s\<lparr>flags := fs, lanes := (lanes s)(j := None)\<rparr>)"
    using roq_invD(6) [OF inv] assms(2,3) by (auto simp: pending_inv_def elem_def)
  ultimately show ?thesis
    using inv by (auto simp: roq_inv_def index_inv_def lock_inv_def valid_inv_def inserted_inv_def split: if_splits)
qed

lemma step_process:
  assumes inv: "roq_inv n s"
  shows "roq_inv n (process s)"
proof (cases "valid (elem s (consumed s))")
  case False
  obtain rd where rd: "index_inv s rd" using roq_invD(2) [OF inv] by blast
  have "slot_elem s (get_read_index s) = elem s (consumed s)"
    using rd by (simp add: slot_elem_def elem_def get_read_index_def index_inv_def unat_slot)
  then show ?thesis using False inv by (simp add: process_def Let_def)
next
  case True
  obtain rd where rd: "index_inv s rd" using roq_invD(2) [OF inv] by blast
  have gi: "unat (get_read_index s) = consumed s mod slots s" "slot_elem s (get_read_index s) = elem s (consumed s)"
    using rd by (simp_all add: slot_elem_def elem_def get_read_index_def index_inv_def unat_slot)
  define t where "t = process s"
  have t: "handle t = handle s" "calls t = calls s" "reserved t = reserved s" "lanes t = lanes s"
    "inserted t = inserted s @ [elem s (consumed s)]" "host_read_index t = host_read_index s + 1"
    and r: "ring t = (ring s)[consumed s mod slots s := (elem s (consumed s))\<lparr>valid := False\<rparr>]"
    using True by (simp_all add: t_def process_def Let_def gi)
  have q: "queue_size (handle t) = queue_size (handle s)" using t by simp
  note el = elem_update [OF rd r q]
  have "consumed s mod slots s < slots s" using slots_pos [OF rd] by simp
  then obtain j where "consumed s \<le> j" "j < issued s" "consumed s mod slots s = j mod slots s" "written (reserved s ! j) (elem s (consumed s))"
    using roq_invD(5) [OF inv] True unfolding valid_inv_def elem_def by blast
  moreover then have "j = consumed s" using same_slot [OF rd, of j "consumed s"] by simp
  ultimately have c: "consumed s < issued s" "written (reserved s ! consumed s) (elem s (consumed s))" by simp_all
  have lane: "lane_inv t i k" if k: "lane_inv s i k" for i k
  proof (cases "i mod slots s = consumed s mod slots s")
    case True
    then have "elem s i = elem s (consumed s)" by (simp add: elem_def)
    then show ?thesis using k t True \<open>valid (elem s (consumed s))\<close> by (auto simp: lane_inv_def el)
  next
    case False
    then have "i \<noteq> consumed s" by auto
    then show ?thesis using k t False by (auto simp: lane_inv_def el)
  qed
  have "valid_inv t"
    unfolding valid_inv_def
  proof (intro allI impI)
    fix x assume x: "x < slots t" "valid (ring t ! x)"
    then have "x \<noteq> consumed s mod slots s" "ring t ! x = ring s ! x"
      using t ring_update [OF rd r, of x] by (auto split: if_splits)
    moreover then obtain i where "consumed s \<le> i" "i < issued s" "x = i mod slots s" "written (reserved s ! i) (ring s ! x)"
      using x t roq_invD(5) [OF inv] by (auto simp: valid_inv_def)
    moreover then have "i \<noteq> consumed s" using calculation by auto
    ultimately show "\<exists>i\<ge>consumed t. i < issued t \<and> x = i mod slots t \<and> written (reserved t ! i) (ring t ! x)"
      using t by (intro exI [of _ i]) auto
  qed
  moreover have "pending_inv t"
    unfolding pending_inv_def
  proof (intro allI impI)
    fix i assume i: "consumed t \<le> i \<and> i < issued t"
    then have "i mod slots s \<noteq> consumed s mod slots s" using same_slot [OF rd, of i "consumed s"] c t by auto
    then show "valid (elem t i) \<or> (\<exists>l. lanes t i = Some l \<and> l_stage l \<noteq> L_wait)"
      using i t roq_invD(6) [OF inv] by (auto simp: pending_inv_def el)
  qed
  moreover have "inserted_inv t" using roq_invD(7) [OF inv] t c True by (auto simp: inserted_inv_def nth_append less_Suc_eq)
  moreover have "index_inv t rd" "lock_inv t"
    using rd roq_invD(3) [OF inv] t r c by (simp_all add: index_inv_def lock_inv_def)
  moreover have "lane_inv t i k" if "lanes t i = Some k" for i k
    using that t roq_invD(4) [OF inv] lane by simp
  ultimately have "roq_inv n t" using q roq_invD(1) [OF inv] by (auto simp: roq_inv_def)
  then show ?thesis by (simp add: t_def)
qed

lemma roq_inv_step:
  assumes "roq_inv n s" "roq_step s t"
  shows "roq_inv n t"
  using assms(2)
proof cases
  case lane_store
  then show ?thesis by (intro step_store [OF assms(1) lane_store(2,3)]) simp_all
next
  case lane_publish
  then show ?thesis by (intro step_publish [OF assms(1) lane_publish(2,3)]) simp_all
qed (use assms(1) in \<open>auto intro: step_call step_acquire step_refresh step_space step_reserve step_release step_wait
      step_process step_notify\<close>)

lemma roq_inv_init:
  assumes "roq_init n s"
  shows "roq_inv n s"
proof -
  have "index_inv s 0" using assms by (simp add: roq_init_def index_inv_def)
  then show ?thesis
    using assms by (auto simp: roq_inv_def roq_init_def lock_inv_def valid_inv_def pending_inv_def inserted_inv_def)
qed

interpretation roq: invariant_system "roq_init n" roq_step "roq_inv n" for n
  by unfold_locales (auto intro: roq_inv_init roq_inv_step)

section \<open>Progress\<close>

text \<open>While no call is between its reservation and the release of the lock, the oldest request can
  always be stored, marked valid and consumed.\<close>

abbreviation same_calls :: "ro_queue \<Rightarrow> ro_queue \<Rightarrow> bool" where
  "same_calls s t \<equiv> calls t = calls s \<and> handle t = handle s \<and> reserved t = reserved s"

lemma deliver_valid:
  assumes "roq_inv n s" "valid (elem s (consumed s))"
  shows "\<exists>t. roq_step\<^sup>*\<^sup>* s t \<and> consumed t = Suc (consumed s) \<and> same_calls s t"
proof -
  obtain rd where rd: "index_inv s rd" using roq_invD(2) [OF assms(1)] by blast
  have "slot_elem s (get_read_index s) = elem s (consumed s)"
    using rd by (simp add: slot_elem_def elem_def get_read_index_def index_inv_def unat_slot)
  then have "consumed (process s) = Suc (consumed s) \<and> same_calls s (process s)"
    using assms(2) by (simp add: process_def Let_def)
  moreover have "roq_step\<^sup>*\<^sup>* s (process s)" using host_process by blast
  ultimately show ?thesis by blast
qed

lemma deliver_publish:
  assumes inv: "roq_inv n s" and l: "lanes s (consumed s) = Some l" "l_stage l = L_publish"
  shows "\<exists>t. roq_step\<^sup>*\<^sup>* s t \<and> consumed t = Suc (consumed s) \<and> same_calls s t"
proof -
  obtain rd where rd: "index_inv s rd" using roq_invD(2) [OF inv] by blast
  have lj: "lane_inv s (consumed s) l" by (rule roq_invD(4) [OF inv l(1)])
  define u where "u = s\<lparr>ring := (ring s)[unat (l_slot l) := (slot_elem s (l_slot l))\<lparr>valid := True\<rparr>],
      lanes := (lanes s)(consumed s := if req_blocking (l_req l) then Some (l\<lparr>l_stage := L_wait\<rparr>) else None)\<rparr>"
  have u: "roq_step s u" unfolding u_def using l by (rule lane_publish)
  have r: "ring u = (ring s)[consumed s mod slots s := (elem s (consumed s))\<lparr>valid := True\<rparr>]"
    using lj slot_elem_lane [OF lj] by (simp add: u_def lane_inv_def)
  have "valid (elem u (consumed u))" using elem_update [OF rd r, of "consumed s"] by (simp add: u_def)
  then obtain t where "roq_step\<^sup>*\<^sup>* u t" "consumed t = Suc (consumed u)" "same_calls u t"
    using deliver_valid roq_inv_step [OF inv u] by blast
  then show ?thesis
    using u by (intro exI [of _ t]) (auto simp: u_def intro: converse_rtranclp_into_rtranclp)
qed

lemma deliver_one:
  assumes inv: "roq_inv n s" and less: "consumed s < issued s" and no: "\<And>c. calls s c \<noteq> C_unlock"
  shows "\<exists>t. roq_step\<^sup>*\<^sup>* s t \<and> consumed t = Suc (consumed s) \<and> same_calls s t"
proof (cases "valid (elem s (consumed s))")
  case False
  then obtain l where l: "lanes s (consumed s) = Some l" "l_stage l \<noteq> L_wait"
    using roq_invD(6) [OF inv] less by (auto simp: pending_inv_def)
  show ?thesis
  proof (cases "l_stage l")
    case L_store
    then have dn: "calls s (l_call l) = C_done"
      using roq_invD(4) [OF inv l(1)] no by (auto simp: lane_inv_def)
    define u where "u = s\<lparr>ring := (ring s)[unat (l_slot l) := store_fields (l_req l) (slot_elem s (l_slot l))],
        lanes := (lanes s)(consumed s \<mapsto> l\<lparr>l_stage := L_publish\<rparr>)\<rparr>"
    have u: "roq_step s u" unfolding u_def using l(1) L_store dn by (rule lane_store)
    have "lanes u (consumed u) = Some (l\<lparr>l_stage := L_publish\<rparr>)" by (simp add: u_def)
    then obtain t where "roq_step\<^sup>*\<^sup>* u t" "consumed t = Suc (consumed u)" "same_calls u t"
      using deliver_publish [OF roq_inv_step [OF inv u]] by force
    then show ?thesis
      using u by (intro exI [of _ t]) (auto simp: u_def intro: converse_rtranclp_into_rtranclp)
  qed (use l deliver_publish [OF inv l(1)] in auto)
qed (rule deliver_valid [OF inv])

lemma drain:
  assumes "roq_inv n s" "\<And>c. calls s c \<noteq> C_unlock"
  shows "\<exists>t. roq_step\<^sup>*\<^sup>* s t \<and> consumed t = issued t \<and> same_calls s t"
  using assms
proof (induction "issued s - consumed s" arbitrary: s)
  case 0
  then have "consumed s = issued s" by (auto simp: roq_inv_def index_inv_def)
  then show ?case by blast
next
  case (Suc m)
  have "consumed s < issued s" using Suc.hyps(2) by linarith
  then obtain u where u: "roq_step\<^sup>*\<^sup>* s u" "consumed u = Suc (consumed s)" "same_calls s u"
    using deliver_one [OF Suc.prems(1) _ Suc.prems(2)] by blast
  then have "roq_inv n u" using roq.steps_inv Suc.prems(1) by blast
  moreover have "m = issued u - consumed u" using u Suc.hyps(2) by simp
  ultimately obtain t where "roq_step\<^sup>*\<^sup>* u t" "consumed t = issued t" "same_calls u t"
    using Suc.hyps(1) [of u] Suc.prems(2) u(3) by auto
  then show ?case using u by (intro exI [of _ t]) auto
qed

lemma release_steps:
  assumes "calls s c = C_unlock"
  shows "\<exists>t. roq_step\<^sup>*\<^sup>* s t \<and> calls t = (calls s)(c := C_done) \<and> lock (handle t) = 0"
  by (intro exI [of _ "s\<lparr>handle := (handle s)\<lparr>lock := 0\<rparr>, calls := (calls s)(c := C_done)\<rparr>"])
    (use release_lock [OF assms] in auto)

lemma ready_steps:
  assumes "calls s c = C_ready ballot rs"
  shows "\<exists>t. roq_step\<^sup>*\<^sup>* s t \<and> calls t = (calls s)(c := C_done) \<and> lock (handle t) = 0"
proof -
  have "roq_step s (reserve c ballot rs s)" using assms by (rule reserve_slots)
  moreover obtain t where "roq_step\<^sup>*\<^sup>* (reserve c ballot rs s) t"
    "calls t = (calls s)(c := C_done)" "lock (handle t) = 0"
    using release_steps [of "reserve c ballot rs s" c] by (auto simp: reserve_def)
  ultimately show ?thesis by (meson converse_rtranclp_into_rtranclp)
qed

lemma space_after_drain:
  assumes "index_inv s rd" "consumed s = issued s" "64 \<le> slots s"
  shows "enough_space ((handle s)\<lparr>read_index := host_read_index s\<rparr>) (number_active_lanes ballot)"
proof -
  let ?t = "s\<lparr>handle := (handle s)\<lparr>read_index := host_read_index s\<rparr>\<rparr>"
  have "index_inv ?t (consumed s)" using assms(1) by (rule index_inv_refresh)
  then have "enough_space (handle ?t) (of_nat (popcount ballot)) \<longleftrightarrow> issued ?t + popcount ballot \<le> consumed s + slots ?t"
    by (rule enough_space_iff) (rule popcount_le_64)
  then show ?thesis using assms popcount_le_64 [of ballot] by (simp add: number_active_lanes_def)
qed

lemma locked_steps:
  assumes inv: "roq_inv n s" and "64 \<le> slots s" and pc: "calls s c = C_locked ballot rs"
  shows "\<exists>t. roq_step\<^sup>*\<^sup>* s t \<and> calls t = (calls s)(c := C_done) \<and> lock (handle t) = 0"
proof -
  have "held (calls s c)" using pc by simp
  then have "calls s d \<noteq> C_unlock" for d
    using lock_inv_holder(1) [OF roq_invD(3) [OF inv], of c d] pc by auto
  then obtain u where u: "roq_step\<^sup>*\<^sup>* s u" "consumed u = issued u" "same_calls s u" using drain [OF inv] by blast
  define v where "v = (if enough_space (handle u) (number_active_lanes ballot) then u
    else u\<lparr>handle := (handle u)\<lparr>read_index := host_read_index u\<rparr>\<rparr>)"
  have "roq_step\<^sup>*\<^sup>* u v" using wait_until_space [of u c ballot rs] u(3) pc by (auto simp: v_def)
  moreover have "roq_inv n u" using roq.steps_inv u(1) inv by blast
  then obtain rd where "index_inv u rd" using roq_invD(2) by blast
  then have "enough_space (handle v) (number_active_lanes ballot)"
    using space_after_drain [of u rd ballot] u(2,3) assms(2) by (auto simp: v_def)
  then have "roq_step v (v\<lparr>calls := (calls v)(c := C_ready ballot rs)\<rparr>)"
    by (intro space_found) (use u(3) pc in \<open>simp add: v_def\<close>)
  moreover obtain t where "roq_step\<^sup>*\<^sup>* (v\<lparr>calls := (calls v)(c := C_ready ballot rs)\<rparr>) t"
    "calls t = (calls v)(c := C_done)" "lock (handle t) = 0"
    using ready_steps [of "v\<lparr>calls := (calls v)(c := C_ready ballot rs)\<rparr>" c] by auto
  moreover have "calls v = calls s" using u(3) by (simp add: v_def)
  ultimately show ?thesis using u(1) by (intro exI [of _ t]) (auto intro: rtranclp_trans converse_rtranclp_into_rtranclp)
qed

lemma holder_steps:
  assumes "roq_inv n s" "64 \<le> slots s" "held (calls s c)"
  shows "\<exists>t. roq_step\<^sup>*\<^sup>* s t \<and> calls t = (calls s)(c := C_done) \<and> lock (handle t) = 0"
  using assms(3) locked_steps [OF assms(1,2)] ready_steps release_steps by (cases "calls s c") auto

lemma spin_steps:
  assumes inv: "roq_inv n s" and n: "64 \<le> slots s" and pc: "calls s c = C_spin ballot rs"
  shows "\<exists>t. roq_step\<^sup>*\<^sup>* s t \<and> calls t c = C_done"
proof -
  have "\<exists>u. roq_step\<^sup>*\<^sup>* s u \<and> calls u c = C_spin ballot rs \<and> lock (handle u) = 0"
  proof (cases "lock (handle s) = 0")
    case False
    then obtain d where d: "held (calls s d)" using roq_invD(3) [OF inv] by (auto simp: lock_inv_def)
    then have "d \<noteq> c" using pc by auto
    then show ?thesis using holder_steps [OF inv n d] pc by auto
  qed (use pc in blast)
  then obtain u where u: "roq_step\<^sup>*\<^sup>* s u" "calls u c = C_spin ballot rs" "lock (handle u) = 0" by blast
  define v where "v = u\<lparr>handle := (handle u)\<lparr>lock := 1\<rparr>, calls := (calls u)(c := C_locked ballot rs)\<rparr>"
  have v: "roq_step u v" unfolding v_def using u(2,3) by (rule acquire_lock)
  have "roq_inv n v" using roq_inv_step [OF _ v] roq.steps_inv u(1) inv by blast
  moreover have "64 \<le> slots v" using \<open>roq_inv n v\<close> inv n by (simp add: roq_inv_def)
  ultimately obtain t where "roq_step\<^sup>*\<^sup>* v t" "calls t c = C_done"
    using holder_steps [of n v c] by (auto simp: v_def)
  then show ?thesis using u v by (meson converse_rtranclp_into_rtranclp rtranclp_trans)
qed

section \<open>Properties\<close>



text \<open>C38. The flag a blocked lane polls. The lane reads the address of its flag from its ring slot on
  every poll. Until another request as many tickets later reserves that slot, this is the lane's
  own flag. As soon as a later blocking request is valid in the slot, the earlier lane polls,
  and at the end clears, the flag of that later request.\<close>

theorem waiting_lane_flag:
  assumes "reachable (roq_init n) roq_step s" "lanes s j = Some l" "l_stage l = L_wait"
  shows "(length (reserved s) \<le> j + unat n \<longrightarrow> status (slot_elem s (l_slot l)) = req_status (l_req l))
    \<and> (valid (slot_elem s (l_slot l)) \<and> j < length (inserted s) \<longrightarrow>
         (\<exists>i\<ge>j + unat n. i < length (reserved s)
            \<and> (req_blocking (reserved s ! i) \<longrightarrow> status (slot_elem s (l_slot l)) = req_status (reserved s ! i))))"
proof -
  have inv: "roq_inv n s" using assms(1) by (rule roq.reachable_inv)
  obtain rd where rd: "index_inv s rd" using roq_invD(2) [OF inv] by blast
  have lj: "lane_inv s j l" using roq_invD(4) [OF inv] assms(2) by simp
  note q = roq_invD(1) [OF inv]
  have "status (slot_elem s (l_slot l)) = req_status (l_req l)" if "issued s \<le> j + unat n"
  proof -
    have "written (l_req l) (elem s j)" "req_blocking (l_req l)"
      using lj assms(3) that q by (auto simp: lane_inv_def)
    then show ?thesis using written_status by (simp add: slot_elem_lane [OF lj])
  qed
  moreover have "\<exists>i\<ge>j + unat n. i < issued s
      \<and> (req_blocking (reserved s ! i) \<longrightarrow> status (slot_elem s (l_slot l)) = req_status (reserved s ! i))"
    if v: "valid (slot_elem s (l_slot l))" and less: "j < consumed s"
  proof -
    have "j mod slots s < slots s" using slots_pos [OF rd] by simp
    then obtain i where i: "consumed s \<le> i" "i < issued s" "j mod slots s = i mod slots s" "written (reserved s ! i) (elem s j)"
      using roq_invD(5) [OF inv] v unfolding slot_elem_lane [OF lj] valid_inv_def elem_def by blast
    have "j + slots s \<le> i" using i less slots_pos [OF rd] by (intro congruent_lap) auto
    then show ?thesis using i q written_status by (intro exI [of _ i]) (auto simp: slot_elem_lane [OF lj])
  qed
  ultimately show ?thesis by blast
qed

section \<open>A schedule\<close>

text \<open>One call of one wavefront without interference, and one lane from its store to its wait.\<close>

definition sched_call :: "nat \<Rightarrow> u64 \<Rightarrow> (nat \<Rightarrow> ro_request) \<Rightarrow> ro_queue \<Rightarrow> ro_queue" where
  "sched_call c ballot rs s =
     (let s = s\<lparr>calls := (calls s)(c := C_spin ballot rs)\<rparr>;
          s = s\<lparr>handle := (handle s)\<lparr>lock := 1\<rparr>, calls := (calls s)(c := C_locked ballot rs)\<rparr>;
          s = (if enough_space (handle s) (number_active_lanes ballot) then s
               else s\<lparr>handle := (handle s)\<lparr>read_index := host_read_index s\<rparr>\<rparr>);
          s = s\<lparr>calls := (calls s)(c := C_ready ballot rs)\<rparr>;
          s = reserve c ballot rs s
      in s\<lparr>handle := (handle s)\<lparr>lock := 0\<rparr>, calls := (calls s)(c := C_done)\<rparr>)"

definition sched_lane :: "nat \<Rightarrow> ro_queue \<Rightarrow> ro_queue" where
  "sched_lane j s =
     (case lanes s j of
        None \<Rightarrow> s
      | Some l \<Rightarrow>
          let e = store_fields (l_req l) (slot_elem s (l_slot l));
              s = s\<lparr>ring := (ring s)[unat (l_slot l) := e], lanes := (lanes s)(j \<mapsto> l\<lparr>l_stage := L_publish\<rparr>)\<rparr>
          in s\<lparr>ring := (ring s)[unat (l_slot l) := (slot_elem s (l_slot l))\<lparr>valid := True\<rparr>],
               lanes := (lanes s)(j := if req_blocking (l_req l) then Some (l\<lparr>l_stage := L_wait\<rparr>) else None)\<rparr>)"

lemma reach_call:
  assumes "reachable I roq_step s" "calls s c = C_start" "ballot \<noteq> 0" "lock (handle s) = 0"
    "enough_space (handle s) (number_active_lanes ballot)
     \<or> enough_space ((handle s)\<lparr>read_index := host_read_index s\<rparr>) (number_active_lanes ballot)"
  shows "reachable I roq_step (sched_call c ballot rs s)"
proof -
  define s1 where "s1 = s\<lparr>calls := (calls s)(c := C_spin ballot rs)\<rparr>"
  define s2 where "s2 = s1\<lparr>handle := (handle s1)\<lparr>lock := 1\<rparr>, calls := (calls s1)(c := C_locked ballot rs)\<rparr>"
  define s3 where "s3 = (if enough_space (handle s2) (number_active_lanes ballot) then s2
               else s2\<lparr>handle := (handle s2)\<lparr>read_index := host_read_index s2\<rparr>\<rparr>)"
  define s4 where "s4 = s3\<lparr>calls := (calls s3)(c := C_ready ballot rs)\<rparr>"
  define s5 where "s5 = reserve c ballot rs s4"
  have "reachable I roq_step s1" unfolding s1_def by (rule reach_step [OF assms(1) call [OF assms(2,3)]])
  then have "reachable I roq_step s2" unfolding s2_def by (rule reach_step) (rule acquire_lock, use assms(4) in \<open>auto simp: s1_def\<close>)
  then have "reachable I roq_step s3" unfolding s3_def
    using wait_until_space [of s2 c ballot rs] by (auto simp: s2_def intro: reach_step)
  moreover have "enough_space (handle s3) (number_active_lanes ballot)"
    using assms(5) by (auto simp: s3_def s2_def s1_def enough_space_def)
  moreover have "calls s3 c = C_locked ballot rs" by (simp add: s3_def s2_def)
  ultimately have "reachable I roq_step s4" unfolding s4_def using space_found [of s3 c ballot rs] by (blast intro: reach_step)
  then have "reachable I roq_step s5" unfolding s5_def
    by (rule reach_step) (rule reserve_slots, simp add: s4_def)
  then have "reachable I roq_step (s5\<lparr>handle := (handle s5)\<lparr>lock := 0\<rparr>, calls := (calls s5)(c := C_done)\<rparr>)"
    by (rule reach_step) (rule release_lock, simp add: s5_def reserve_def)
  then show ?thesis unfolding sched_call_def Let_def s5_def s4_def s3_def s2_def s1_def .
qed

lemma reach_lane:
  assumes "reachable I roq_step s" "\<And>l. lanes s j = Some l \<Longrightarrow> l_stage l = L_store \<and> calls s (l_call l) = C_done"
  shows "reachable I roq_step (sched_lane j s)"
proof (cases "lanes s j")
  case (Some l)
  define u where "u = s\<lparr>ring := (ring s)[unat (l_slot l) := store_fields (l_req l) (slot_elem s (l_slot l))],
      lanes := (lanes s)(j \<mapsto> l\<lparr>l_stage := L_publish\<rparr>)\<rparr>"
  have "reachable I roq_step u"
    unfolding u_def using assms(1) lane_store [of s j l] Some assms(2) by (auto intro: reach_step)
  moreover have "lanes u j = Some (l\<lparr>l_stage := L_publish\<rparr>)" by (simp add: u_def)
  ultimately show ?thesis
    using lane_publish [of u j "l\<lparr>l_stage := L_publish\<rparr>"] Some
    by (auto simp: sched_lane_def Let_def u_def intro: reach_step)
qed (use assms(1) in \<open>simp add: sched_lane_def\<close>)

text \<open>A ring of one slot, lapped by a second request while the first still waits.\<close>

definition demo_queue :: ro_queue where
  "demo_queue = \<lparr>handle = \<lparr>queue_size = 1, read_index = 0, write_index = 0, lock = 0\<rparr>, host_read_index = 0,
     ring = [demo_element], inserted = [], flags = (\<lambda>_. False), calls = (\<lambda>_. C_start), lanes = Map.empty, reserved = []\<rparr>"

definition demo_sent :: ro_queue where
  "demo_sent = process (sched_lane 0 (sched_call 0 2 (\<lambda>_. demo_request) demo_queue))"

definition demo_lapped :: ro_queue where
  "demo_lapped = sched_lane 1 (sched_call 9 4 (\<lambda>_. demo_request\<lparr>req_status := 88\<rparr>) demo_sent)"

lemma demo_init: "roq_init 1 demo_queue"
  by (simp add: roq_init_def demo_queue_def demo_element_def)

lemma calls_sched [simp]:
  "calls (sched_call c ballot rs s) = (calls s)(c := C_done)" "calls (sched_lane j s) = calls s" "calls (process s) = calls s"
  by (simp_all add: sched_call_def Let_def reserve_def sched_lane_def process_def split: option.split)

lemma lock_sched [simp]:
  "lock (handle (sched_call c ballot rs s)) = 0" "handle (sched_lane j s) = handle s" "handle (process s) = handle s"
  by (simp_all add: sched_call_def Let_def sched_lane_def process_def split: option.split)

lemma demo_calls:
  "calls demo_queue 0 = C_start" "lock (handle demo_queue) = 0" "calls demo_sent 9 = C_start" "lock (handle demo_sent) = 0"
  by (simp_all add: demo_queue_def demo_sent_def)

lemma demo_blocking: "req_blocking demo_request"
  by (simp add: demo_request_def)

lemma demo_ballots:
  "active_lanes 2 = [1]" "active_lanes 4 = [2]" "active_logical_lane_id 2 (Suc 0) = 0" "active_logical_lane_id 4 2 = 0"
  "number_active_lanes 2 = 1" "number_active_lanes 4 = 1"
  by code_simp+

lemmas demo_eval = sched_call_def sched_lane_def process_def reserve_def next_write_slot_def slot_elem_def
  get_read_index_def enough_space_def Let_def demo_ballots

abbreviation demo_first :: ro_queue where
  "demo_first \<equiv> sched_call 0 2 (\<lambda>_. demo_request) demo_queue"

lemma demo_first_fields:
  "enough_space (handle demo_queue) (number_active_lanes 2)"
  "lanes demo_first = [0 \<mapsto> \<lparr>l_call = 0, l_slot = 0, l_req = demo_request, l_stage = L_store\<rparr>]"
  "handle demo_first = \<lparr>queue_size = 1, read_index = 0, write_index = 1, lock = 0\<rparr>"
  "ring demo_first = [demo_element]" "inserted demo_first = []" "reserved demo_first = [demo_request]"
  "host_read_index demo_first = 0"
  by (simp_all add: demo_eval demo_queue_def)

text \<open>A lane without interference leaves a complete element.\<close>

lemma sched_lane_Some:
  assumes "lanes s j = Some l" "unat (l_slot l) < length (ring s)"
  shows "sched_lane j s = s\<lparr>ring := (ring s)[unat (l_slot l) := fill_element (l_req l) (slot_elem s (l_slot l))],
    lanes := (lanes s)(j := if req_blocking (l_req l) then Some (l\<lparr>l_stage := L_wait\<rparr>) else None)\<rparr>"
  using assms by (simp add: sched_lane_def Let_def slot_elem_def store_fields_def)

lemma demo_sent_eq:
  "demo_sent = demo_first\<lparr>ring := [(fill_element demo_request demo_element)\<lparr>valid := False\<rparr>],
     lanes := [0 \<mapsto> \<lparr>l_call = 0, l_slot = 0, l_req = demo_request, l_stage = L_wait\<rparr>],
     inserted := [fill_element demo_request demo_element], host_read_index := 1\<rparr>"
proof -
  have "sched_lane 0 demo_first = demo_first\<lparr>ring := [fill_element demo_request demo_element],
      lanes := [0 \<mapsto> \<lparr>l_call = 0, l_slot = 0, l_req = demo_request, l_stage = L_wait\<rparr>]\<rparr>"
    using sched_lane_Some [of demo_first 0 "\<lparr>l_call = 0, l_slot = 0, l_req = demo_request, l_stage = L_store\<rparr>"]
    by (simp add: demo_first_fields slot_elem_def demo_blocking)
  then show ?thesis
    by (simp add: demo_sent_def process_def Let_def slot_elem_def get_read_index_def demo_first_fields)
qed

lemma demo_guards:
  "enough_space ((handle demo_sent)\<lparr>read_index := host_read_index demo_sent\<rparr>) (number_active_lanes 4)"
  "reserved demo_sent = [demo_request]" "length (inserted demo_sent) = 1"
  "lanes demo_sent = [0 \<mapsto> \<lparr>l_call = 0, l_slot = 0, l_req = demo_request, l_stage = L_wait\<rparr>]"
  "handle demo_sent = \<lparr>queue_size = 1, read_index = 0, write_index = 1, lock = 0\<rparr>" "host_read_index demo_sent = 1"
  "ring demo_sent = [(fill_element demo_request demo_element)\<lparr>valid := False\<rparr>]"
  by (simp_all add: demo_sent_eq demo_first_fields enough_space_def demo_ballots)

abbreviation demo_second :: ro_queue where
  "demo_second \<equiv> sched_call 9 4 (\<lambda>_. demo_request\<lparr>req_status := 88\<rparr>) demo_sent"

lemma demo_second_fields:
  "lanes demo_second = [0 \<mapsto> \<lparr>l_call = 0, l_slot = 0, l_req = demo_request, l_stage = L_wait\<rparr>,
     1 \<mapsto> \<lparr>l_call = 9, l_slot = 0, l_req = demo_request\<lparr>req_status := 88\<rparr>, l_stage = L_store\<rparr>]"
  "ring demo_second = ring demo_sent" "inserted demo_second = inserted demo_sent"
  "reserved demo_second = [demo_request, demo_request\<lparr>req_status := 88\<rparr>]"
  by (simp_all add: sched_call_def reserve_def next_write_slot_def enough_space_def Let_def demo_ballots demo_guards)

lemma demo_lapped_fields:
  "lanes demo_lapped 0 = Some \<lparr>l_call = 0, l_slot = 0, l_req = demo_request, l_stage = L_wait\<rparr>"
  "valid (slot_elem demo_lapped 0)" "length (inserted demo_lapped) = 1"
  "reserved demo_lapped = [demo_request, demo_request\<lparr>req_status := 88\<rparr>]"
proof -
  have eq: "demo_lapped = demo_second\<lparr>ring := [fill_element (demo_request\<lparr>req_status := 88\<rparr>) (slot_elem demo_second 0)],
      lanes := (lanes demo_second)(1 \<mapsto> \<lparr>l_call = 9, l_slot = 0, l_req = demo_request\<lparr>req_status := 88\<rparr>, l_stage = L_wait\<rparr>)\<rparr>"
    using sched_lane_Some [of demo_second 1 "\<lparr>l_call = 9, l_slot = 0, l_req = demo_request\<lparr>req_status := 88\<rparr>, l_stage = L_store\<rparr>"]
    by (simp add: demo_lapped_def demo_second_fields demo_guards demo_blocking)
  show "lanes demo_lapped 0 = Some \<lparr>l_call = 0, l_slot = 0, l_req = demo_request, l_stage = L_wait\<rparr>"
    "valid (slot_elem demo_lapped 0)" "length (inserted demo_lapped) = 1"
    "reserved demo_lapped = [demo_request, demo_request\<lparr>req_status := 88\<rparr>]"
    unfolding eq by (simp_all add: demo_second_fields demo_guards slot_elem_def)
qed

lemma demo_sent_reachable: "reachable (roq_init 1) roq_step demo_sent"
proof -
  have "reachable (roq_init 1) roq_step demo_first"
    using reach_init [of "roq_init 1", OF demo_init] demo_first_fields(1) demo_calls by (intro reach_call) simp_all
  then have "reachable (roq_init 1) roq_step (sched_lane 0 demo_first)"
    by (rule reach_lane) (auto simp: demo_first_fields)
  then show ?thesis unfolding demo_sent_def using host_process by (rule reach_step)
qed

lemma demo_lapped_reachable: "reachable (roq_init 1) roq_step demo_lapped"
proof -
  have "reachable (roq_init 1) roq_step demo_second"
    using demo_sent_reachable demo_guards(1) demo_calls by (intro reach_call) simp_all
  then show ?thesis unfolding demo_lapped_def by (rule reach_lane) (auto simp: demo_second_fields)
qed


definition idle_ring :: "queue_element list" where
  "idle_ring = replicate 512 demo_element"

definition idle_queue :: ro_queue where
  "idle_queue = demo_queue\<lparr>handle := \<lparr>queue_size = 512, read_index = 0, write_index = 0, lock = 0\<rparr>, ring := idle_ring\<rparr>"

lemma idle_queue_init: "roq_init 512 idle_queue" "calls idle_queue = (\<lambda>_. C_start)"
proof -
  have "length idle_ring = 512" by (simp only: idle_ring_def length_replicate)
  moreover have "\<not> valid e" if "e \<in> set idle_ring" for e
    using that by (simp only: idle_ring_def set_replicate_conv_if) (simp add: demo_element_def split: if_splits)
  ultimately show "roq_init 512 idle_queue" "calls idle_queue = (\<lambda>_. C_start)"
    by (auto simp: roq_init_def idle_queue_def demo_queue_def)
qed


theorem waiting_lane_flag_witness:
  "req_status demo_request = 77 \<and> lanes demo_lapped 0 = Some \<lparr>l_call = 0, l_slot = 0, l_req = demo_request, l_stage = L_wait\<rparr>
   \<and> status (slot_elem demo_lapped 0) = 88"
proof -
  have "i = 1" if "1 \<le> i" "i < Suc (Suc 0)" for i :: nat using that by simp
  then show ?thesis
    using waiting_lane_flag [OF demo_lapped_reachable demo_lapped_fields(1)] demo_lapped_fields
    by (auto simp: demo_request_def)
qed

end
