(* ===== verification/Mpi_Transport.thy ===== *)
theory Mpi_Transport
  imports Ro_Commands "HOL-Library.Multiset"
begin

text \<open>
  The host's MPI transport of the reverse-offload backend
  (\<open>reverse_offload/mpi_transport.cpp\<close>): the handlers that turn the commands of Theory
  \<open>Ro_Commands\<close> into MPI calls, the bookkeeping of requests in flight and of threads that wait
  for a quiet, and the progress engine.

  MPI itself is outside the sources. A communicator and a window enter through the record
  \<open>mpi_env\<close>; the MPI calls made are logged with their arguments; and the answer of
  \<open>MPI_Testsome\<close>, a list of different indices below the given count, is an argument of \<open>progress\<close>.
\<close>

section \<open>State\<close>

datatype buffer = Addr u64 | Inline u64 nat

datatype mpi_action =
  Rput buffer int mpi_type int u64 int
| Rget u64 int mpi_type int u64 int
| Iallreduce "u64 option" u64 int mpi_type mpi_op u64
| Ireduce_scatter_block u64 u64 int mpi_type mpi_op u64
| Ibarrier "u64 option"
| Fetch_and_op u64 u64 mpi_type int u64 mpi_op int
| Compare_and_swap u64 u64 u64 mpi_type int u64 int
| Win_flush_all int
| Win_flush_local int int

record request_properties =
  rp_status :: u64
  rp_context :: int
  rp_blocking :: bool

record mpi_request = request_properties +
  rq_handle :: nat

record transport =
  requests :: "mpi_request list"
  waiting_quiet :: "u64 list list"
  outstanding :: "int list"
  notified :: "u64 list"
  mpi_log :: "mpi_action list"
  next_handle :: nat

record mpi_env =
  win_start :: "int \<Rightarrow> u64"
  win_end :: "int \<Rightarrow> u64"
  comm_rank :: "u64 \<Rightarrow> int"
  comm_size :: "u64 \<Rightarrow> int"
  world_ranks :: "u64 \<Rightarrow> int \<Rightarrow> int"

definition initTransport :: "nat \<Rightarrow> transport" where
  "initTransport num_queues = \<lparr>requests = [], waiting_quiet = replicate num_queues [],
     outstanding = replicate num_queues 0, notified = [], mpi_log = [], next_handle = 0\<rparr>"

definition get_offset :: "mpi_env \<Rightarrow> int \<Rightarrow> u64 \<Rightarrow> u64 result" where
  "get_offset env win dest =
     assert_r (dest \<ge> win_start env win \<and> dest < win_end env win) (Inr (dest - win_start env win))"

text \<open>The conversion of a \<open>size_t\<close> argument to the \<open>int\<close> parameter of a handler.\<close>

definition as_int :: "u64 \<Rightarrow> int" where
  "as_int x = sint (ucast x :: u32)"

definition notify_status :: "u64 \<Rightarrow> transport \<Rightarrow> transport" where
  "notify_status st t = t\<lparr>notified := notified t @ [st]\<rparr>"

definition mpi :: "mpi_action list \<Rightarrow> transport \<Rightarrow> transport" where
  "mpi as t = t\<lparr>mpi_log := mpi_log t @ as\<rparr>"

text \<open>\<open>requests.push_back({request, {status, contextId, blocking}})\<close> and \<open>outstanding[contextId]++\<close>.\<close>

definition push_request :: "u64 \<Rightarrow> nat \<Rightarrow> bool \<Rightarrow> transport \<Rightarrow> transport" where
  "push_request st c blocking t = t
     \<lparr>requests := requests t @ [\<lparr>rp_status = st, rp_context = int c, rp_blocking = blocking, rq_handle = next_handle t\<rparr>],
      outstanding := (outstanding t)[c := outstanding t ! c + 1],
      next_handle := next_handle t + 1\<rparr>"

definition quiet :: "nat \<Rightarrow> u64 \<Rightarrow> transport \<Rightarrow> transport" where
  "quiet c st t =
     (if outstanding t ! c = 0 then notify_status st t
      else t\<lparr>waiting_quiet := (waiting_quiet t)[c := waiting_quiet t ! c @ [st]]\<rparr>)"

section \<open>Handlers\<close>

definition barrier :: "nat \<Rightarrow> u64 \<Rightarrow> bool \<Rightarrow> u64 option \<Rightarrow> bool \<Rightarrow> transport \<Rightarrow> transport" where
  "barrier c st blocking team do_quiet t =
     (let t = mpi [Ibarrier team] t
      in if do_quiet then quiet c st (push_request 0 c False t) else push_request st c blocking t)"

definition team_reduction ::
  "u64 \<Rightarrow> u64 \<Rightarrow> int \<Rightarrow> nat \<Rightarrow> u64 \<Rightarrow> mpi_op \<Rightarrow> mpi_type \<Rightarrow> u64 \<Rightarrow> bool \<Rightarrow> transport \<Rightarrow> transport" where
  "team_reduction dest source n c comm ope ty st blocking t =
     push_request st c blocking
       (mpi [Iallreduce (if dest = source then None else Some source) dest n ty ope comm] t)"

definition team_reduce_scatter ::
  "u64 \<Rightarrow> u64 \<Rightarrow> int \<Rightarrow> nat \<Rightarrow> u64 \<Rightarrow> mpi_op \<Rightarrow> mpi_type \<Rightarrow> u64 \<Rightarrow> bool \<Rightarrow> transport \<Rightarrow> transport" where
  "team_reduce_scatter dest source nreduce c comm ope ty st blocking t =
     push_request st c blocking (mpi [Ireduce_scatter_block source dest nreduce ty ope comm] t)"

definition team_broadcast ::
  "mpi_env \<Rightarrow> u64 \<Rightarrow> u64 \<Rightarrow> int \<Rightarrow> int \<Rightarrow> nat \<Rightarrow> u64 \<Rightarrow> int \<Rightarrow> mpi_type \<Rightarrow> u64 \<Rightarrow> transport \<Rightarrow> transport result" where
  "team_broadcast env dest source n win c comm root ty st t =
     bind_r (get_offset env win source) (\<lambda>off.
       let t = push_request 0 c False (mpi [Rget dest n ty (world_ranks env comm root) off win] t);
           t = barrier c 0 False (Some comm) False (mpi [Win_flush_all win] t)
       in Inr (quiet c st t))"

definition alltoall_put ::
  "mpi_env \<Rightarrow> u64 \<Rightarrow> u64 \<Rightarrow> int \<Rightarrow> int \<Rightarrow> nat \<Rightarrow> u64 \<Rightarrow> mpi_type \<Rightarrow> int \<Rightarrow> transport \<Rightarrow> transport result" where
  "alltoall_put env dest source n win c comm ty i t =
     (let rank = comm_rank env comm; type_size = int (mpi_size ty)
      in bind_r (bind_r (c_add rank i) (\<lambda>x. c_mod x (comm_size env comm))) (\<lambda>target.
         bind_r (bind_r (c_mul target type_size) (\<lambda>x. c_mul x n)) (\<lambda>src_offset.
         bind_r (bind_r (c_mul rank type_size) (\<lambda>x. c_mul x n)) (\<lambda>dst_offset.
         bind_r (get_offset env win (dest + of_int dst_offset)) (\<lambda>off.
           Inr (push_request 0 c False
             (mpi [Rput (Addr (source + of_int src_offset)) n ty (world_ranks env comm target) off win] t)))))))"

text \<open>The body of a counted loop that may fail.\<close>

fun for_r :: "nat \<Rightarrow> nat \<Rightarrow> (int \<Rightarrow> 's \<Rightarrow> 's result) \<Rightarrow> 's \<Rightarrow> 's result" where
  "for_r i 0 f s = Inr s"
| "for_r i (Suc k) f s = bind_r (f (int i) s) (for_r (Suc i) k f)"

definition alltoall ::
  "mpi_env \<Rightarrow> u64 \<Rightarrow> u64 \<Rightarrow> int \<Rightarrow> int \<Rightarrow> nat \<Rightarrow> u64 \<Rightarrow> mpi_type \<Rightarrow> u64 \<Rightarrow> transport \<Rightarrow> transport result" where
  "alltoall env dest source n win c comm ty st t =
     (if dest = source then Inl Aborted
      else bind_r (for_r 0 (nat (comm_size env comm)) (alltoall_put env dest source n win c comm ty) t) (\<lambda>t.
        Inr (quiet c st (mpi [Win_flush_all win] t))))"

definition fcollect_put ::
  "mpi_env \<Rightarrow> u64 \<Rightarrow> u64 \<Rightarrow> int \<Rightarrow> int \<Rightarrow> nat \<Rightarrow> u64 \<Rightarrow> mpi_type \<Rightarrow> int \<Rightarrow> transport \<Rightarrow> transport result" where
  "fcollect_put env dest source n win c comm ty i t =
     (let rank = comm_rank env comm; type_size = int (mpi_size ty)
      in bind_r (bind_r (c_add rank i) (\<lambda>x. c_mod x (comm_size env comm))) (\<lambda>target.
         bind_r (bind_r (c_mul rank type_size) (\<lambda>x. c_mul x n)) (\<lambda>offset.
         bind_r (get_offset env win (dest + of_int offset)) (\<lambda>off.
           Inr (push_request 0 c False
             (mpi [Rput (Addr source) n ty (world_ranks env comm target) off win] t))))))"

definition fcollect ::
  "mpi_env \<Rightarrow> u64 \<Rightarrow> u64 \<Rightarrow> int \<Rightarrow> int \<Rightarrow> nat \<Rightarrow> u64 \<Rightarrow> mpi_type \<Rightarrow> u64 \<Rightarrow> transport \<Rightarrow> transport result" where
  "fcollect env dest source n win c comm ty st t =
     (if dest = source then Inl Aborted
      else bind_r (for_r 0 (nat (comm_size env comm)) (fcollect_put env dest source n win c comm ty) t) (\<lambda>t.
        Inr (quiet c st (mpi [Win_flush_all win] t))))"

definition putMem ::
  "mpi_env \<Rightarrow> u64 \<Rightarrow> buffer \<Rightarrow> int \<Rightarrow> int \<Rightarrow> int \<Rightarrow> nat \<Rightarrow> u64 \<Rightarrow> bool \<Rightarrow> transport \<Rightarrow> transport result" where
  "putMem env dest source n pe win c st blocking t =
     bind_r (get_offset env win dest) (\<lambda>off.
       Inr (push_request st c blocking (mpi [Rput source n MPI_CHAR pe off win, Win_flush_all win] t)))"

definition getMem ::
  "mpi_env \<Rightarrow> u64 \<Rightarrow> u64 \<Rightarrow> int \<Rightarrow> int \<Rightarrow> int \<Rightarrow> nat \<Rightarrow> u64 \<Rightarrow> bool \<Rightarrow> transport \<Rightarrow> transport result" where
  "getMem env dest source n pe win c st blocking t =
     bind_r (get_offset env win source) (\<lambda>off.
       Inr (push_request st c blocking (mpi [Rget dest n MPI_CHAR pe off win] t)))"

definition amoFOP ::
  "mpi_env \<Rightarrow> u64 \<Rightarrow> u64 \<Rightarrow> u64 \<Rightarrow> int \<Rightarrow> int \<Rightarrow> u64 \<Rightarrow> mpi_op \<Rightarrow> mpi_type \<Rightarrow> transport \<Rightarrow> transport result" where
  "amoFOP env dest source val pe win st ope ty t =
     bind_r (get_offset env win dest) (\<lambda>off.
       Inr (notify_status st (mpi [Fetch_and_op val source ty pe off ope win, Win_flush_local pe win] t)))"

definition amoFCAS ::
  "mpi_env \<Rightarrow> u64 \<Rightarrow> u64 \<Rightarrow> u64 \<Rightarrow> int \<Rightarrow> int \<Rightarrow> u64 \<Rightarrow> u64 \<Rightarrow> mpi_type \<Rightarrow> transport \<Rightarrow> transport result" where
  "amoFCAS env dest source val pe win st cond ty t =
     bind_r (get_offset env win dest) (\<lambda>off.
       Inr (notify_status st (mpi [Compare_and_swap val cond source ty pe off win, Win_flush_local pe win] t)))"

text \<open>The dispatch of \<open>submitRequestsToMPI\<close> on the decoded command of queue \<open>c\<close>.\<close>

fun submit :: "mpi_env \<Rightarrow> nat \<Rightarrow> mpi_call \<Rightarrow> transport \<Rightarrow> transport result" where
  "submit env c (PutMem dest source n pe win st) t =
     putMem env dest (Addr source) (as_int n) pe win c (case st of None \<Rightarrow> 0 | Some x \<Rightarrow> x) (st \<noteq> None) t"
| "submit env c (PutInline dest v n pe win st) t = putMem env dest (Inline v n) (int n) pe win c st True t"
| "submit env c (GetMem dest source n pe win st) t =
     getMem env dest source (as_int n) pe win c (case st of None \<Rightarrow> 0 | Some x \<Rightarrow> x) (st \<noteq> None) t"
| "submit env c (AmoFOP dest source val pe win st ope ty) t = amoFOP env dest source val pe win st ope ty t"
| "submit env c (AmoFCAS dest source val pe win st cond ty) t = amoFCAS env dest source val pe win st cond ty t"
| "submit env c (ReduceScatter dest source n win comm ope ty st) t =
     Inr (team_reduce_scatter dest source (as_int n) c comm ope ty st True t)"
| "submit env c (Reduction dest source n win comm ope ty st) t =
     Inr (team_reduction dest source (as_int n) c comm ope ty st True t)"
| "submit env c (Broadcast dest source n win comm root ty st) t =
     team_broadcast env dest source (as_int n) win c comm root ty st t"
| "submit env c (Alltoall dest source n win comm ty st) t = alltoall env dest source (as_int n) win c comm ty st t"
| "submit env c (Fcollect dest source n win comm ty st) t = fcollect env dest source (as_int n) win c comm ty st t"
| "submit env c (Barrier st team do_quiet) t = Inr (barrier c st True team do_quiet t)"
| "submit env c (Quiet st) t = Inr (quiet c st t)"

section \<open>The progress engine\<close>

definition complete_one :: "nat \<Rightarrow> transport \<Rightarrow> transport" where
  "complete_one index t =
     (let r = requests t ! index; c = nat (rp_context r);
          t = (if rp_context r \<noteq> -1 then t\<lparr>outstanding := (outstanding t)[c := outstanding t ! c - 1]\<rparr> else t);
          t = (if rp_blocking r \<and> rp_context r \<noteq> -1 then notify_status (rp_status r) t else t)
      in if outstanding t ! c = 0 \<and> waiting_quiet t ! c \<noteq> []
         then (fold notify_status (waiting_quiet t ! c) t)\<lparr>waiting_quiet := (waiting_quiet t)[c := []]\<rparr>
         else t)"

definition erase :: "nat \<Rightarrow> 'a list \<Rightarrow> 'a list" where
  "erase i xs = take i xs @ drop (Suc i) xs"

text \<open>\<open>testsome_indices\<close> has 128 entries.\<close>

definition incount :: "transport \<Rightarrow> nat" where
  "incount t = (if length (requests t) < 128 then length (requests t) else 128)"

definition progress :: "nat list \<Rightarrow> transport \<Rightarrow> transport" where
  "progress testsome_indices t =
     (if requests t = [] then t
      else let t = fold complete_one testsome_indices t
           in t\<lparr>requests := fold erase (rev (sort testsome_indices)) (requests t)\<rparr>)"

text \<open>What \<open>MPI_Testsome\<close> may answer.\<close>

definition testsome :: "transport \<Rightarrow> nat list \<Rightarrow> bool" where
  "testsome t indices \<longleftrightarrow> distinct indices \<and> (\<forall>i\<in>set indices. i < incount t)"

section \<open>Handlers as sequences of bookkeeping steps\<close>

text \<open>The threads a call has to answer.\<close>

fun call_status :: "mpi_call \<Rightarrow> u64 list" where
  "call_status (PutMem _ _ _ _ _ st) = (case st of None \<Rightarrow> [] | Some x \<Rightarrow> [x])"
| "call_status (PutInline _ _ _ _ _ st) = [st]"
| "call_status (GetMem _ _ _ _ _ st) = (case st of None \<Rightarrow> [] | Some x \<Rightarrow> [x])"
| "call_status (AmoFOP _ _ _ _ _ st _ _) = [st]"
| "call_status (AmoFCAS _ _ _ _ _ st _ _) = [st]"
| "call_status (ReduceScatter _ _ _ _ _ _ _ st) = [st]"
| "call_status (Reduction _ _ _ _ _ _ _ st) = [st]"
| "call_status (Broadcast _ _ _ _ _ _ _ st) = [st]"
| "call_status (Alltoall _ _ _ _ _ _ st) = [st]"
| "call_status (Fcollect _ _ _ _ _ _ st) = [st]"
| "call_status (Barrier st _ _) = [st]"
| "call_status (Quiet st) = [st]"

inductive handler :: "nat \<Rightarrow> transport \<Rightarrow> u64 list \<Rightarrow> transport \<Rightarrow> bool" for c t where
  h_start: "handler c t [] t"
| h_mpi: "handler c t A u \<Longrightarrow> handler c t A (mpi as u)"
| h_push_nbi: "handler c t A u \<Longrightarrow> handler c t A (push_request st c False u)"
| h_push: "handler c t A u \<Longrightarrow> handler c t (A @ [st]) (push_request st c True u)"
| h_quiet: "handler c t A u \<Longrightarrow> handler c t (A @ [st]) (quiet c st u)"
| h_notify: "handler c t A u \<Longrightarrow> handler c t (A @ [st]) (notify_status st u)"

lemma handler_quiet: "handler c t [] u \<Longrightarrow> handler c t [st] (quiet c st u)"
  and handler_push: "handler c t [] u \<Longrightarrow> handler c t [st] (push_request st c True u)"
  and handler_notify: "handler c t [] u \<Longrightarrow> handler c t [st] (notify_status st u)"
  using h_quiet [of c t "[]"] h_push [of c t "[]"] h_notify [of c t "[]"] by simp_all

lemmas handler_intros = h_start h_mpi h_push_nbi handler_quiet handler_push handler_notify

lemma handler_loop:
  assumes "\<And>i u u'. f i u = Inr u' \<Longrightarrow> handler c t [] u \<Longrightarrow> handler c t [] u'"
  shows "for_r i k f u = Inr u' \<Longrightarrow> handler c t [] u \<Longrightarrow> handler c t [] u'"
  by (induction k arbitrary: i u) (auto simp: bind_r_eq_Inr dest: assms)

lemma handler_barrier: "handler c t [] u \<Longrightarrow> handler c t [st] (barrier c st True team q u)"
  by (simp add: barrier_def Let_def) (intro conjI impI handler_intros)

lemma handler_rma:
  assumes "handler c t [] u"
  shows "putMem env dest b n pe win c st True u = Inr u' \<Longrightarrow> handler c t [st] u'"
    "putMem env dest b n pe win c st False u = Inr u' \<Longrightarrow> handler c t [] u'"
    "getMem env dest source n pe win c st True u = Inr u' \<Longrightarrow> handler c t [st] u'"
    "getMem env dest source n pe win c st False u = Inr u' \<Longrightarrow> handler c t [] u'"
    "amoFOP env dest source val pe win st ope ty u = Inr u' \<Longrightarrow> handler c t [st] u'"
    "amoFCAS env dest source val pe win st cond ty u = Inr u' \<Longrightarrow> handler c t [st] u'"
  using assms
  by (auto simp: putMem_def getMem_def amoFOP_def amoFCAS_def bind_r_eq_Inr intro!: handler_intros)

lemma handler_coll:
  assumes "handler c t [] u"
  shows "team_broadcast env dest source n win c comm root ty st u = Inr u' \<Longrightarrow> handler c t [st] u'"
    "alltoall env dest source n win c comm ty st u = Inr u' \<Longrightarrow> handler c t [st] u'"
    "fcollect env dest source n win c comm ty st u = Inr u' \<Longrightarrow> handler c t [st] u'"
proof -
  show "handler c t [st] u'" if "team_broadcast env dest source n win c comm root ty st u = Inr u'"
    using that assms by (auto simp: team_broadcast_def barrier_def bind_r_eq_Inr Let_def intro!: handler_intros)
  have a: "handler c t [] v'" if "alltoall_put env dest source n win c comm ty i v = Inr v'" "handler c t [] v" for i v v'
    using that by (auto simp: alltoall_put_def bind_r_eq_Inr Let_def intro!: handler_intros)
  have f: "handler c t [] v'" if "fcollect_put env dest source n win c comm ty i v = Inr v'" "handler c t [] v" for i v v'
    using that by (auto simp: fcollect_put_def bind_r_eq_Inr Let_def intro!: handler_intros)
  show "handler c t [st] u'" if "alltoall env dest source n win c comm ty st u = Inr u'"
    using that assms
    by (auto simp: alltoall_def bind_r_eq_Inr split: if_splits intro!: handler_intros elim: handler_loop [OF a, rotated -2])
  show "handler c t [st] u'" if "fcollect env dest source n win c comm ty st u = Inr u'"
    using that assms
    by (auto simp: fcollect_def bind_r_eq_Inr split: if_splits intro!: handler_intros elim: handler_loop [OF f, rotated -2])
qed

lemma submit_handler: "submit env c call t = Inr t' \<Longrightarrow> handler c t (call_status call) t'"
proof (cases call)
  case (PutMem x1 x2 x3 x4 x5 st)
  then show "submit env c call t = Inr t' \<Longrightarrow> ?thesis" by (cases st) (auto intro: handler_rma [OF h_start])
next
  case (GetMem x1 x2 x3 x4 x5 st)
  then show "submit env c call t = Inr t' \<Longrightarrow> ?thesis" by (cases st) (auto intro: handler_rma [OF h_start])
qed (auto intro: handler_rma [OF h_start] handler_coll [OF h_start] handler_barrier [OF h_start]
    simp: team_reduce_scatter_def team_reduction_def intro!: handler_intros)

section \<open>Lists of requests\<close>

lemma nths_upt: "nths xs A = map ((!) xs) (filter (\<lambda>i. i \<in> A) [0..<length xs])"
proof -
  have z: "zip xs [0..<length xs] = map (\<lambda>i. (xs ! i, i)) [0..<length xs]" by (rule nth_equalityI) simp_all
  show ?thesis unfolding nths_def z by (simp add: filter_map comp_def)
qed

lemma mset_nths_remove:
  assumes "i < length xs" "i \<notin> D"
  shows "mset (nths xs (- D)) = add_mset (xs ! i) (mset (nths xs (- insert i D)))"
proof -
  have "mset (filter (\<lambda>j. j \<in> - D) [0..<length xs]) = add_mset i (mset (filter (\<lambda>j. j \<in> - insert i D) [0..<length xs]))"
  proof (rule multiset_eqI)
    fix j
    show "count (mset (filter (\<lambda>j. j \<in> - D) [0..<length xs])) j
      = count (add_mset i (mset (filter (\<lambda>j. j \<in> - insert i D) [0..<length xs]))) j"
      using assms by (auto simp: count_mset_set')
  qed
  then show ?thesis by (simp add: nths_upt)
qed

lemma fold_erase:
  assumes "sorted_wrt (>) ys" "\<forall>y\<in>set ys. y < length xs"
  shows "fold erase ys xs = nths xs (- set ys)"
  using assms
proof (induction ys arbitrary: xs)
  case (Cons y ys)
  have y: "y < length xs" "\<forall>z\<in>set ys. z < y" using Cons.prems by auto
  have "\<forall>z\<in>set ys. z < length (erase y xs)" using y by (auto simp: erase_def)
  then have "fold erase (y # ys) xs = nths (erase y xs) (- set ys)" using Cons by simp
  also have "\<dots> = nths (take y xs) (- set ys) @ nths (drop (Suc y) xs) {j. j + y \<in> - set ys}"
    using y by (simp add: erase_def nths_append)
  also have "nths (drop (Suc y) xs) {j. j + y \<in> - set ys} = drop (Suc y) xs"
    using y by (intro nths_all) auto
  also have "nths (take y xs) (- set ys) = nths (take y xs) (- set (y # ys))"
  proof -
    have "filter (\<lambda>i. i \<in> - set ys) [0..<y] = filter (\<lambda>i. i \<in> - set (y # ys)) [0..<y]" by (rule filter_cong) auto
    then show ?thesis using y by (simp add: nths_upt)
  qed
  also have "nths (take y xs) (- set (y # ys)) @ drop (Suc y) xs = nths xs (- set (y # ys))"
  proof -
    have "nths xs (- set (y # ys)) = nths (take y xs @ [xs ! y] @ drop (Suc y) xs) (- set (y # ys))"
      using y by (simp add: id_take_nth_drop [symmetric])
    also have "\<dots> = nths (take y xs) (- set (y # ys)) @ nths (drop (Suc y) xs) {j. j + Suc y \<in> - set (y # ys)}"
      using y by (simp add: nths_append nths_Cons)
    also have "nths (drop (Suc y) xs) {j. j + Suc y \<in> - set (y # ys)} = drop (Suc y) xs"
      using y by (intro nths_all) fastforce
    finally show ?thesis by simp
  qed
  finally show ?case .
qed (simp add: nths_all)

lemma erase_completed:
  assumes "distinct indices" "\<forall>i\<in>set indices. i < length xs"
  shows "fold erase (rev (sort indices)) xs = nths xs (- set indices)"
proof -
  have "sorted_wrt (>) (rev (sort indices))"
    using assms(1) by (simp add: sorted_wrt_rev strict_sorted_iff)
  then show ?thesis using fold_erase [of "rev (sort indices)" xs] assms(2) by simp
qed

section \<open>Invariant\<close>

definition of_context :: "nat \<Rightarrow> mpi_request multiset \<Rightarrow> mpi_request multiset" where
  "of_context c M = filter_mset (\<lambda>r. rp_context r = int c) M"

text \<open>The counters and the waiting threads, for the requests \<open>M\<close> that are still in flight.\<close>

definition book_inv :: "nat \<Rightarrow> mpi_request multiset \<Rightarrow> transport \<Rightarrow> bool" where
  "book_inv n M t \<longleftrightarrow> length (outstanding t) = n \<and> length (waiting_quiet t) = n
     \<and> (\<forall>r\<in>#M. \<exists>c<n. rp_context r = int c)
     \<and> (\<forall>c<n. outstanding t ! c = int (size (of_context c M)))
     \<and> (\<forall>c<n. waiting_quiet t ! c \<noteq> [] \<longrightarrow> of_context c M \<noteq> {#})"

text \<open>Threads that are still waiting.\<close>

definition unanswered :: "mpi_request multiset \<Rightarrow> transport \<Rightarrow> u64 multiset" where
  "unanswered M t = image_mset rp_status (filter_mset rp_blocking M) + mset (concat (waiting_quiet t))"

definition handles_inv :: "transport \<Rightarrow> bool" where
  "handles_inv t \<longleftrightarrow> (\<forall>r\<in>set (requests t). rq_handle r < next_handle t) \<and> distinct (map rq_handle (requests t))"

lemma mset_concat_update:
  "c < length xss \<Longrightarrow> mset (concat (xss[c := ys])) + mset (xss ! c) = mset (concat xss) + mset ys"
proof (induction xss arbitrary: c)
  case (Cons xs xss)
  then show ?case by (cases c) auto
qed simp

lemma book_inv_push:
  assumes "book_inv n (mset (requests t)) t" "c < n"
  shows "book_inv n (mset (requests (push_request st c b t))) (push_request st c b t)"
  using assms by (auto simp: book_inv_def push_request_def of_context_def nth_list_update)

lemma book_inv_quiet:
  assumes "book_inv n (mset (requests t)) t" "c < n"
  shows "book_inv n (mset (requests (quiet c st t))) (quiet c st t)"
  using assms by (auto simp: book_inv_def quiet_def notify_status_def nth_list_update)

lemma handler_book_inv:
  "handler c t A u \<Longrightarrow> c < n \<Longrightarrow> book_inv n (mset (requests t)) t \<Longrightarrow> book_inv n (mset (requests u)) u"
proof (induction rule: handler.induct)
  case (h_mpi A u as)
  then show ?case by (simp add: book_inv_def mpi_def)
next
  case (h_notify A u st)
  then show ?case by (simp add: book_inv_def notify_status_def)
qed (auto intro: book_inv_push book_inv_quiet)

lemma handler_ledger:
  "handler c t A u \<Longrightarrow> c < length (waiting_quiet t) \<Longrightarrow> length (waiting_quiet u) = length (waiting_quiet t)
     \<and> mset (notified u) + unanswered (mset (requests u)) u = mset (notified t) + unanswered (mset (requests t)) t + mset A"
proof (induction rule: handler.induct)
  case (h_quiet A u st)
  have "mset (concat ((waiting_quiet u)[c := waiting_quiet u ! c @ [st]])) = add_mset st (mset (concat (waiting_quiet u)))"
    using mset_concat_update [of c "waiting_quiet u" "waiting_quiet u ! c @ [st]"] h_quiet by simp
  then show ?case using h_quiet by (auto simp: quiet_def notify_status_def unanswered_def)
qed (auto simp: mpi_def push_request_def notify_status_def unanswered_def)

lemma handler_handles: "handler c t A u \<Longrightarrow> handles_inv t \<Longrightarrow> handles_inv u"
  by (induction rule: handler.induct)
    (auto simp: handles_inv_def mpi_def push_request_def quiet_def notify_status_def)

lemma notify_all: "fold notify_status xs t = t\<lparr>notified := notified t @ xs\<rparr>"
  by (induction xs arbitrary: t) (simp_all add: notify_status_def)

text \<open>One completed request.\<close>

definition completed :: "nat \<Rightarrow> mpi_request \<Rightarrow> transport \<Rightarrow> transport" where
  "completed c r t =
     (let out = outstanding t ! c - 1; ans = (if rp_blocking r then [rp_status r] else [])
      in t\<lparr>outstanding := (outstanding t)[c := out],
           notified := notified t @ ans @ (if out = 0 then waiting_quiet t ! c else []),
           waiting_quiet := (if out = 0 then (waiting_quiet t)[c := []] else waiting_quiet t)\<rparr>)"

lemma complete_one_eq:
  assumes "rp_context (requests t ! i) = int c" "c < length (outstanding t)" "c < length (waiting_quiet t)"
  shows "complete_one i t = completed c (requests t ! i) t"
proof (cases "outstanding t ! c - 1 = 0 \<and> waiting_quiet t ! c = []")
  case True
  then have "(waiting_quiet t)[c := []] = waiting_quiet t" by (metis list_update_id)
  then show ?thesis
    using True assms by (simp add: complete_one_def completed_def Let_def notify_status_def)
next
  case False
  then show ?thesis
    using assms by (auto simp: complete_one_def completed_def Let_def notify_status_def notify_all)
qed

lemma completed_book_inv:
  assumes "book_inv n (add_mset r M) t" "c < n" "rp_context r = int c"
  shows "book_inv n M (completed c r t)"
proof -
  note b = assms(1) [unfolded book_inv_def]
  have out: "outstanding t ! c - 1 = int (size (of_context c M))"
    using assms by (simp add: book_inv_def of_context_def)
  have other: "of_context d (add_mset r M) = of_context d M" if "d \<noteq> c" for d
    using that assms(3) by (simp add: of_context_def)
  show ?thesis
    unfolding book_inv_def
  proof (intro conjI allI impI)
    show "length (outstanding (completed c r t)) = n" "length (waiting_quiet (completed c r t)) = n"
      using b by (simp_all add: completed_def Let_def)
    show "\<forall>r\<in>#M. \<exists>c<n. rp_context r = int c" using b by simp
  next
    fix d assume "d < n"
    then show "outstanding (completed c r t) ! d = int (size (of_context d M))"
      using b out other [of d] by (cases "d = c") (simp_all add: completed_def Let_def)
  next
    fix d assume "d < n" "waiting_quiet (completed c r t) ! d \<noteq> []"
    then show "of_context d M \<noteq> {#}"
      using b out other [of d] assms(2)
      by (cases "d = c") (auto simp: completed_def Let_def split: if_splits)
  qed
qed

lemma completed_ledger:
  assumes "c < length (waiting_quiet t)"
  shows "mset (notified (completed c r t)) + unanswered M (completed c r t) = mset (notified t) + unanswered (add_mset r M) t"
  using mset_concat_update [OF assms, of "[]"] by (auto simp: completed_def Let_def unanswered_def ac_simps)

text \<open>Completing some of the requests in flight: from \<open>M\<close> in state \<open>t\<close> to \<open>N\<close> in state \<open>u\<close>. A thread that
  waits for a quiet is answered only if nothing of its context is left in flight.\<close>

definition settles :: "nat \<Rightarrow> mpi_request multiset \<Rightarrow> transport \<Rightarrow> mpi_request multiset \<Rightarrow> transport \<Rightarrow> bool" where
  "settles n M t N u \<longleftrightarrow> requests u = requests t \<and> next_handle u = next_handle t \<and> N \<subseteq># M \<and> book_inv n N u
     \<and> mset (notified u) + unanswered N u = mset (notified t) + unanswered M t
     \<and> (\<forall>c<n. \<forall>st\<in>set (waiting_quiet t ! c). st \<in> set (waiting_quiet u ! c) \<or> of_context c N = {#})"

lemma settles_refl: "book_inv n M t \<Longrightarrow> settles n M t M t"
  by (simp add: settles_def)

lemma settles_trans:
  assumes "settles n M t N u" "settles n N u K v"
  shows "settles n M t K v"
proof -
  have "of_context c K = {#}" if "of_context c N = {#}" for c
  proof -
    have "of_context c K \<subseteq># of_context c N"
      unfolding of_context_def using assms(2) by (intro multiset_filter_mono) (simp add: settles_def)
    then show ?thesis using that by simp
  qed
  then show ?thesis using assms unfolding settles_def by (metis subset_mset.order_trans)
qed

lemma settles_one:
  assumes book: "book_inv n (add_mset (requests t ! i) N) t"
  shows "settles n (add_mset (requests t ! i) N) t N (complete_one i t)"
proof -
  let ?r = "requests t ! i"
  obtain d where d: "d < n" "rp_context ?r = int d" using book by (auto simp: book_inv_def)
  have len: "d < length (outstanding t)" "d < length (waiting_quiet t)" using book d by (auto simp: book_inv_def)
  have eq: "complete_one i t = completed d ?r t" using complete_one_eq d(2) len by blast
  have book': "book_inv n N (completed d ?r t)" using book d by (rule completed_book_inv)
  have "st \<in> set (waiting_quiet (completed d ?r t) ! c) \<or> of_context c N = {#}"
    if "st \<in> set (waiting_quiet t ! c)" "c < n" for st c
  proof (cases "c = d \<and> outstanding t ! d - 1 = 0")
    case True
    then have "outstanding (completed d ?r t) ! c = 0" using len by (simp add: completed_def Let_def)
    then show ?thesis using book' that(2) by (simp add: book_inv_def)
  next
    case False
    then show ?thesis using that by (auto simp: completed_def Let_def)
  qed
  moreover have "requests (completed d ?r t) = requests t" "next_handle (completed d ?r t) = next_handle t"
    by (simp_all add: completed_def Let_def)
  ultimately show ?thesis
    using book' completed_ledger [OF len(2)] unfolding eq settles_def by simp
qed

lemma settles_batch:
  assumes "book_inv n (mset (nths (requests t) (- D))) t" "distinct is" "set is \<inter> D = {}" "\<forall>i\<in>set is. i < length (requests t)"
  shows "settles n (mset (nths (requests t) (- D))) t (mset (nths (requests t) (- (D \<union> set is)))) (fold complete_one is t)"
  using assms
proof (induction "is" arbitrary: t D)
  case (Cons i ks)
  let ?M = "mset (nths (requests t) (- insert i D))"
  have M: "mset (nths (requests t) (- D)) = add_mset (requests t ! i) ?M"
    using Cons.prems by (intro mset_nths_remove) auto
  then have one: "settles n (mset (nths (requests t) (- D))) t ?M (complete_one i t)"
    using settles_one Cons.prems(1) by metis
  then have "requests (complete_one i t) = requests t" "book_inv n ?M (complete_one i t)" by (simp_all add: settles_def)
  then have "settles n ?M (complete_one i t) (mset (nths (requests t) (- (insert i D \<union> set ks)))) (fold complete_one ks (complete_one i t))"
    using Cons.IH [of "complete_one i t" "insert i D"] Cons.prems(2-4) by simp
  then show ?case using settles_trans [OF one] by simp
qed (simp add: settles_refl)

lemma testsome_less: "testsome t indices \<Longrightarrow> i \<in> set indices \<Longrightarrow> i < length (requests t)"
  by (fastforce simp: testsome_def incount_def split: if_splits)

lemma progress_settles:
  assumes "book_inv n (mset (requests t)) t" "testsome t indices" "requests t \<noteq> []"
  shows "requests (progress indices t) = nths (requests t) (- set indices)"
    "settles n (mset (requests t)) t (mset (requests (progress indices t))) (fold complete_one indices t)"
    "book_inv n (mset (requests (progress indices t))) (progress indices t)"
proof -
  let ?u = "fold complete_one indices t"
  have i: "distinct indices" "\<forall>i\<in>set indices. i < length (requests t)"
    using assms(2) testsome_less by (auto simp: testsome_def)
  have s: "settles n (mset (requests t)) t (mset (nths (requests t) (- set indices))) ?u"
    using settles_batch [of n t "{}" indices] assms(1) i by (simp add: nths_all)
  then show r: "requests (progress indices t) = nths (requests t) (- set indices)"
    using assms(3) erase_completed [OF i] by (simp add: progress_def Let_def settles_def)
  then show "settles n (mset (requests t)) t (mset (requests (progress indices t))) ?u" using s by simp
  show "book_inv n (mset (requests (progress indices t))) (progress indices t)"
    using s assms(3) unfolding r by (simp add: progress_def Let_def settles_def book_inv_def)
qed

lemma progress_shrinks:
  assumes "book_inv n (mset (requests t)) t" "testsome t indices" "requests t \<noteq> [] \<Longrightarrow> indices \<noteq> []"
  shows "length (requests (progress indices t)) \<le> length (requests t) - 1"
proof (cases "requests t = []")
  case False
  then obtain i where i: "i \<in> set indices" using assms(3) by (cases indices) auto
  have "{j. j < length (requests t) \<and> j \<in> - set indices} \<subset> {..<length (requests t)}"
    using i testsome_less [OF assms(2) i] by auto
  then have "length (nths (requests t) (- set indices)) < length (requests t)"
    unfolding length_nths using psubset_card_mono [of "{..<length (requests t)}"] by simp
  then show ?thesis using progress_settles(1) [OF assms(1,2) False] by simp
qed (simp add: progress_def)

section \<open>Runs of the transport\<close>

text \<open>The progress thread alternates between submitting the next command of a queue and testing the
  requests in flight. The second component collects the flags of the threads to be answered.\<close>

inductive transport_step :: "mpi_env \<Rightarrow> nat \<Rightarrow> transport \<times> u64 list \<Rightarrow> transport \<times> u64 list \<Rightarrow> bool" for env n where
  step_submit: "c < n \<Longrightarrow> submit env c call t = Inr t' \<Longrightarrow> transport_step env n (t, A) (t', A @ call_status call)"
| step_progress: "testsome t indices \<Longrightarrow> transport_step env n (t, A) (progress indices t, A)"

definition transport_start :: "nat \<Rightarrow> transport \<times> u64 list \<Rightarrow> bool" where
  "transport_start n s \<longleftrightarrow> s = (initTransport n, [])"

definition transport_inv :: "nat \<Rightarrow> transport \<times> u64 list \<Rightarrow> bool" where
  "transport_inv n s \<longleftrightarrow> (case s of (t, A) \<Rightarrow> book_inv n (mset (requests t)) t \<and> handles_inv t
     \<and> mset A = mset (notified t) + unanswered (mset (requests t)) t)"

lemma progress_ledger:
  assumes "book_inv n (mset (requests t)) t" "testsome t indices" "requests t \<noteq> []"
  shows "mset (notified (progress indices t)) + unanswered (mset (requests (progress indices t))) (progress indices t)
      = mset (notified t) + unanswered (mset (requests t)) t"
proof -
  have "notified (progress indices t) = notified (fold complete_one indices t)"
    "waiting_quiet (progress indices t) = waiting_quiet (fold complete_one indices t)"
    using assms(3) by (simp_all add: progress_def Let_def)
  then show ?thesis using progress_settles(2) [OF assms] by (simp add: settles_def unanswered_def)
qed

lemma progress_handles:
  assumes "book_inv n (mset (requests t)) t" "testsome t indices" "requests t \<noteq> []" "handles_inv t"
  shows "handles_inv (progress indices t)" "next_handle (progress indices t) = next_handle t"
proof -
  have "next_handle (fold complete_one indices t) = next_handle t"
    using progress_settles(2) [OF assms(1-3)] by (simp add: settles_def)
  then show n: "next_handle (progress indices t) = next_handle t"
    using assms(3) by (simp add: progress_def Let_def)
  show "handles_inv (progress indices t)"
    using assms(4) unfolding handles_inv_def n progress_settles(1) [OF assms(1-3)]
    by (auto simp: nths_map [symmetric] intro: distinct_nthsI dest: in_set_nthsD)
qed

interpretation mpi: invariant_system "transport_start n" "transport_step env n" "transport_inv n" for env n
proof
  fix s assume "transport_start n s"
  then show "transport_inv n s"
    by (auto simp: transport_start_def transport_inv_def initTransport_def book_inv_def handles_inv_def unanswered_def
        of_context_def)
next
  fix s s' assume inv: "transport_inv n s" and "transport_step env n s s'"
  from this(2) show "transport_inv n s'"
  proof cases
    case (step_submit c call t t' A)
    have h: "handler c t (call_status call) t'" using step_submit by (intro submit_handler)
    have "c < length (waiting_quiet t)" using inv step_submit by (simp add: transport_inv_def book_inv_def)
    then show ?thesis
      using handler_ledger [OF h] handler_book_inv [OF h] handler_handles [OF h] inv step_submit
      by (simp add: transport_inv_def)
  next
    case (step_progress t indices A)
    show ?thesis
    proof (cases "requests t = []")
      case True
      then show ?thesis using inv step_progress by (simp add: progress_def)
    next
      case False
      then show ?thesis
        using inv step_progress progress_settles(3) [of n t indices] progress_ledger [of n t indices] progress_handles(1) [of n t indices]
        by (simp add: transport_inv_def)
    qed
  qed
qed

text \<open>A waiting quiet, followed over the steps of the transport.\<close>

definition quiet_pending :: "nat \<Rightarrow> u64 \<Rightarrow> nat set \<Rightarrow> transport \<Rightarrow> bool" where
  "quiet_pending c st H t \<longleftrightarrow> (\<forall>h\<in>H. h < next_handle t)
     \<and> (\<forall>r\<in>set (requests t). rq_handle r \<in> H \<longrightarrow> rp_context r = int c)
     \<and> (st \<in> set (waiting_quiet t ! c) \<or> (\<forall>r\<in>set (requests t). rq_handle r \<notin> H))"

lemma handler_quiet_pending:
  "handler d t A u \<Longrightarrow> d < n \<Longrightarrow> length (waiting_quiet t) = n \<Longrightarrow> quiet_pending c st H t
   \<Longrightarrow> length (waiting_quiet u) = n \<and> quiet_pending c st H u"
  by (induction rule: handler.induct)
    (auto simp: quiet_pending_def mpi_def push_request_def quiet_def notify_status_def nth_list_update)

lemma progress_quiet_pending:
  assumes "book_inv n (mset (requests t)) t" "testsome t indices" "requests t \<noteq> []" "c < n" "quiet_pending c st H t" "handles_inv t"
  shows "quiet_pending c st H (progress indices t)"
proof -
  let ?u = "progress indices t"
  note p = progress_settles [OF assms(1-3)]
  have sub: "set (requests ?u) \<subseteq> set (requests t)" unfolding p(1) by (rule set_nths_subset)
  have "waiting_quiet ?u = waiting_quiet (fold complete_one indices t)"
    using assms(3) by (simp add: progress_def Let_def)
  then have w: "st \<in> set (waiting_quiet ?u ! c) \<or> of_context c (mset (requests ?u)) = {#}" if "st \<in> set (waiting_quiet t ! c)"
    using p(2) assms(4) that unfolding settles_def by auto
  have "rq_handle r \<notin> H" if "of_context c (mset (requests ?u)) = {#}" "r \<in> set (requests ?u)" for r
    using that sub assms(5) by (auto simp: of_context_def quiet_pending_def filter_mset_eq_conv)
  then show ?thesis
    using assms(5) w sub progress_handles(2) [OF assms(1-3,6)] unfolding quiet_pending_def by auto
qed

lemma steps_quiet_pending:
  assumes "(transport_step env n)\<^sup>*\<^sup>* s s'" "transport_inv n s" "c < n" "quiet_pending c st H (fst s)"
  shows "quiet_pending c st H (fst s')"
  using assms
proof (induction rule: rtranclp.induct)
  case (rtrancl_into_rtrancl s u v)
  have inv: "transport_inv n u" using rtrancl_into_rtrancl mpi.steps_inv by blast
  have p: "quiet_pending c st H (fst u)" using rtrancl_into_rtrancl by blast
  from rtrancl_into_rtrancl(2) show ?case
  proof cases
    case (step_submit d call t t' A)
    then show ?thesis
      using handler_quiet_pending [OF submit_handler] p inv by (auto simp: transport_inv_def book_inv_def)
  next
    case (step_progress t indices A)
    then show ?thesis
      using progress_quiet_pending [of n t indices c st H] p inv rtrancl_into_rtrancl(5)
      by (cases "requests t = []") (auto simp: transport_inv_def progress_def)
  qed
qed simp

section \<open>Properties\<close>

text \<open>C34. The transport answers every waiting thread exactly once. After any run of submissions and
  progress calls, in any order and with any completion order of MPI, the threads to be answered
  are those already notified together with those still waiting, each as often as it asked; the
  counter of a context is the number of its requests in flight; and a thread waits for a quiet
  only while its context has a request in flight.\<close>

theorem transport_answers_once:
  assumes "reachable (transport_start n) (transport_step env n) (t, A)"
  shows "mset A = mset (notified t) + mset (map rp_status (filter rp_blocking (requests t))) + mset (concat (waiting_quiet t))
    \<and> (\<forall>c<n. outstanding t ! c = int (length (filter (\<lambda>r. rp_context r = int c) (requests t)))
         \<and> (waiting_quiet t ! c \<noteq> [] \<longrightarrow> (\<exists>r\<in>set (requests t). rp_context r = int c)))"
proof -
  have "transport_inv n (t, A)" using assms by (rule mpi.reachable_inv)
  moreover have "size (of_context c (mset (requests t))) = length (filter (\<lambda>r. rp_context r = int c) (requests t))" for c
    by (simp add: of_context_def flip: mset_filter)
  ultimately show ?thesis
    by (auto simp: transport_inv_def book_inv_def unanswered_def of_context_def filter_empty_conv simp flip: mset_filter)
qed


text \<open>Every thread is released in the end. If every test of a non-empty list of requests finds at
  least one complete, then after as many progress calls as there are requests in flight none is
  left, no thread waits any more, and exactly the threads that asked have been notified.\<close>

theorem transport_releases_all:
  assumes "reachable (transport_start n) (transport_step env n) (t, A)"
    "\<And>u. testsome u (test u)" "\<And>u. requests u \<noteq> [] \<Longrightarrow> test u \<noteq> []" "length (requests t) \<le> k"
  shows "requests (((\<lambda>u. progress (test u) u) ^^ k) t) = [] \<and> mset (notified (((\<lambda>u. progress (test u) u) ^^ k) t)) = mset A"
proof -
  have "transport_inv n (((\<lambda>u. progress (test u) u) ^^ k) t, A) \<and> length (requests (((\<lambda>u. progress (test u) u) ^^ k) t)) \<le> length (requests t) - k"
  proof (induction k)
    case 0
    then show ?case using mpi.reachable_inv [OF assms(1)] by simp
  next
    case (Suc k)
    let ?u = "((\<lambda>u. progress (test u) u) ^^ k) t"
    have inv: "transport_inv n (?u, A)" using Suc by blast
    then have next_inv: "transport_inv n (progress (test ?u) ?u, A)"
      using mpi.inv_step step_progress assms(2) by blast
    have "length (requests (progress (test ?u) ?u)) \<le> length (requests ?u) - 1"
      using progress_shrinks [of n ?u "test ?u"] inv assms(2,3) by (auto simp: transport_inv_def)
    moreover have "length (requests ?u) \<le> length (requests t) - k" using Suc by blast
    ultimately have "length (requests (progress (test ?u) ?u)) \<le> length (requests t) - Suc k" by linarith
    then show ?case using next_inv by simp
  qed
  then have inv: "transport_inv n (((\<lambda>u. progress (test u) u) ^^ k) t, A)" "requests (((\<lambda>u. progress (test u) u) ^^ k) t) = []"
    using assms(4) by auto
  then have "\<forall>xs\<in>set (waiting_quiet (((\<lambda>u. progress (test u) u) ^^ k) t)). xs = []"
    by (auto simp: transport_inv_def book_inv_def of_context_def in_set_conv_nth)
  then have "concat (waiting_quiet (((\<lambda>u. progress (test u) u) ^^ k) t)) = []" by simp
  then show ?thesis using inv by (simp add: transport_inv_def unanswered_def)
qed

text \<open>Two contexts; a blocking get and a non-blocking put are in flight on the first.\<close>

definition demo_env :: mpi_env where
  "demo_env = \<lparr>win_start = (\<lambda>_. 4096), win_end = (\<lambda>_. 8192), comm_rank = (\<lambda>_. 1), comm_size = (\<lambda>_. 3),
     world_ranks = (\<lambda>_ i. 10 + i)\<rparr>"

definition demo_calls :: "mpi_call list" where
  "demo_calls = [GetMem 100 4200 8 1 0 (Some 7), PutMem 4300 200 16 2 0 None]"

fun run :: "mpi_env \<Rightarrow> nat \<Rightarrow> mpi_call list \<Rightarrow> transport \<Rightarrow> transport result" where
  "run env c [] t = Inr t"
| "run env c (call # calls) t = bind_r (submit env c call t) (run env c calls)"

lemma run_reachable:
  assumes "reachable I (transport_step env n) (t, A)" "c < n" "run env c calls t = Inr u"
  shows "reachable I (transport_step env n) (u, A @ concat (map call_status calls))"
  using assms
proof (induction calls arbitrary: t A)
  case (Cons call calls)
  obtain v where v: "submit env c call t = Inr v" "run env c calls v = Inr u"
    using Cons.prems(3) by (auto simp: bind_r_eq_Inr)
  have "reachable I (transport_step env n) (v, A @ call_status call)"
    using Cons.prems(1) step_submit [OF Cons.prems(2) v(1)] by (rule reach_step)
  then show ?case using Cons.IH [of v "A @ call_status call"] Cons.prems(2) v(2) by simp
qed simp

definition demo_transport :: transport where
  "demo_transport = \<lparr>requests = [\<lparr>rp_status = 7, rp_context = 0, rp_blocking = True, rq_handle = 0\<rparr>,
       \<lparr>rp_status = 0, rp_context = 0, rp_blocking = False, rq_handle = 1\<rparr>],
     waiting_quiet = [[], []], outstanding = [2, 0], notified = [],
     mpi_log = [Rget 100 8 MPI_CHAR 1 104 0, Rput (Addr 200) 16 MPI_CHAR 2 204 0, Win_flush_all 0], next_handle = 2\<rparr>"

lemma demo_transport_reachable: "reachable (transport_start 2) (transport_step demo_env 2) (demo_transport, [7])"
proof -
  have "run demo_env 0 demo_calls (initTransport 2) = Inr demo_transport" by code_simp
  moreover have "reachable (transport_start 2) (transport_step demo_env 2) (initTransport 2, [])"
    by (rule reach_init) (simp add: transport_start_def)
  ultimately show ?thesis using run_reachable [of "transport_start 2" demo_env 2 "initTransport 2" "[]" 0 demo_calls]
    by (simp add: demo_calls_def)
qed

theorem transport_answers_once_witness: "outstanding demo_transport ! 0 = 2 \<and> {#7#} = mset (map rp_status (filter rp_blocking (requests demo_transport)))"
  using transport_answers_once [OF demo_transport_reachable] by (simp add: demo_transport_def)


theorem transport_releases_all_witness:
  "mset (notified (((\<lambda>u. progress (if requests u = [] then [] else [0]) u) ^^ 2) demo_transport)) = {#7#}"
proof -
  have "testsome u (if requests u = [] then [] else [0])" for u by (simp add: testsome_def incount_def)
  moreover have "length (requests demo_transport) \<le> 2" by (simp add: demo_transport_def)
  ultimately show ?thesis
    using transport_releases_all [OF demo_transport_reachable, of "\<lambda>u. if requests u = [] then [] else [0]" 2] by simp
qed

section \<open>Collectives by puts\<close>

lemma uint_add_of_int:
  fixes d :: u64
  assumes "0 \<le> k" "uint d + k < 2 ^ 64"
  shows "uint (d + of_int k) = uint d + k"
proof -
  have "uint (d + of_int k) = take_bit 64 (uint d + k)"
    by (simp add: uint_word_ariths take_bit_eq_mod uint_word_of_int mod_simps)
  then show ?thesis using assms by (simp add: take_bit_int_eq_self_iff)
qed

lemma get_offset_block:
  assumes "uint (win_start env win) \<le> uint dest" "uint dest + len \<le> uint (win_end env win)" "0 \<le> k" "k < len"
  shows "get_offset env win (dest + of_int k) = Inr (dest - win_start env win + of_int k)"
proof -
  have "uint (win_end env win) < 2 ^ 64" using uint_lt2p [of "win_end env win"] by simp
  then have "uint (dest + of_int k) = uint dest + k" using assms by (intro uint_add_of_int) linarith+
  then have "win_start env win \<le> dest + of_int k \<and> dest + of_int k < win_end env win"
    using assms by (simp add: word_le_def word_less_def)
  then show ?thesis by (simp add: get_offset_def algebra_simps)
qed

lemma for_r_ok:
  assumes "\<And>i t. j \<le> i \<Longrightarrow> i < j + k \<Longrightarrow> f (int i) t = Inr (g i t)"
  shows "for_r j k f t = Inr (fold g [j..<j + k] t)"
  using assms
proof (induction k arbitrary: j t)
  case (Suc k)
  have "for_r (Suc j) k f (g j t) = Inr (fold g [Suc j..<Suc j + k] (g j t))"
    using Suc.prems by (intro Suc.IH) simp
  then show ?case using Suc.prems [of j t] by (simp add: upt_conv_Cons del: upt_Suc)
qed simp

lemma fold_puts_log:
  "mpi_log (fold (\<lambda>i t. push_request 0 c False (mpi [a i] t)) is t) = mpi_log t @ map a is"
  by (induction "is" arbitrary: t) (simp_all add: push_request_def mpi_def)

text \<open>The members of a team, in the order in which a member sends to them.\<close>

lemma rotation_bij:
  assumes "0 \<le> rank" "rank < (P::int)"
  shows "bij_betw (\<lambda>i. (rank + int i) mod P) {..<nat P} {0..<P}"
proof (rule bij_betw_imageI)
  show inj: "inj_on (\<lambda>i. (rank + int i) mod P) {..<nat P}"
  proof (rule inj_onI)
    fix i j assume ij: "i \<in> {..<nat P}" "j \<in> {..<nat P}" "(rank + int i) mod P = (rank + int j) mod P"
    then have "P dvd (int i - int j)" by (metis add_diff_cancel_left mod_eq_dvd_iff)
    moreover have "\<bar>int i - int j\<bar> < P" using ij by auto
    ultimately have "int i - int j = 0" using zdvd_imp_le [of P "\<bar>int i - int j\<bar>"] by force
    then show "i = j" by simp
  qed
  have "(\<lambda>i. (rank + int i) mod P) ` {..<nat P} \<subseteq> {0..<P}" using assms by auto
  then show "(\<lambda>i. (rank + int i) mod P) ` {..<nat P} = {0..<P}"
    using inj assms by (intro card_subset_eq) (simp_all add: card_image)
qed

lemma block_c_int:
  assumes "0 \<le> b" "b < (P::int)" "0 \<le> ts" "0 < n" "P * ts * n \<le> int_max"
  shows "is_c_int (b * ts)" "is_c_int (b * ts * n)" "0 \<le> b * ts * n"
proof -
  have "b * ts \<le> P * ts" using assms by (intro mult_right_mono) simp_all
  moreover have "P * ts \<le> P * ts * n" using assms mult_left_mono [of 1 n "P * ts"] by simp
  moreover have "b * ts * n \<le> P * ts * n" using assms by (intro mult_right_mono) simp_all
  moreover have "0 \<le> b * ts" "0 \<le> b * ts * n" using assms by simp_all
  ultimately show "is_c_int (b * ts)" "is_c_int (b * ts * n)" "0 \<le> b * ts * n"
    using assms(5) by (simp_all add: is_c_int_nonneg)
qed
lemma alltoall_put_ok:
  assumes "0 \<le> comm_rank env comm" "comm_rank env comm < comm_size env comm" "2 * comm_size env comm \<le> int_max"
    "0 < n" "comm_size env comm * int (mpi_size ty) * n \<le> int_max"
    "uint (win_start env win) \<le> uint dest"
    "uint dest + comm_size env comm * int (mpi_size ty) * n \<le> uint (win_end env win)" "int i < comm_size env comm"
  shows "alltoall_put env dest source n win c comm ty (int i) t =
    Inr (push_request 0 c False (mpi [Rput (Addr (source + of_int ((comm_rank env comm + int i) mod comm_size env comm * int (mpi_size ty) * n)))
      n ty (world_ranks env comm ((comm_rank env comm + int i) mod comm_size env comm))
      (dest - win_start env win + of_int (comm_rank env comm * int (mpi_size ty) * n)) win] t))"
    "fcollect_put env dest source n win c comm ty (int i) t =
    Inr (push_request 0 c False (mpi [Rput (Addr source)
      n ty (world_ranks env comm ((comm_rank env comm + int i) mod comm_size env comm))
      (dest - win_start env win + of_int (comm_rank env comm * int (mpi_size ty) * n)) win] t))"
proof -
  let ?P = "comm_size env comm" and ?r = "comm_rank env comm" and ?ts = "int (mpi_size ty)"
  let ?g = "(?r + int i) mod ?P"
  have ts: "0 < ?ts" by (cases ty) simp_all
  have g: "0 \<le> ?g" "?g < ?P" using assms by simp_all
  have "is_c_int (?r + int i)" using assms by (simp add: is_c_int_nonneg)
  then have target: "bind_r (c_add ?r (int i)) (\<lambda>x. c_mod x ?P) = Inr ?g"
    using assms by (simp add: c_arith)
  note gb = block_c_int [OF g less_imp_le [OF ts] assms(4,5)]
    and rb = block_c_int [OF assms(1,2) less_imp_le [OF ts] assms(4,5)]
  have "?r * (?ts * n) < ?P * (?ts * n)" using assms ts by (intro mult_strict_right_mono) simp_all
  then have "get_offset env win (dest + of_int (?r * ?ts * n)) = Inr (dest - win_start env win + of_int (?r * ?ts * n))"
    using assms(6,7) rb(3) by (intro get_offset_block [of _ _ _ "?P * ?ts * n"]) (simp_all add: mult.assoc)
  then show "alltoall_put env dest source n win c comm ty (int i) t =
    Inr (push_request 0 c False (mpi [Rput (Addr (source + of_int (?g * ?ts * n))) n ty (world_ranks env comm ?g)
      (dest - win_start env win + of_int (?r * ?ts * n)) win] t))"
    "fcollect_put env dest source n win c comm ty (int i) t =
    Inr (push_request 0 c False (mpi [Rput (Addr source) n ty (world_ranks env comm ?g)
      (dest - win_start env win + of_int (?r * ?ts * n)) win] t))"
    unfolding alltoall_put_def fcollect_put_def Let_def target using gb rb by (simp_all add: c_arith)
qed

lemma quiet_log [simp]: "mpi_log (quiet c st t) = mpi_log t"
  by (simp add: quiet_def notify_status_def)

text \<open>The collectives made of puts move the right blocks. For a team of \<open>P\<close> members whose blocks fit an
  \<open>int\<close> and the window, the member of rank \<open>r\<close> puts in \<open>alltoall\<close> its source block \<open>g\<close> to member
  \<open>g\<close>, and in \<open>fcollect\<close> its source to member \<open>g\<close>, in both cases as block \<open>r\<close> of the destination; it
  does so exactly once for every member \<open>g\<close>, itself included, and then flushes the window. So
  destination block \<open>r\<close> of member \<open>g\<close> is written by \<open>r\<close> alone.\<close>

theorem collective_puts:
  fixes env comm ty
  defines "P \<equiv> comm_size env comm" and "r \<equiv> comm_rank env comm" and "ts \<equiv> int (mpi_size ty)"
  defines "target \<equiv> \<lambda>i. (r + int i) mod P"
  assumes "0 \<le> r" "r < P" "2 * P \<le> int_max" "0 < n" "P * ts * n \<le> int_max" "dest \<noteq> source"
    "uint (win_start env win) \<le> uint dest" "uint dest + P * ts * n \<le> uint (win_end env win)"
  shows "bij_betw target {..<nat P} {0..<P}
    \<and> (\<exists>t'. alltoall env dest source n win c comm ty st t = Inr t'
        \<and> mpi_log t' = mpi_log t @ map (\<lambda>i. Rput (Addr (source + of_int (target i * ts * n))) n ty (world_ranks env comm (target i))
            (dest - win_start env win + of_int (r * ts * n)) win) [0..<nat P] @ [Win_flush_all win])
    \<and> (\<exists>t'. fcollect env dest source n win c comm ty st t = Inr t'
        \<and> mpi_log t' = mpi_log t @ map (\<lambda>i. Rput (Addr source) n ty (world_ranks env comm (target i))
            (dest - win_start env win + of_int (r * ts * n)) win) [0..<nat P] @ [Win_flush_all win])"
proof -
  let ?a = "\<lambda>i. Rput (Addr (source + of_int (target i * ts * n))) n ty (world_ranks env comm (target i))
            (dest - win_start env win + of_int (r * ts * n)) win"
  let ?f = "\<lambda>i. Rput (Addr source) n ty (world_ranks env comm (target i))
            (dest - win_start env win + of_int (r * ts * n)) win"
  have ok: "alltoall_put env dest source n win c comm ty (int i) u = Inr (push_request 0 c False (mpi [?a i] u))"
    "fcollect_put env dest source n win c comm ty (int i) u = Inr (push_request 0 c False (mpi [?f i] u))"
    if "i < 0 + nat P" for i u
    using alltoall_put_ok [of env comm n ty win dest i] assms(5-12) that
    unfolding P_def r_def ts_def target_def by auto
  have "for_r 0 (nat P) (alltoall_put env dest source n win c comm ty) t
      = Inr (fold (\<lambda>i t. push_request 0 c False (mpi [?a i] t)) [0..<0 + nat P] t)"
    "for_r 0 (nat P) (fcollect_put env dest source n win c comm ty) t
      = Inr (fold (\<lambda>i t. push_request 0 c False (mpi [?f i] t)) [0..<0 + nat P] t)"
    by (intro for_r_ok; rule ok; assumption)+
  then have "\<exists>t'. alltoall env dest source n win c comm ty st t = Inr t'
      \<and> mpi_log t' = mpi_log t @ map ?a [0..<nat P] @ [Win_flush_all win]"
    "\<exists>t'. fcollect env dest source n win c comm ty st t = Inr t'
      \<and> mpi_log t' = mpi_log t @ map ?f [0..<nat P] @ [Win_flush_all win]"
    using assms(10) unfolding alltoall_def fcollect_def P_def [symmetric]
    by (simp_all add: mpi_def [of "[Win_flush_all win]"] fold_puts_log)
  then show ?thesis using rotation_bij [OF assms(5,6)] unfolding target_def by blast
qed

theorem collective_puts_witness:
  "\<exists>t'. alltoall demo_env 4200 5200 2 0 0 9 MPI_INT 7 (initTransport 1) = Inr t'
     \<and> mpi_log t' = [Rput (Addr (5200 + 8)) 2 MPI_INT 11 (104 + 8) 0, Rput (Addr (5200 + 16)) 2 MPI_INT 12 (104 + 8) 0,
         Rput (Addr 5200) 2 MPI_INT 10 (104 + 8) 0, Win_flush_all 0]"
  using collective_puts [of demo_env 9 2 MPI_INT 4200 5200 0 0 7 "initTransport 1"]
  by (simp add: demo_env_def int_max_def upt_rec initTransport_def)

end
