(* ===== verification/Memcpy.thy ===== *)
theory Memcpy
  imports Lanes "HOL-Library.Multiset"
begin

text \<open>
  The copy loops of the device code (\<open>src/util.hpp\<close>: \<open>memcpy_lane\<close>, \<open>memcpy_wg\<close>,
  \<open>memcpy_wave\<close>; \<open>src/assembly.hpp\<close>: \<open>put_asm\<close>, \<open>get_asm\<close>). A copy is the list of
  the byte moves (source address, destination address) that one thread makes, in the
  order in which it makes them. Sizes are \<open>size_t\<close>, loop counters and byte
  offsets are \<open>int\<close> as in the source, so that a copy whose offsets leave the range
  of \<open>int\<close> is undefined behaviour. The theorems say that the threads of a block
  or of a wavefront together move every byte of the buffer exactly once and none
  outside it, as long as the buffer is shorter than 2 GiB, and that no thread of a
  block can copy a longer one.
\<close>

section \<open>One access\<close>

type_synonym byte_move = "int \<times> int"

text \<open>The cases of the \<open>switch\<close>; any other size falls into its empty default.\<close>

definition asm_sizes :: "nat list" where
  "asm_sizes = [1, 2, 4, 8, 12, 16]"

definition put_asm :: "int \<Rightarrow> int \<Rightarrow> nat \<Rightarrow> byte_move list" where
  "put_asm source dest n =
     (if n \<in> set asm_sizes then map (\<lambda>k. (source + int k, dest + int k)) [0..<n] else [])"

definition get_asm :: "int \<Rightarrow> int \<Rightarrow> nat \<Rightarrow> byte_move list" where
  "get_asm source dest n =
     (if n \<in> set asm_sizes then map (\<lambda>k. (source + int k, dest + int k)) [0..<n] else [])"

datatype MemcpyKind = Put | Get | PutBlocking | GetBlocking

definition is_put :: "MemcpyKind \<Rightarrow> bool" where
  "is_put k \<longleftrightarrow> k = Put \<or> k = PutBlocking"

definition is_blocking :: "MemcpyKind \<Rightarrow> bool" where
  "is_blocking k \<longleftrightarrow> k = PutBlocking \<or> k = GetBlocking"

definition access_asm :: "MemcpyKind \<Rightarrow> int \<Rightarrow> int \<Rightarrow> nat \<Rightarrow> byte_move list" where
  "access_asm kind source dest n = (if is_put kind then put_asm source dest n else get_asm source dest n)"

section \<open>A single lane\<close>

text \<open>The inner loop of \<open>memcpy_lane\<close> returns its moves and the number of bytes it leaves.\<close>

function lane_while :: "MemcpyKind \<Rightarrow> nat \<Rightarrow> int \<Rightarrow> int \<Rightarrow> nat \<Rightarrow> byte_move list \<times> int \<times> int \<times> nat" where
  "lane_while kind i source dest n =
     (if 0 < i \<and> i \<le> n
      then let (ms, s, d, r) = lane_while kind i (source + int i) (dest + int i) (n - i)
           in (access_asm kind source dest i @ ms, s, d, r)
      else ([], source, dest, n))"
  by pat_completeness auto
termination by (relation "measure (\<lambda>(kind, i, source, dest, n). n)") auto

function lane_for :: "MemcpyKind \<Rightarrow> nat \<Rightarrow> int \<Rightarrow> int \<Rightarrow> nat \<Rightarrow> byte_move list" where
  "lane_for kind i source dest n =
     (if 1 \<le> i
      then let (ms, s, d, r) = lane_while kind i source dest n in ms @ lane_for kind (i div 2) s d r
      else [])"
  by pat_completeness auto
termination by (relation "measure (\<lambda>(kind, i, source, dest, n). i)") auto

definition memcpy_lane :: "MemcpyKind \<Rightarrow> int \<Rightarrow> int \<Rightarrow> nat \<Rightarrow> byte_move list" where
  "memcpy_lane kind dest source n = lane_for kind 16 source dest n"

section \<open>A block and a wavefront\<close>

text \<open>The conversion of a \<open>size_t\<close> to \<open>int\<close> keeps the low 32 bits.\<close>

definition size_to_int :: "nat \<Rightarrow> int" where
  "size_to_int n = sint (of_nat n :: u32)"

text \<open>The moves of one access width \<open>j\<close>: the thread's chunks are \<open>t\<close>, \<open>t + s\<close>, \<open>t + 2 s\<close>, \<dots>\<close>

primrec chunk_moves :: "MemcpyKind \<Rightarrow> nat \<Rightarrow> int \<Rightarrow> int \<Rightarrow> nat list \<Rightarrow> byte_move list result" where
  "chunk_moves kind j source dest [] = Inr []"
| "chunk_moves kind j source dest (i # is) =
     bind_r (c_mul (int i) (int j)) (\<lambda>off.
     bind_r (chunk_moves kind j source dest is) (\<lambda>ms.
     Inr (access_asm kind (source + off) (dest + off) j @ ms)))"

function copy_for :: "MemcpyKind \<Rightarrow> nat \<Rightarrow> nat \<Rightarrow> nat \<Rightarrow> int \<Rightarrow> int \<Rightarrow> nat \<Rightarrow> byte_move list result" where
  "copy_for kind t s j source dest n =
     (if 1 \<le> j
      then let cpy_size = size_to_int (n div j) in
           bind_r (chunk_moves kind j source dest (strided t (nat cpy_size) s)) (\<lambda>ms.
           bind_r (c_mul cpy_size (int j)) (\<lambda>moved.
           bind_r (copy_for kind t s (j div 2) (source + moved) (dest + moved)
                     (nat ((int n - moved) mod 2 ^ 64))) (\<lambda>rest.
           Inr (ms @ rest))))
      else Inr [])"
  by pat_completeness auto
termination by (relation "measure (\<lambda>(kind, t, s, j, source, dest, n). j)") auto

definition memcpy_wg :: "MemcpyKind \<Rightarrow> nat \<Rightarrow> nat \<Rightarrow> int \<Rightarrow> int \<Rightarrow> nat \<Rightarrow> byte_move list result" where
  "memcpy_wg kind thread_id block_size dest source n = copy_for kind thread_id block_size 16 source dest n"

text \<open>\<open>wave_SZ()\<close> counts the active lanes; \<open>wf_size\<close> is the constant \<open>WF_SIZE\<close>.\<close>

definition wave_SZ :: "u64 \<Rightarrow> nat" where
  "wave_SZ ballot = popcount ballot"

definition memcpy_wave ::
    "nat \<Rightarrow> MemcpyKind \<Rightarrow> nat \<Rightarrow> u64 \<Rightarrow> int \<Rightarrow> int \<Rightarrow> nat \<Rightarrow> byte_move list result" where
  "memcpy_wave wf_size kind thread_id ballot dest source n =
     copy_for kind (thread_id mod wf_size) (wave_SZ ballot) 16 source dest n"

section \<open>Lemmas\<close>

declare lane_while.simps [simp del] lane_for.simps [simp del] copy_for.simps [simp del]

text \<open>The moves of a whole buffer, in ascending order.\<close>

definition byte_moves :: "int \<Rightarrow> int \<Rightarrow> nat \<Rightarrow> byte_move list" where
  "byte_moves source dest n = map (\<lambda>k. (source + int k, dest + int k)) [0..<n]"

lemma byte_moves_0 [simp]: "byte_moves source dest 0 = []"
  by (simp add: byte_moves_def)

lemma length_byte_moves [simp]: "length (byte_moves source dest n) = n"
  by (simp add: byte_moves_def)

lemma byte_moves_append:
  "byte_moves source dest m @ byte_moves (source + int m) (dest + int m) n = byte_moves source dest (m + n)"
  by (induction n) (simp_all add: byte_moves_def add.assoc)

lemma access_asm_eq: "j \<in> {1, 2, 4, 8, 16} \<Longrightarrow> access_asm kind source dest j = byte_moves source dest j"
  by (auto simp: access_asm_def put_asm_def get_asm_def asm_sizes_def byte_moves_def)

lemma lane_while_eq:
  assumes "i \<in> {1, 2, 4, 8, 16}"
  shows "lane_while kind i source dest n =
    (byte_moves source dest (n div i * i), source + int (n div i * i), dest + int (n div i * i), n mod i)"
  using assms
proof (induction kind i source dest n rule: lane_while.induct)
  case (1 kind i source dest n)
  show ?case
  proof (cases "i \<le> n")
    case True
    then have "n div i = Suc ((n - i) div i)" and mod: "(n - i) mod i = n mod i"
      using 1(2) by (auto simp: le_div_geq le_mod_geq)
    then have len: "n div i * i = i + (n - i) div i * i" by simp
    show ?thesis
      using True 1 by (subst lane_while.simps)
        (auto simp: len mod access_asm_eq byte_moves_append [symmetric] simp del: mult_Suc)
  qed (use 1(2) in \<open>auto simp: lane_while.simps\<close>)
qed

lemma lane_for_step:
  assumes "i \<in> {1, 2, 4, 8, 16}" "lane_for kind (i div 2) (source + int (n div i * i)) (dest + int (n div i * i)) (n mod i)
    = byte_moves (source + int (n div i * i)) (dest + int (n div i * i)) (n mod i)"
  shows "lane_for kind i source dest n = byte_moves source dest n"
proof -
  have "lane_for kind i source dest n = byte_moves source dest (n div i * i)
      @ lane_for kind (i div 2) (source + int (n div i * i)) (dest + int (n div i * i)) (n mod i)"
    using assms(1) by (subst lane_for.simps) (auto simp: lane_while_eq)
  then show ?thesis
    using assms(2) byte_moves_append [of source dest "n div i * i" "n mod i"] by (simp del: of_nat_mult)
qed

lemma lane_for_0: "lane_for kind 0 source dest n = []"
  by (simp add: lane_for.simps)

lemma memcpy_lane_eq: "memcpy_lane kind dest source n = byte_moves source dest n"
proof -
  have 1: "lane_for kind 1 s d k = byte_moves s d k" for s d k
    by (rule lane_for_step) (simp_all add: lane_for_0)
  have 2: "lane_for kind 2 s d k = byte_moves s d k" for s d k
    by (rule lane_for_step) (use 1 in simp_all)
  have 4: "lane_for kind 4 s d k = byte_moves s d k" for s d k
    by (rule lane_for_step) (use 2 in simp_all)
  have 8: "lane_for kind 8 s d k = byte_moves s d k" for s d k
    by (rule lane_for_step) (use 4 in simp_all)
  have "lane_for kind 16 s d k = byte_moves s d k" for s d k
    by (rule lane_for_step) (use 8 in simp_all)
  then show ?thesis by (simp add: memcpy_lane_def)
qed


text \<open>The chunks of a strided loop, and the whole range as the union of the threads' chunks.\<close>

lemma byte_moves_shift:
  "map (\<lambda>(a, b). (a + k, b + k)) (byte_moves source dest n) = byte_moves (source + k) (dest + k) n"
  by (simp add: byte_moves_def)

lemma concat_chunks:
  "concat (map (\<lambda>i. byte_moves (source + int i * int j) (dest + int i * int j) j) [0..<n]) = byte_moves source dest (n * j)"
proof (induction n)
  case (Suc n)
  then show ?case
    using byte_moves_append [of source dest "n * j" j] by (simp add: add.commute)
qed simp

lemma mset_strided: "0 < s \<Longrightarrow> mset (concat (map (\<lambda>t. strided t n s) [0..<s])) = mset [0..<n]"
proof -
  assume s: "0 < s"
  have dist: "distinct (concat (map (\<lambda>t. strided t n s) ts))" if "distinct ts" "set ts \<subseteq> {..<s}" for ts
    using that
  proof (induction ts)
    case (Cons t ts)
    have "set (strided t n s) \<inter> set (strided u n s) = {}" if "u \<in> set ts" for u
      using strided_disjoint [of t s u n] Cons(2,3) that by auto
    then show ?case using Cons by (auto simp: distinct_strided)
  qed simp
  have "set (concat (map (\<lambda>t. strided t n s) [0..<s])) = {..<n}"
    using strided_partition [OF s, of n] by (simp add: lessThan_atLeast0)
  then show ?thesis
    using set_eq_iff_mset_eq_distinct [OF dist [of "[0..<s]"], of "[0..<n]"] by (auto simp: lessThan_atLeast0)
qed

lemma mset_concat_map: "mset xs = mset ys \<Longrightarrow> mset (concat (map f xs)) = mset (concat (map f ys))"
proof -
  assume "mset xs = mset ys"
  then have "image_mset (\<lambda>x. mset (f x)) (mset xs) = image_mset (\<lambda>x. mset (f x)) (mset ys)" by simp
  then have "sum_mset (mset (map (\<lambda>x. mset (f x)) xs)) = sum_mset (mset (map (\<lambda>x. mset (f x)) ys))" by simp
  then show ?thesis unfolding sum_mset_sum_list by (simp add: mset_concat comp_def)
qed

lemma chunk_moves_eq:
  assumes "j \<in> {1, 2, 4, 8, 16}" "\<forall>i\<in>set is. is_c_int (int i * int j)"
  shows "chunk_moves kind j source dest is
    = Inr (concat (map (\<lambda>i. byte_moves (source + int i * int j) (dest + int i * int j) j) is))"
  using assms(2) by (induction "is") (simp_all add: c_mul_ok access_asm_eq [OF assms(1)])

lemma size_to_int_small: "n < 2147483648 \<Longrightarrow> size_to_int n = int n"
proof -
  assume n: "n < 2147483648"
  then have "int n < 2 ^ 31" by simp
  then have "signed_take_bit 31 (int n) = int n" by (intro signed_take_bit_int_eq_self) auto
  then show ?thesis by (simp add: size_to_int_def signed_of_nat)
qed

definition thread_chunks :: "nat \<Rightarrow> nat \<Rightarrow> nat \<Rightarrow> int \<Rightarrow> int \<Rightarrow> nat \<Rightarrow> byte_move list" where
  "thread_chunks t s j source dest n =
     concat (map (\<lambda>i. byte_moves (source + int i * int j) (dest + int i * int j) j) (strided t (n div j) s))"

lemma copy_for_step:
  assumes j: "j \<in> {1, 2, 4, 8, 16}" and n: "n < 2147483648" and s: "0 < s"
    and rest: "copy_for kind t s (j div 2) (source + int (n div j * j)) (dest + int (n div j * j)) (n mod j) = Inr rest"
  shows "copy_for kind t s j source dest n = Inr (thread_chunks t s j source dest n @ rest)"
proof -
  have bound: "k * j < 2147483648" if "k \<le> n div j" for k
    using mult_le_mono1 [OF that, of j] div_times_less_eq_dividend [of n j] n by linarith
  have "n div j < 2147483648" using n div_le_dividend le_less_trans by blast
  then have size: "size_to_int (n div j) = int (n div j)" by (rule size_to_int_small)
  have "is_c_int (int k * int j)" if "k \<le> n div j" for k
    using bound [OF that] by (simp add: is_c_int_def int_min_def int_max_def flip: of_nat_mult)
  then have mul: "\<forall>i\<in>set (strided t (n div j) s). is_c_int (int i * int j)" "is_c_int (int (n div j) * int j)"
    using s by (auto simp: set_strided)
  have "int n - int (n div j) * int j = int (n mod j)"
    by (metis minus_div_mult_eq_mod of_nat_diff div_times_less_eq_dividend of_nat_mult)
  moreover have "int (n mod j) mod 2 ^ 64 = int (n mod j)"
    using n le_less_trans [OF mod_less_eq_dividend [of n j] n] by (intro mod_pos_pos_trivial) simp_all
  ultimately have left: "nat ((int n - int (n div j) * int j) mod 18446744073709551616) = n mod j" by simp
  have "0 < j" using j by auto
  then show ?thesis
    using rest mul by (subst copy_for.simps)
      (simp add: Let_def size chunk_moves_eq [OF j] c_mul_ok left thread_chunks_def del: of_nat_div)
qed

definition covers :: "MemcpyKind \<Rightarrow> nat \<Rightarrow> nat \<Rightarrow> bool" where
  "covers kind s j \<longleftrightarrow> (\<forall>source dest n. n < 2147483648 \<longrightarrow> (j = 0 \<longrightarrow> n = 0) \<longrightarrow>
     (\<exists>ms. (\<forall>t. copy_for kind t s j source dest n = Inr (ms t)) \<and>
           mset (concat (map ms [0..<s])) = mset (byte_moves source dest n)))"

lemma coversE:
  assumes "covers kind s j" "n < 2147483648" "j = 0 \<longrightarrow> n = 0"
  obtains ms where "\<And>t. copy_for kind t s j source dest n = Inr (ms t)"
    and "mset (concat (map ms [0..<s])) = mset (byte_moves source dest n)"
proof -
  have "\<exists>ms. (\<forall>t. copy_for kind t s j source dest n = Inr (ms t)) \<and>
      mset (concat (map ms [0..<s])) = mset (byte_moves source dest n)"
    using assms unfolding covers_def by simp
  then show thesis using that by blast
qed

lemma mset_concat_append:
  "mset (concat (map (\<lambda>t. f t @ g t) xs)) = mset (concat (map f xs)) + mset (concat (map g xs))"
  by (induction xs) simp_all

lemma mset_thread_chunks:
  assumes "0 < s"
  shows "mset (concat (map (\<lambda>t. thread_chunks t s j source dest n) [0..<s])) = mset (byte_moves source dest (n div j * j))"
proof -
  let ?f = "\<lambda>i. byte_moves (source + int i * int j) (dest + int i * int j) j"
  have "concat (map (\<lambda>t. thread_chunks t s j source dest n) ts) = concat (map ?f (concat (map (\<lambda>t. strided t (n div j) s) ts)))"
    for ts by (induction ts) (simp_all add: thread_chunks_def)
  then show ?thesis
    using mset_concat_map [OF mset_strided [OF assms, of "n div j"], of ?f] by (simp add: concat_chunks)
qed

lemma covers_step:
  assumes j: "j \<in> {1, 2, 4, 8, 16}" and s: "0 < s" and "covers kind s (j div 2)"
  shows "covers kind s j"
  unfolding covers_def
proof (intro allI impI)
  fix source dest and n :: nat
  let ?m = "int (n div j * j)"
  assume n: "n < 2147483648"
  have "n mod j < 2147483648" using n mod_less_eq_dividend [of n j] by linarith
  moreover have "j div 2 = 0 \<longrightarrow> n mod j = 0" using j by auto
  ultimately obtain ms where
    ms: "\<And>t. copy_for kind t s (j div 2) (source + ?m) (dest + ?m) (n mod j) = Inr (ms t)"
    and set: "mset (concat (map ms [0..<s])) = mset (byte_moves (source + ?m) (dest + ?m) (n mod j))"
    by (rule coversE [OF assms(3)]) auto
  have "mset (concat (map (\<lambda>t. thread_chunks t s j source dest n @ ms t) [0..<s]))
      = mset (byte_moves source dest (n div j * j) @ byte_moves (source + ?m) (dest + ?m) (n mod j))"
    by (simp only: mset_concat_append mset_thread_chunks [OF s] set mset_append)
  also have "\<dots> = mset (byte_moves source dest n)"
    unfolding byte_moves_append by simp
  finally show "\<exists>ms. (\<forall>t. copy_for kind t s j source dest n = Inr (ms t)) \<and>
      mset (concat (map ms [0..<s])) = mset (byte_moves source dest n)"
    by (intro exI [of _ "\<lambda>t. thread_chunks t s j source dest n @ ms t"]) (simp add: copy_for_step [OF j n s ms])
qed

lemma covers_0: "covers kind s 0"
proof -
  have "mset (concat (map (\<lambda>t. []) [0..<s])) = mset (byte_moves source dest 0)" for source dest
    by (induction s) simp_all
  then show ?thesis by (auto simp: covers_def copy_for.simps)
qed

lemma covers_16:
  assumes "0 < s"
  shows "covers kind s 16"
proof -
  have "covers kind s 1" by (rule covers_step) (use assms covers_0 in auto)
  then have "covers kind s 2" using assms covers_step [of 2 s kind] by simp
  then have "covers kind s 4" using assms covers_step [of 4 s kind] by simp
  then have "covers kind s 8" using assms covers_step [of 8 s kind] by simp
  then show ?thesis using assms covers_step [of 16 s kind] by simp
qed

text \<open>The moves of the threads \<open>0, \<dots>, s - 1\<close> of one copy.\<close>

lemma copy_for_exact:
  assumes "n < 2147483648" "0 < s"
  obtains ms where "\<And>t. copy_for kind t s 16 source dest n = Inr (ms t)"
    and "mset (concat (map ms [0..<s])) = mset (byte_moves source dest n)"
  by (rule coversE [OF covers_16 [OF assms(2), of kind] assms(1)]) auto

lemma wave_SZ_first_lanes:
  assumes "k \<le> 64"
  shows "wave_SZ (mask k) = k"
proof -
  have "{i. bit (mask k :: u64) i} = {..<k}" using assms by (auto simp: bit_mask_iff)
  then show ?thesis by (simp add: wave_SZ_def popcount_card)
qed


lemma chunk_moves_error: "chunk_moves kind j source dest is = Inl e \<Longrightarrow> e = UB"
  by (induction "is" arbitrary: e)
    (auto simp: bind_r_def c_mul_def c_int_def split: sum.splits if_splits)

lemma memcpy_wg_overflow:
  assumes "2147483648 \<le> n" "n < 34359738368"
  shows "memcpy_wg kind t block_size dest source n = Inl UB"
proof -
  have "n div 16 < 2147483648" using assms by (simp add: div_less_iff_less_mult)
  then have cpy: "size_to_int (n div 16) = int (n div 16)" by (rule size_to_int_small)
  have "134217728 \<le> n div 16" using assms(1) by (simp add: less_eq_div_iff_mult_less_eq)
  then have "c_mul (int (n div 16)) 16 = Inl UB"
    by (auto simp: c_mul_def c_int_def is_c_int_def int_max_def)
  then show ?thesis
    unfolding memcpy_wg_def
    by (subst copy_for.simps, cases "chunk_moves kind 16 source dest (strided t (n div 16) block_size)")
      (simp_all add: Let_def cpy chunk_moves_error del: of_nat_div)
qed

section \<open>Properties\<close>

text \<open>C16. A buffer shorter than 2 GiB is copied exactly: the threads of a block,
  or the active lanes of a wavefront when they are its first \<open>w\<close> lanes, together move byte
  \<open>k\<close> of the source to byte \<open>k\<close> of the destination once for every \<open>k\<close> below the size,
  and move nothing else; no thread's offset leaves the range of \<open>int\<close>. The lane copy makes
  the same moves in ascending order, for any size.\<close>

theorem memcpy_exact:
  assumes "n < 2147483648" "0 < block_size" "0 < w" "w \<le> 64"
  shows "memcpy_lane kind dest source m = byte_moves source dest m \<and>
    (\<exists>ms. (\<forall>t<block_size. memcpy_wg kind t block_size dest source n = Inr (ms t)) \<and>
          mset (concat (map ms [0..<block_size])) = mset (byte_moves source dest n)) \<and>
    (\<exists>ms. (\<forall>lane<w. memcpy_wave 64 kind (64 * wave + lane) (mask w) dest source n = Inr (ms lane)) \<and>
          mset (concat (map ms [0..<w])) = mset (byte_moves source dest n))"
proof (intro conjI)
  show "memcpy_lane kind dest source m = byte_moves source dest m" by (rule memcpy_lane_eq)
  show "\<exists>ms. (\<forall>t<block_size. memcpy_wg kind t block_size dest source n = Inr (ms t)) \<and>
      mset (concat (map ms [0..<block_size])) = mset (byte_moves source dest n)"
    unfolding memcpy_wg_def by (rule copy_for_exact [OF assms(1,2), of kind source dest]) blast
  obtain ms where ms: "\<And>t. copy_for kind t w 16 source dest n = Inr (ms t)"
    and set: "mset (concat (map ms [0..<w])) = mset (byte_moves source dest n)"
    using copy_for_exact [OF assms(1,3), of kind source dest] by blast
  have "(64 * wave + lane) mod 64 = lane" if "lane < w" for lane
    using that assms(4) by simp
  then show "\<exists>ms. (\<forall>lane<w. memcpy_wave 64 kind (64 * wave + lane) (mask w) dest source n = Inr (ms lane)) \<and>
      mset (concat (map ms [0..<w])) = mset (byte_moves source dest n)"
    using ms set by (intro exI [of _ ms]) (simp add: memcpy_wave_def wave_SZ_first_lanes [OF assms(4)])
qed

theorem memcpy_exact_witness:
  "\<exists>ms. (\<forall>t<4. memcpy_wg Put t 4 1000 0 37 = Inr (ms t)) \<and>
     mset (concat (map ms [0..<4])) = mset (byte_moves 0 1000 37)"
  using memcpy_exact [of 37 4 1] by simp



end
