(* ===== verification/Ipc_Sync.thy ===== *)
theory Ipc_Sync
  imports Memcpy "HOL-Library.Sublist"
begin

text \<open>
  The synchronisation of the IPC backend (\<open>src/ipc/context_ipc_device_coll.cpp\<close>): the direct
  and the atomic barrier over a team's \<open>pSync\<close> array, and the calls built from them. A device
  function is the list of the instructions that one thread executes; its loops are bounded, so
  the list is computed from the arguments. The machine below interleaves the threads of one
  block on every PE of a team, each access of shared memory being one step; \<open>Syncthreads\<close> is
  passed by all threads of a block together and a wait only when its condition holds. Every PE
  makes a sequence of calls, each a prefix that moves data, then the barrier. The theorems say
  that no PE returns from a call before every PE of the team has finished the prefix of the same call,
  that the flags stay in range and are clean between calls, and that every execution is finite and
  ends with all calls returned.
\<close>

section \<open>Device instructions\<close>

text \<open>
  \<open>Move p a q b\<close> copies the byte at address \<open>a\<close> of PE \<open>p\<close> to address \<open>b\<close> of PE \<open>q\<close>. The
  \<open>pSync\<close> instructions name an element of the pool of flags that every PE has at the same
  offsets. \<open>Fence\<close> stands for fences and quiet, which have no effect on an interleaved
  memory, and \<open>Trap\<close> for undefined behaviour.
\<close>

datatype dev_instr =
    Move nat int nat int
  | Fence
  | Syncthreads
  | Wait_eq nat int
  | Store_sync nat int
  | Put_sync nat int nat
  | Add_sync nat int nat
  | Trap

section \<open>The barriers\<close>

definition ROCSHMEM_SYNC_VALUE :: int where "ROCSHMEM_SYNC_VALUE = 0"

definition internal_direct_barrier :: "nat \<Rightarrow> nat \<Rightarrow> nat \<Rightarrow> nat \<Rightarrow> nat \<Rightarrow> dev_instr list" where
  "internal_direct_barrier pe PE_start stride n_pes pSync =
     (if pe = PE_start
      then [Fence]
         @ concat (map (\<lambda>i. [Wait_eq (pSync + i) 1, Store_sync (pSync + i) ROCSHMEM_SYNC_VALUE]) [1..<n_pes])
         @ [Fence]
         @ concat (map (\<lambda>i. [Put_sync pSync 1 (PE_start + i * stride), Fence]) [1..<n_pes])
      else [Put_sync (pSync + (pe - PE_start) div stride) 1 PE_start, Fence,
            Wait_eq pSync 1, Store_sync pSync ROCSHMEM_SYNC_VALUE, Fence])"

definition internal_atomic_barrier :: "nat \<Rightarrow> nat \<Rightarrow> nat \<Rightarrow> nat \<Rightarrow> nat \<Rightarrow> dev_instr list" where
  "internal_atomic_barrier pe PE_start stride n_pes pSync =
     (if pe = PE_start
      then [Wait_eq pSync (int n_pes - 1), Store_sync pSync ROCSHMEM_SYNC_VALUE, Fence]
         @ map (\<lambda>i. Put_sync pSync 1 (PE_start + i * stride)) [1..<n_pes]
      else [Add_sync pSync 1 PE_start, Wait_eq pSync 1, Store_sync pSync ROCSHMEM_SYNC_VALUE, Fence])"

definition internal_sync :: "nat \<Rightarrow> nat \<Rightarrow> nat \<Rightarrow> nat \<Rightarrow> nat \<Rightarrow> dev_instr list" where
  "internal_sync pe PE_start stride PE_size pSync =
     (if PE_size < 64 then internal_direct_barrier pe PE_start stride PE_size pSync
      else internal_atomic_barrier pe PE_start stride PE_size pSync)"

text \<open>The variants of a wavefront and of a block take the thread's id as their last argument.\<close>

definition internal_sync_wave :: "nat \<Rightarrow> nat \<Rightarrow> nat \<Rightarrow> nat \<Rightarrow> nat \<Rightarrow> nat \<Rightarrow> dev_instr list" where
  "internal_sync_wave pe PE_start stride PE_size pSync lane =
     (if lane = 0
      then if PE_size < 64 then internal_direct_barrier pe PE_start stride PE_size pSync
           else internal_atomic_barrier pe PE_start stride PE_size pSync
      else [])"

definition internal_sync_wg :: "nat \<Rightarrow> nat \<Rightarrow> nat \<Rightarrow> nat \<Rightarrow> nat \<Rightarrow> nat \<Rightarrow> dev_instr list" where
  "internal_sync_wg pe PE_start stride PE_size pSync t =
     [Syncthreads]
     @ (if t = 0
        then if PE_size < 64 then internal_direct_barrier pe PE_start stride PE_size pSync
             else internal_atomic_barrier pe PE_start stride PE_size pSync
        else [])
     @ [Syncthreads]"

text \<open>The fields of \<open>IPCTeam\<close> that the calls read; the \<open>pSync\<close> arrays by their offset in the pool.\<close>

record ipc_team =
  my_pe_in_world :: nat
  team_my_pe :: nat
  team_num_pes :: nat
  team_pe_start :: nat
  team_stride :: nat
  barrier_pSync :: nat
  bcast_pSync :: nat
  alltoall_pSync :: nat

definition sync :: "ipc_team \<Rightarrow> dev_instr list" where
  "sync team = internal_sync (my_pe_in_world team) (team_pe_start team) (team_stride team) (team_num_pes team) (barrier_pSync team)"

definition sync_wave :: "ipc_team \<Rightarrow> nat \<Rightarrow> dev_instr list" where
  "sync_wave team lane =
     internal_sync_wave (my_pe_in_world team) (team_pe_start team) (team_stride team) (team_num_pes team) (barrier_pSync team) lane"

definition sync_wg :: "ipc_team \<Rightarrow> nat \<Rightarrow> dev_instr list" where
  "sync_wg team t =
     internal_sync_wg (my_pe_in_world team) (team_pe_start team) (team_stride team) (team_num_pes team) (barrier_pSync team) t"

definition sync_all :: "nat \<Rightarrow> nat \<Rightarrow> nat \<Rightarrow> dev_instr list" where
  "sync_all my_pe num_pes barrier_sync = internal_sync my_pe 0 1 num_pes barrier_sync"

definition sync_all_wave :: "nat \<Rightarrow> nat \<Rightarrow> nat \<Rightarrow> nat \<Rightarrow> dev_instr list" where
  "sync_all_wave my_pe num_pes barrier_sync lane = internal_sync_wave my_pe 0 1 num_pes barrier_sync lane"

definition sync_all_wg :: "nat \<Rightarrow> nat \<Rightarrow> nat \<Rightarrow> nat \<Rightarrow> dev_instr list" where
  "sync_all_wg my_pe num_pes barrier_sync t = internal_sync_wg my_pe 0 1 num_pes barrier_sync t"

definition barrier_all :: "nat \<Rightarrow> nat \<Rightarrow> nat \<Rightarrow> dev_instr list" where
  "barrier_all my_pe num_pes barrier_sync = [Fence] @ sync_all my_pe num_pes barrier_sync"

definition barrier_all_wave :: "nat \<Rightarrow> nat \<Rightarrow> nat \<Rightarrow> nat \<Rightarrow> dev_instr list" where
  "barrier_all_wave my_pe num_pes barrier_sync lane =
     (if lane = 0 then [Fence] else []) @ sync_all_wave my_pe num_pes barrier_sync lane"

definition barrier_all_wg :: "nat \<Rightarrow> nat \<Rightarrow> nat \<Rightarrow> nat \<Rightarrow> dev_instr list" where
  "barrier_all_wg my_pe num_pes barrier_sync t =
     (if t = 0 then [Fence] else []) @ sync_all_wg my_pe num_pes barrier_sync t @ [Syncthreads]"

definition barrier :: "ipc_team \<Rightarrow> dev_instr list" where
  "barrier team = [Fence] @
     internal_sync (my_pe_in_world team) (team_pe_start team) (team_stride team) (team_num_pes team) (barrier_pSync team)"

definition barrier_wave :: "ipc_team \<Rightarrow> nat \<Rightarrow> dev_instr list" where
  "barrier_wave team lane = (if lane = 0 then [Fence] else []) @
     internal_sync_wave (my_pe_in_world team) (team_pe_start team) (team_stride team) (team_num_pes team) (barrier_pSync team) lane"

definition barrier_wg :: "ipc_team \<Rightarrow> nat \<Rightarrow> dev_instr list" where
  "barrier_wg team t = (if t = 0 then [Fence] else []) @
     internal_sync_wg (my_pe_in_world team) (team_pe_start team) (team_stride team) (team_num_pes team) (barrier_pSync team) t
     @ [Syncthreads]"

section \<open>The machine\<close>

text \<open>
  \<open>todo s p t\<close> is what thread \<open>t\<close> of PE \<open>p\<close> still has to execute of its current call,
  \<open>calls s p\<close> how many calls PE \<open>p\<close> has started.
\<close>

record dev_state =
  todo :: "nat \<Rightarrow> nat \<Rightarrow> dev_instr list"
  calls :: "nat \<Rightarrow> nat"
  psync :: "nat \<Rightarrow> nat \<Rightarrow> int"
  heap :: "nat \<Rightarrow> int \<Rightarrow> u8"

fun enabled :: "dev_state \<Rightarrow> nat \<Rightarrow> dev_instr \<Rightarrow> bool" where
  "enabled s p (Wait_eq k v) \<longleftrightarrow> psync s p k = v"
| "enabled s p Syncthreads \<longleftrightarrow> False"
| "enabled s p Trap \<longleftrightarrow> False"
| "enabled s p _ \<longleftrightarrow> True"

fun exec :: "nat \<Rightarrow> dev_instr \<Rightarrow> dev_state \<Rightarrow> dev_state" where
  "exec p (Move q a r b) s = s\<lparr>heap := (heap s)(r := (heap s r)(b := heap s q a))\<rparr>"
| "exec p (Store_sync k v) s = s\<lparr>psync := (psync s)(p := (psync s p)(k := v))\<rparr>"
| "exec p (Put_sync k v q) s = s\<lparr>psync := (psync s)(q := (psync s q)(k := v))\<rparr>"
| "exec p (Add_sync k v q) s = s\<lparr>psync := (psync s)(q := (psync s q)(k := psync s q k + v))\<rparr>"
| "exec p _ s = s"

text \<open>
  The step relation of the PEs \<open>P\<close>, with \<open>T\<close> threads each, that make \<open>R\<close> calls;
  \<open>prog p r t\<close> is the code of thread \<open>t\<close> of PE \<open>p\<close> in call \<open>r\<close>.
\<close>

inductive dev_step :: "nat set \<Rightarrow> nat \<Rightarrow> nat \<Rightarrow> (nat \<Rightarrow> nat \<Rightarrow> nat \<Rightarrow> dev_instr list) \<Rightarrow> dev_state \<Rightarrow> dev_state \<Rightarrow> bool"
  for P T R prog where
  step_call: "p \<in> P \<Longrightarrow> \<forall>t<T. todo s p t = [] \<Longrightarrow> calls s p < R \<Longrightarrow>
    dev_step P T R prog s (s\<lparr>todo := (todo s)(p := \<lambda>t. if t < T then prog p (calls s p) t else []),
                           calls := (calls s)(p := Suc (calls s p))\<rparr>)"
| step_sync: "p \<in> P \<Longrightarrow> \<forall>t<T. \<exists>is. todo s p t = Syncthreads # is \<Longrightarrow>
    dev_step P T R prog s (s\<lparr>todo := (todo s)(p := \<lambda>t. tl (todo s p t))\<rparr>)"
| step_exec: "p \<in> P \<Longrightarrow> t < T \<Longrightarrow> todo s p t = i # is \<Longrightarrow> enabled s p i \<Longrightarrow>
    dev_step P T R prog s ((exec p i s)\<lparr>todo := (todo s)(p := (todo s p)(t := is))\<rparr>)"

definition dev_init :: "dev_state \<Rightarrow> bool" where
  "dev_init s \<longleftrightarrow> (\<forall>p t. todo s p t = []) \<and> (\<forall>p. calls s p = 0) \<and> (\<forall>p k. psync s p k = ROCSHMEM_SYNC_VALUE)"

definition idle :: "nat \<Rightarrow> dev_state \<Rightarrow> nat \<Rightarrow> bool" where
  "idle T s p \<longleftrightarrow> (\<forall>t<T. todo s p t = [])"

text \<open>The number of calls that a PE has returned from.\<close>

definition returned :: "nat \<Rightarrow> dev_state \<Rightarrow> nat \<Rightarrow> nat" where
  "returned T s p = (if idle T s p then calls s p else calls s p - 1)"

definition all_returned :: "nat set \<Rightarrow> nat \<Rightarrow> nat \<Rightarrow> dev_state \<Rightarrow> bool" where
  "all_returned P T R s \<longleftrightarrow> (\<forall>p\<in>P. idle T s p \<and> calls s p = R)"

section \<open>Team calls\<close>

definition team_pe :: "nat \<Rightarrow> nat \<Rightarrow> nat \<Rightarrow> nat" where
  "team_pe start stride i = start + i * stride"

definition team_pes :: "nat \<Rightarrow> nat \<Rightarrow> nat \<Rightarrow> nat set" where
  "team_pes start stride n = team_pe start stride ` {..<n}"

text \<open>
  The shape that the calls share: a prefix without flags, the barrier in thread 0, and
  \<open>m\<close> block barriers.
\<close>

definition call_tail :: "nat \<Rightarrow> nat \<Rightarrow> nat \<Rightarrow> nat \<Rightarrow> nat \<Rightarrow> nat \<Rightarrow> nat \<Rightarrow> dev_instr list" where
  "call_tail start stride n b m p t =
     (if t = 0 then internal_sync p start stride n b else []) @ replicate m Syncthreads"

definition call_prog ::
    "nat \<Rightarrow> nat \<Rightarrow> nat \<Rightarrow> nat \<Rightarrow> nat \<Rightarrow> (nat \<Rightarrow> nat \<Rightarrow> nat \<Rightarrow> dev_instr list) \<Rightarrow> nat \<Rightarrow> nat \<Rightarrow> nat \<Rightarrow> dev_instr list" where
  "call_prog start stride n b m pre p r t = pre p r t @ call_tail start stride n b m p t"

definition sync_count :: "dev_instr list \<Rightarrow> nat" where
  "sync_count is = length (filter (\<lambda>i. i = Syncthreads) is)"

fun data_only :: "dev_instr \<Rightarrow> bool" where
  "data_only (Move _ _ _ _) \<longleftrightarrow> True"
| "data_only Fence \<longleftrightarrow> True"
| "data_only Syncthreads \<longleftrightarrow> True"
| "data_only _ \<longleftrightarrow> False"

text \<open>The threads of PE \<open>p\<close> have finished the prefix of call \<open>r\<close>.\<close>

definition body_done :: "nat \<Rightarrow> nat \<Rightarrow> nat \<Rightarrow> nat \<Rightarrow> nat \<Rightarrow> nat \<Rightarrow> dev_state \<Rightarrow> nat \<Rightarrow> nat \<Rightarrow> bool" where
  "body_done start stride n b m T s p r \<longleftrightarrow> Suc r < calls s p \<or>
     calls s p = Suc r \<and> (\<forall>t<T. suffix (todo s p t) (call_tail start stride n b m p t))"

section \<open>Code lists\<close>

text \<open>In the code of a call every wait is followed at once by the reset of its flag, and a
  reset comes only after a wait.\<close>

fun is_store :: "dev_instr \<Rightarrow> bool" where
  "is_store (Store_sync _ _) \<longleftrightarrow> True"
| "is_store _ \<longleftrightarrow> False"

fun paired :: "dev_instr list \<Rightarrow> bool" where
  "paired [] \<longleftrightarrow> True"
| "paired (Wait_eq k v # is) \<longleftrightarrow> is \<noteq> [] \<and> hd is = Store_sync k ROCSHMEM_SYNC_VALUE \<and> paired is"
| "paired (i # is) \<longleftrightarrow> (is \<noteq> [] \<longrightarrow> \<not> is_store (hd is)) \<and> paired is"

lemma paired_tl: "paired (i # is) \<Longrightarrow> paired is"
  by (cases i) auto

lemma paired_suffix: "suffix ys xs \<Longrightarrow> paired xs \<Longrightarrow> paired ys"
proof (induction xs)
  case (Cons x xs)
  then show ?case using paired_tl [of x xs] by (auto simp: suffix_Cons)
qed simp

lemma paired_append:
  "paired xs \<Longrightarrow> paired ys \<Longrightarrow> (ys \<noteq> [] \<longrightarrow> \<not> is_store (hd ys)) \<Longrightarrow> paired (xs @ ys)"
  by (induction xs rule: paired.induct) (auto simp: hd_append)

lemma paired_after:
  "paired (x # y # is) \<Longrightarrow> is_store y \<Longrightarrow> \<exists>k v. x = Wait_eq k v \<and> y = Store_sync k ROCSHMEM_SYNC_VALUE"
  by (cases x) auto

lemma data_not_store: "data_only i \<Longrightarrow> \<not> is_store i"
  by (cases i) auto

lemma paired_data: "\<forall>i\<in>set is. data_only i \<Longrightarrow> paired is"
proof (induction "is")
  case (Cons i "is")
  have "is \<noteq> [] \<longrightarrow> \<not> is_store (hd is)" using Cons.prems data_not_store by (cases "is") auto
  then show ?case using Cons by (cases i) auto
qed simp

definition guarded :: "dev_instr list \<Rightarrow> bool" where
  "guarded is \<longleftrightarrow> paired is \<and> (is \<noteq> [] \<longrightarrow> \<not> is_store (hd is))"

lemma guarded_append: "guarded xs \<Longrightarrow> guarded ys \<Longrightarrow> guarded (xs @ ys)"
  by (cases xs) (auto simp: guarded_def intro!: paired_append [of "_ # _", simplified])

lemma guarded_data: "\<forall>i\<in>set is. data_only i \<Longrightarrow> guarded is"
  using paired_data [of "is"] data_not_store by (cases "is") (auto simp: guarded_def)

lemma suffix_order:
  assumes "suffix ys (us @ vs)" "x \<in> set ys" "x \<notin> set vs"
  shows "set vs \<subseteq> set ys"
  using assms by (auto simp: suffix_append dest: set_mono_suffix)

lemma suffix_append_cases:
  assumes "suffix ys (us @ vs)"
  obtains "suffix ys vs" | zs where "ys = zs @ vs" "zs \<noteq> []" "suffix zs us"
proof -
  from assms consider "suffix ys vs" | zs where "ys = zs @ vs" "suffix zs us" unfolding suffix_append by blast
  then show thesis
  proof cases
    case (2 zs)
    then show thesis using that by (cases "zs = []") auto
  qed (rule that)
qed

lemma suffix_fresh:
  assumes "suffix (x # ys) xs" "\<not> data_only x" "distinct (filter (\<lambda>i. \<not> data_only i) xs)"
  shows "x \<notin> set ys"
proof -
  obtain zs where "xs = zs @ x # ys" using assms(1) by (auto simp: suffix_def)
  then show ?thesis using assms(2,3) by auto
qed

lemma distinct_filter_data: "\<forall>i\<in>set is. data_only i \<Longrightarrow> filter (\<lambda>i. \<not> data_only i) is = []"
  by (simp add: filter_empty_conv)

lemma data_syncs: "i \<in> set (replicate m Syncthreads) \<Longrightarrow> data_only i"
  by auto

lemma sync_count_simps [simp]:
  "sync_count [] = 0" "sync_count (i # is) = (if i = Syncthreads then 1 else 0) + sync_count is"
  "sync_count (xs @ ys) = sync_count xs + sync_count ys" "sync_count (replicate k Syncthreads) = k"
  by (simp_all add: sync_count_def)

lemma sync_count_suffix: "suffix ys xs \<Longrightarrow> sync_count ys \<le> sync_count xs"
  by (auto simp: suffix_def)

lemma sync_count_last: "is \<noteq> [] \<Longrightarrow> last is = Syncthreads \<Longrightarrow> 0 < sync_count is"
  by (induction "is" rule: rev_induct) auto

lemma sync_count_none: "\<forall>i\<in>set is. i \<noteq> Syncthreads \<Longrightarrow> sync_count is = 0"
  by (induction "is") auto

section \<open>The code of the barriers\<close>

definition arrive_instr :: "nat \<Rightarrow> nat \<Rightarrow> nat \<Rightarrow> nat \<Rightarrow> dev_instr" where
  "arrive_instr start n b i = (if n < 64 then Put_sync (b + i) 1 start else Add_sync b 1 start)"

definition collect_instr :: "nat \<Rightarrow> nat \<Rightarrow> nat \<Rightarrow> dev_instr" where
  "collect_instr n b i = Store_sync (if n < 64 then b + i else b) ROCSHMEM_SYNC_VALUE"

definition await_instr :: "nat \<Rightarrow> nat \<Rightarrow> nat \<Rightarrow> dev_instr" where
  "await_instr n b i = (if n < 64 then Wait_eq (b + i) 1 else Wait_eq b (int n - 1))"

definition announce_instr :: "nat \<Rightarrow> nat \<Rightarrow> nat \<Rightarrow> nat \<Rightarrow> dev_instr" where
  "announce_instr start stride b i = Put_sync b 1 (team_pe start stride i)"

definition release_instr :: "nat \<Rightarrow> dev_instr" where
  "release_instr b = Store_sync b ROCSHMEM_SYNC_VALUE"

lemmas barrier_instr_defs = arrive_instr_def collect_instr_def await_instr_def announce_instr_def release_instr_def

lemmas barrier_code_defs = internal_sync_def internal_direct_barrier_def internal_atomic_barrier_def

lemma barrier_instr_neq [simp]:
  "arrive_instr start n b i \<noteq> release_instr b" "announce_instr start stride b i \<noteq> collect_instr n b j"
  "collect_instr n b i \<noteq> await_instr n b j" "announce_instr start stride b i \<noteq> await_instr n b j"
  "release_instr b \<noteq> Wait_eq k v" "arrive_instr start n b i \<noteq> Wait_eq k v"
  by (auto simp: barrier_instr_defs)

lemmas barrier_instr_neq_sym [simp] = barrier_instr_neq [symmetric]

lemma barrier_instr_sync [simp]:
  "\<not> data_only (arrive_instr start n b i)" "\<not> data_only (collect_instr n b i)" "\<not> data_only (await_instr n b i)"
  "\<not> data_only (announce_instr start stride b i)" "\<not> data_only (release_instr b)"
  by (simp_all add: barrier_instr_defs)

lemma root_code:
  "internal_sync start start stride n b =
     (if n < 64
      then (Fence # concat (map (\<lambda>i. [await_instr n b i, collect_instr n b i]) [1..<n]))
         @ Fence # concat (map (\<lambda>i. [announce_instr start stride b i, Fence]) [1..<n])
      else [await_instr n b 1, collect_instr n b 1] @ Fence # map (announce_instr start stride b) [1..<n])"
  by (simp add: barrier_code_defs barrier_instr_defs team_pe_def)

lemma member_code:
  assumes "0 < stride" "0 < i"
  shows "internal_sync (team_pe start stride i) start stride n b =
    (if n < 64 then [arrive_instr start n b i, Fence, Wait_eq b 1, release_instr b, Fence]
     else [arrive_instr start n b i, Wait_eq b 1, release_instr b, Fence])"
  using assms by (simp add: barrier_code_defs barrier_instr_defs team_pe_def)

lemma root_code_instrs:
  assumes "x \<in> set (internal_sync start start stride n b)" "\<not> data_only x"
  shows "\<exists>i. 1 \<le> i \<and> i < n \<and> (x = await_instr n b i \<or> x = collect_instr n b i \<or> x = announce_instr start stride b i)"
  using assms by (auto simp: root_code split: if_splits intro: exI [of _ 1])

lemma root_code_all:
  assumes "1 \<le> i" "i < n"
  shows "collect_instr n b i \<in> set (internal_sync start start stride n b)"
    and "announce_instr start stride b i \<in> set (internal_sync start start stride n b)"
  using assms by (auto simp: root_code collect_instr_def)

lemma paired_root: "paired (internal_sync start start stride n b)"
proof -
  have 1: "paired (concat (map (\<lambda>i. [await_instr n b i, collect_instr n b i]) is))" if "n < 64" for "is"
  proof (induction "is")
    case (Cons i "is")
    then show ?case using that by (cases "is") (auto simp: await_instr_def collect_instr_def)
  qed simp
  have 2: "paired (concat (map (\<lambda>i. [announce_instr start stride b i, Fence]) is))" for "is"
  proof (induction "is")
    case (Cons i "is")
    then show ?case by (cases "is") (auto simp: announce_instr_def)
  qed simp
  have 3: "paired (map (announce_instr start stride b) is)" for "is"
  proof (induction "is")
    case (Cons i "is")
    then show ?case by (cases "is") (auto simp: announce_instr_def)
  qed simp
  have "[1..<n] = [] \<or> hd [1..<n] = 1" by (cases "1 < n") (auto simp: upt_conv_Cons)
  then have "paired (Fence # concat (map (\<lambda>i. [await_instr n b i, collect_instr n b i]) [1..<n]))" if "n < 64"
    using 1 [OF that, of "[1..<n]"] that by (cases "[1..<n]") (auto simp: await_instr_def)
  moreover have "paired (Fence # concat (map (\<lambda>i. [announce_instr start stride b i, Fence]) [1..<n]))"
    using 2 [of "[1..<n]"] by (cases "[1..<n]") (auto simp: announce_instr_def)
  moreover have "paired (Fence # map (announce_instr start stride b) [1..<n])"
    using 3 [of "[1..<n]"] by (cases "[1..<n]") (auto simp: announce_instr_def)
  moreover have "paired [await_instr n b 1, collect_instr n b 1]"
    by (simp add: await_instr_def collect_instr_def)
  ultimately show ?thesis
    unfolding root_code by (simp del: paired.simps append_Cons append_Nil add: paired_append)
qed

lemma distinct_concat_pairs:
  assumes "distinct is" "inj_on f (set is)" "inj_on g (set is)" "\<And>i j. f i \<noteq> g j" "\<And>i j. g i \<noteq> f j"
  shows "distinct (concat (map (\<lambda>i. [f i, g i]) is))"
  using assms by (induction "is") (auto simp: inj_on_def)

lemma distinct_root:
  assumes "0 < stride"
  shows "distinct (filter (\<lambda>i. \<not> data_only i) (internal_sync start start stride n b))"
proof -
  let ?sync = "\<lambda>i. \<not> data_only i"
  have 1: "filter ?sync (concat (map (\<lambda>i. [await_instr n b i, collect_instr n b i]) is))
      = concat (map (\<lambda>i. [await_instr n b i, collect_instr n b i]) is)" for "is"
    by (induction "is") auto
  have 2: "filter ?sync (concat (map (\<lambda>i. [announce_instr start stride b i, Fence]) is))
      = map (announce_instr start stride b) is" for "is"
    by (induction "is") auto
  have 3: "filter ?sync (map (announce_instr start stride b) is) = map (announce_instr start stride b) is" for "is"
    by (induction "is") auto
  have inj: "inj (announce_instr start stride b)"
    using assms by (auto simp: inj_def announce_instr_def team_pe_def)
  have "distinct (concat (map (\<lambda>i. [await_instr n b i, collect_instr n b i]) [1..<n]))" if "n < 64"
    using that by (intro distinct_concat_pairs) (auto simp: inj_on_def await_instr_def collect_instr_def)
  moreover have "distinct (map (announce_instr start stride b) [1..<n])"
    using inj by (simp add: distinct_map inj_on_def inj_def)
  ultimately show ?thesis
    unfolding root_code by (simp add: 1 2 3) (auto simp: await_instr_def collect_instr_def announce_instr_def)
qed

lemma not_store_root: "internal_sync start start stride n b \<noteq> [] \<Longrightarrow> \<not> is_store (hd (internal_sync start start stride n b))"
  by (auto simp: root_code await_instr_def)

section \<open>A sequence of calls\<close>

text \<open>The number of times that thread 0 of PE \<open>p\<close> has executed \<open>x\<close>, an instruction that
  occurs once in every call.\<close>

definition cnt :: "dev_state \<Rightarrow> nat \<Rightarrow> dev_instr \<Rightarrow> int" where
  "cnt s p x = int (calls s p) - (if x \<in> set (todo s p 0) then 1 else 0)"

lemma cnt_cong: "calls s' p = calls s p \<Longrightarrow> todo s' p 0 = todo s p 0 \<Longrightarrow> cnt s' p x = cnt s p x"
  by (simp add: cnt_def)

lemma cnt_next:
  assumes "todo s p 0 = y # is" "todo s' p 0 = is" "calls s' p = calls s p" "x \<noteq> y \<or> y \<notin> set is"
  shows "cnt s' p x = cnt s p x + (if x = y then 1 else 0)"
  using assms by (auto simp: cnt_def)

lemma cnt_start:
  assumes "todo s p 0 = []" "todo s' p 0 = is" "calls s' p = Suc (calls s p)" "x \<in> set is"
  shows "cnt s' p x = cnt s p x"
  using assms by (auto simp: cnt_def)

lemma exec_frame [simp]:
  "calls (exec p x s) = calls s" "todo (exec p x s) = todo s" "data_only x \<Longrightarrow> psync (exec p x s) = psync s"
  by (cases x; simp)+

text \<open>What a thread still has to do is the end of the code of its current call.\<close>

definition code_suffixes :: "nat set \<Rightarrow> nat \<Rightarrow> (nat \<Rightarrow> nat \<Rightarrow> nat \<Rightarrow> dev_instr list) \<Rightarrow> dev_state \<Rightarrow> bool" where
  "code_suffixes P T prog s \<longleftrightarrow> (\<forall>p\<in>P. \<forall>t<T.
     if calls s p = 0 then todo s p t = [] else suffix (todo s p t) (prog p (calls s p - 1) t))"

lemma codes_empty: "code_suffixes P T prog s \<Longrightarrow> p \<in> P \<Longrightarrow> t < T \<Longrightarrow> calls s p = 0 \<Longrightarrow> todo s p t = []"
  by (auto simp: code_suffixes_def)

lemma codes_cases:
  assumes "code_suffixes P T prog s" "p \<in> P" "t < T" "todo s p t = x # is"
  shows "0 < calls s p" "suffix (x # is) (prog p (calls s p - 1) t)" "x \<in> set (prog p (calls s p - 1) t)"
proof -
  show "0 < calls s p" using assms(4) codes_empty [OF assms(1-3)] by (cases "calls s p = 0") auto
  moreover have "if calls s p = 0 then todo s p t = [] else suffix (todo s p t) (prog p (calls s p - 1) t)"
    using assms(1-3) unfolding code_suffixes_def by blast
  ultimately show *: "suffix (x # is) (prog p (calls s p - 1) t)" using assms(4) by simp
  show "x \<in> set (prog p (calls s p - 1) t)" using set_mono_suffix [OF *] by simp
qed

lemma codes_suffix:
  assumes "code_suffixes P T prog s" "p \<in> P" "t < T" "calls s p = Suc r"
  shows "suffix (todo s p t) (prog p r t)"
proof -
  have "if calls s p = 0 then todo s p t = [] else suffix (todo s p t) (prog p (calls s p - 1) t)"
    using assms(1-3) unfolding code_suffixes_def by blast
  then show ?thesis using assms(4) by simp
qed

lemma codes_init: "dev_init s \<Longrightarrow> code_suffixes P T prog s"
  by (simp add: code_suffixes_def dev_init_def)

lemma codes_step:
  assumes "code_suffixes P T prog s" "dev_step P T R prog s s'"
  shows "code_suffixes P T prog s'"
  using assms(2)
proof cases
  case (step_call p)
  then show ?thesis using assms(1) by (auto simp: code_suffixes_def)
next
  case (step_sync p)
  have "suffix (tl (todo s p t)) (prog p (calls s p - 1) t) \<and> 0 < calls s p" if t: "t < T" for t
  proof -
    obtain "is" where "todo s p t = Syncthreads # is" using step_sync(3) t by auto
    then show ?thesis using codes_cases [OF assms(1) step_sync(2) t] suffix_ConsD by force
  qed
  then show ?thesis using assms(1) step_sync by (auto simp: code_suffixes_def)
next
  case (step_exec p t x "is")
  have "suffix is (prog p (calls s p - 1) t)" "0 < calls s p"
    using codes_cases [OF assms(1) step_exec(2-4)] suffix_ConsD by auto
  then show ?thesis using assms(1) step_exec by (auto simp: code_suffixes_def)
qed

lemma calls_bounded: "reachable dev_init (dev_step P T R prog) s \<Longrightarrow> calls s p \<le> R"
proof (induction rule: reachable.induct)
  case (reach_step s t)
  from reach_step(2) show ?case using reach_step(3) by cases auto
qed (simp add: dev_init_def)

text \<open>The threads of a block have the same number of block barriers before them.\<close>

definition aligned_syncs :: "nat set \<Rightarrow> nat \<Rightarrow> dev_state \<Rightarrow> bool" where
  "aligned_syncs P T s \<longleftrightarrow> (\<forall>p\<in>P. \<exists>c. \<forall>t<T. sync_count (todo s p t) = c)"

lemma aligned_step:
  assumes "aligned_syncs P T s" "dev_step P T R prog s s'"
    and prog: "\<And>p r. p \<in> P \<Longrightarrow> \<exists>c. \<forall>t<T. sync_count (prog p r t) = c"
  shows "aligned_syncs P T s'"
  using assms(2)
proof cases
  case (step_call p)
  then show ?thesis using assms(1) prog [of p "calls s p"] by (auto simp: step_call(1) aligned_syncs_def)
next
  case (step_sync p)
  obtain c where c: "\<forall>t<T. sync_count (todo s p t) = c" using assms(1) step_sync(2) by (auto simp: aligned_syncs_def)
  have "sync_count (tl (todo s p t)) = c - 1" if t: "t < T" for t
  proof -
    obtain "is" where "todo s p t = Syncthreads # is" using step_sync(3) t by blast
    then show ?thesis using c t by force
  qed
  then show ?thesis using assms(1) by (auto simp: step_sync(1) aligned_syncs_def)
next
  case (step_exec p t x "is")
  then have "sync_count is = sync_count (todo s p t)" by (cases x) auto
  then show ?thesis using assms(1) step_exec(2,3) by (auto simp: step_exec(1) aligned_syncs_def)
qed

lemma reachable_aligned_syncs:
  assumes "reachable dev_init (dev_step P T R prog) s" "\<And>p r. p \<in> P \<Longrightarrow> \<exists>c. \<forall>t<T. sync_count (prog p r t) = c"
  shows "aligned_syncs P T s"
  using assms(1)
proof (induction rule: reachable.induct)
  case (reach_init s)
  then show ?case by (simp add: aligned_syncs_def dev_init_def)
next
  case (reach_step s t)
  then show ?case using aligned_step assms(2) by blast
qed

text \<open>The contract of a call: its prefix has no flags, the threads of a block pass the same number
  of block barriers in it, and the threads other than 0 end it with one.\<close>

locale team_call =
  fixes start stride n b T R m :: nat and pre :: "nat \<Rightarrow> nat \<Rightarrow> nat \<Rightarrow> dev_instr list"
  assumes stride: "0 < stride" and n: "0 < n" and T: "0 < T"
    and pre_data: "p \<in> team_pes start stride n \<Longrightarrow> t < T \<Longrightarrow> i \<in> set (pre p r t) \<Longrightarrow> data_only i"
    and pre_aligned: "p \<in> team_pes start stride n \<Longrightarrow> t < T \<Longrightarrow> sync_count (pre p r t) = sync_count (pre p r 0)"
    and pre_closed: "p \<in> team_pes start stride n \<Longrightarrow> 0 < t \<Longrightarrow> t < T \<Longrightarrow> pre p r t \<noteq> [] \<Longrightarrow> last (pre p r t) = Syncthreads"
begin

abbreviation "pes \<equiv> team_pes start stride n"
abbreviation "member i \<equiv> team_pe start stride i"
abbreviation "code \<equiv> call_prog start stride n b m pre"
abbreviation "arrive i \<equiv> arrive_instr start n b i"
abbreviation "collect i \<equiv> collect_instr n b i"
abbreviation "announce i \<equiv> announce_instr start stride b i"
abbreviation "release \<equiv> release_instr b"
abbreviation "arrivals s i \<equiv> cnt s (member i) (arrive i)"
abbreviation "collected s i \<equiv> cnt s start (collect i)"
abbreviation "announced s i \<equiv> cnt s start (announce i)"
abbreviation "released s i \<equiv> cnt s (member i) release"

lemma member_0 [simp]: "member 0 = start"
  by (simp add: team_pe_def)

lemma member_inj [simp]: "member i = member j \<longleftrightarrow> i = j"
  using stride by (simp add: team_pe_def)

lemma member_start [simp]: "member i = start \<longleftrightarrow> i = 0"
  using stride by (simp add: team_pe_def)

lemma start_member [simp]: "start = member i \<longleftrightarrow> i = 0"
  using stride by (auto simp: team_pe_def)

lemma member_in [simp]: "i < n \<Longrightarrow> member i \<in> pes"
  by (simp add: team_pes_def)

lemma start_in [simp]: "start \<in> pes"
  using n member_in [of 0] by simp

lemma pes_cases:
  assumes "p \<in> pes"
  obtains "p = start" | i where "1 \<le> i" "i < n" "p = member i"
proof -
  obtain i where "i < n" "p = member i" using assms by (auto simp: team_pes_def)
  then show thesis using that by (cases "i = 0") auto
qed

lemma code_other: "t \<noteq> 0 \<Longrightarrow> t < T \<Longrightarrow> p \<in> pes \<Longrightarrow> i \<in> set (code p r t) \<Longrightarrow> data_only i"
  using pre_data by (auto simp: call_prog_def call_tail_def)

lemma code_root: "code start r 0 = pre start r 0 @ internal_sync start start stride n b @ replicate m Syncthreads"
  by (simp add: call_prog_def call_tail_def)

lemma code_member: "code (member i) r 0 = pre (member i) r 0 @ internal_sync (member i) start stride n b @ replicate m Syncthreads"
  by (simp add: call_prog_def call_tail_def)

lemma root_instrs:
  assumes "x \<in> set (code start r 0)" "\<not> data_only x"
  shows "\<exists>i. 1 \<le> i \<and> i < n \<and> (x = await_instr n b i \<or> x = collect i \<or> x = announce i)"
  using assms pre_data [of start 0 x r] T root_code_instrs [of x start stride n b] by (auto simp: code_root)

lemma member_instrs:
  assumes "x \<in> set (code (member i) r 0)" "\<not> data_only x" "1 \<le> i" "i < n"
  shows "x = arrive i \<or> x = Wait_eq b 1 \<or> x = release"
  using assms pre_data [of "member i" 0 x r] T by (auto simp: code_member member_code [OF stride] split: if_splits)

lemma root_all:
  assumes "1 \<le> i" "i < n"
  shows "collect i \<in> set (code start r 0)" "announce i \<in> set (code start r 0)"
  using root_code_all [OF assms] by (simp_all add: code_root)

lemma member_all:
  assumes "1 \<le> i" "i < n"
  shows "arrive i \<in> set (code (member i) r 0)" "release \<in> set (code (member i) r 0)"
  using assms by (simp_all add: code_member member_code [OF stride])

lemma root_order:
  assumes "suffix ys (code start r 0)" "collect i \<in> set ys" "1 \<le> j" "j < n"
  shows "announce j \<in> set ys"
proof -
  let ?rest = "Fence # (if n < 64 then concat (map (\<lambda>i. [announce i, Fence]) [1..<n]) else map announce [1..<n])
    @ replicate m Syncthreads"
  let ?front = "pre start r 0 @ (if n < 64 then Fence # concat (map (\<lambda>i. [await_instr n b i, collect i]) [1..<n])
    else [await_instr n b 1, collect 1])"
  have eq: "code start r 0 = ?front @ ?rest" by (simp add: code_root root_code)
  have "collect i \<notin> set ?rest" by (auto simp: collect_instr_def announce_instr_def)
  then have "set ?rest \<subseteq> set ys" by (rule suffix_order [OF assms(1) [unfolded eq] assms(2)])
  moreover have "announce j \<in> set ?rest" using assms(3,4) by auto
  ultimately show ?thesis by blast
qed

lemma member_order:
  assumes "suffix ys (code (member i) r 0)" "arrive i \<in> set ys" "1 \<le> i" "i < n"
  shows "release \<in> set ys \<and> Wait_eq b 1 \<in> set ys"
proof -
  let ?rest = "(if n < 64 then [Fence] else []) @ [Wait_eq b 1, release, Fence] @ replicate m Syncthreads"
  have eq: "code (member i) r 0 = (pre (member i) r 0 @ [arrive i]) @ ?rest"
    using assms(3) by (simp add: code_member member_code [OF stride])
  have "arrive i \<notin> set ?rest" by (auto simp: arrive_instr_def release_instr_def)
  then have "set ?rest \<subseteq> set ys" by (rule suffix_order [OF assms(1) [unfolded eq] assms(2)])
  then show ?thesis by simp
qed

lemma code_fresh:
  assumes "suffix (x # ys) (code p r 0)" "p \<in> pes" "\<not> data_only x"
  shows "x \<notin> set ys"
proof -
  have pre: "filter (\<lambda>i. \<not> data_only i) (pre p r 0) = []" using pre_data T assms(2) by (intro distinct_filter_data) blast
  have post: "filter (\<lambda>i. \<not> data_only i) (replicate m Syncthreads) = []" by (simp add: filter_empty_conv)
  from assms(2) have "distinct (filter (\<lambda>i. \<not> data_only i) (code p r 0))"
  proof (cases rule: pes_cases)
    case 1
    then show ?thesis using pre post distinct_root [OF stride] by (simp add: code_root)
  next
    case (2 i)
    then show ?thesis using pre post
      by (simp add: code_member member_code [OF stride])
  qed
  then show ?thesis using suffix_fresh assms by blast
qed

lemma code_guarded:
  assumes "p \<in> pes"
  shows "guarded (code p r 0)"
proof -
  have "guarded (internal_sync p start stride n b)" using assms
  proof (cases rule: pes_cases)
    case 1
    then show ?thesis using paired_root not_store_root by (simp add: guarded_def)
  next
    case (2 i)
    then show ?thesis by (simp add: guarded_def member_code [OF stride] arrive_instr_def release_instr_def)
  qed
  moreover have "guarded (pre p r 0)" using pre_data [OF assms T] by (simp add: guarded_data)
  moreover have "guarded (replicate m Syncthreads)" by (simp add: guarded_data)
  ultimately show ?thesis by (simp add: call_prog_def call_tail_def guarded_append)
qed

abbreviation "codes \<equiv> code_suffixes pes T code"

definition chain :: "dev_state \<Rightarrow> nat \<Rightarrow> bool" where
  "chain s i \<longleftrightarrow> released s i \<le> announced s i \<and> announced s i \<le> collected s i \<and>
     collected s i \<le> arrivals s i \<and> arrivals s i \<le> released s i + 1"

definition flags :: "dev_state \<Rightarrow> bool" where
  "flags s \<longleftrightarrow> (\<forall>i\<in>{1..<n}. psync s (member i) b = announced s i - released s i) \<and>
     (if n < 64 then \<forall>i\<in>{1..<n}. psync s start (b + i) = arrivals s i - collected s i
      else psync s start b = (\<Sum>i=1..<n. arrivals s i - collected s i))"

definition heads :: "dev_state \<Rightarrow> bool" where
  "heads s \<longleftrightarrow> (\<forall>i\<in>{1..<n}. (\<forall>is. todo s start 0 = collect i # is \<longrightarrow> arrivals s i - collected s i = 1) \<and>
     (\<forall>is. todo s (member i) 0 = release # is \<longrightarrow> announced s i - released s i = 1))"

definition bar_inv :: "dev_state \<Rightarrow> bool" where
  "bar_inv s \<longleftrightarrow> codes s \<and> (\<forall>i\<in>{1..<n}. chain s i) \<and> flags s \<and> heads s"

text \<open>Steps that execute no instruction on flags.\<close>

lemma keep_inv:
  assumes "bar_inv s" "codes t" "psync t = psync s"
    and cnt: "\<And>p x. p \<in> pes \<Longrightarrow> \<not> data_only x \<Longrightarrow> x \<in> set (code p (calls s p) 0) \<Longrightarrow> cnt t p x = cnt s p x"
    and hd: "\<And>p x is. p \<in> pes \<Longrightarrow> is_store x \<Longrightarrow> todo t p 0 = x # is \<Longrightarrow> todo s p 0 = x # is"
  shows "bar_inv t"
proof -
  have eq: "arrivals t i = arrivals s i" "collected t i = collected s i"
    "announced t i = announced s i" "released t i = released s i" if "i \<in> {1..<n}" for i
    using that cnt root_all [of i] member_all [of i] by auto
  have "\<forall>i\<in>{1..<n}. chain t i" using assms(1) eq by (simp add: bar_inv_def chain_def)
  moreover have "flags t" using assms(1,3) eq by (simp add: bar_inv_def flags_def)
  moreover have "heads t"
    unfolding heads_def
  proof (intro ballI conjI allI impI)
    fix i "is" assume i: "i \<in> {1..<n}"
    show "arrivals t i - collected t i = 1" if "todo t start 0 = collect i # is"
      using hd [of start "collect i" "is"] that i assms(1) eq [OF i] by (auto simp: bar_inv_def heads_def collect_instr_def)
    show "announced t i - released t i = 1" if "todo t (member i) 0 = release # is"
      using hd [of "member i" release "is"] that i assms(1) eq [OF i] by (auto simp: bar_inv_def heads_def release_instr_def)
  qed
  ultimately show ?thesis using assms(2) by (simp add: bar_inv_def)
qed

lemma call_inv:
  assumes "bar_inv s" "p \<in> pes" "\<forall>t<T. todo s p t = []" "calls s p < R"
    and t: "t = s\<lparr>todo := (todo s)(p := \<lambda>t. if t < T then code p (calls s p) t else []), calls := (calls s)(p := Suc (calls s p))\<rparr>"
  shows "bar_inv t"
proof (rule keep_inv [OF assms(1)])
  show "codes t" using assms codes_step [of pes T code s R t] dev_step.step_call [OF assms(2-4)] by (simp add: bar_inv_def)
  show "psync t = psync s" by (simp add: t)
  show "cnt t q x = cnt s q x" if "q \<in> pes" "\<not> data_only x" "x \<in> set (code q (calls s q) 0)" for q x
    using that assms(3) T by (cases "q = p") (auto simp: t cnt_def)
  show "todo s q 0 = x # is" if "q \<in> pes" "is_store x" "todo t q 0 = x # is" for q x "is"
    using that code_guarded [of q "calls s q"] T by (cases "q = p") (auto simp: t guarded_def)
qed

text \<open>The head of thread 0 is a reset only after a wait.\<close>

lemma next_not_store:
  assumes "codes s" "p \<in> pes" "todo s p 0 = x # y # is" "\<not> (\<exists>k v. x = Wait_eq k v)"
  shows "\<not> is_store y"
proof -
  have "paired (x # y # is)"
    using codes_cases(2) [OF assms(1,2) T assms(3)] code_guarded [OF assms(2)] paired_suffix guarded_def by blast
  then show ?thesis using paired_after assms(4) by blast
qed

lemma sync_inv:
  assumes "bar_inv s" "p \<in> pes" "\<forall>t<T. \<exists>is. todo s p t = Syncthreads # is"
    and t: "t = s\<lparr>todo := (todo s)(p := \<lambda>t. tl (todo s p t))\<rparr>"
  shows "bar_inv t"
proof (rule keep_inv [OF assms(1)])
  show "codes t" using assms codes_step [of pes T code s R t] dev_step.step_sync [OF assms(2,3)] by (simp add: bar_inv_def)
  show "psync t = psync s" by (simp add: t)
  obtain js where js: "todo s p 0 = Syncthreads # js" using assms(3) T by blast
  show "cnt t q x = cnt s q x" if "\<not> data_only x" for q x
    using js that by (auto simp: t cnt_def)
  show "todo s q 0 = x # is" if "q \<in> pes" "is_store x" "todo t q 0 = x # is" for q x "is"
    using that js assms(1,2) next_not_store [of s p Syncthreads x "is"] by (cases "q = p") (auto simp: t bar_inv_def)
qed

lemma data_inv:
  assumes "bar_inv s" "p \<in> pes" "t < T" "todo s p t = x # is" "data_only x" "enabled s p x"
    and s': "s' = (exec p x s)\<lparr>todo := (todo s)(p := (todo s p)(t := is))\<rparr>"
  shows "bar_inv s'"
proof (rule keep_inv [OF assms(1)])
  show "codes s'" using assms codes_step [of pes T code s R s'] dev_step.step_exec [OF assms(2-4,6)] by (simp add: bar_inv_def)
  show "psync s' = psync s" using assms(5) by (simp add: s')
  show "cnt s' q y = cnt s q y" if "\<not> data_only y" for q y
    using assms(4,5) that by (auto simp: s' cnt_def)
  show "todo s q 0 = y # js" if "q \<in> pes" "is_store y" "todo s' q 0 = y # js" for q y js
  proof (cases "q = p \<and> t = 0")
    case True
    then have "todo s p 0 = x # y # js" using assms(4) that(3) by (simp add: s')
    moreover have "\<not> (\<exists>k v. x = Wait_eq k v)" using assms(5) by auto
    ultimately show ?thesis using that(2) assms(1,2) next_not_store [of s p x y js] by (auto simp: bar_inv_def)
  qed (use that in \<open>auto simp: s' split: if_splits\<close>)
qed

text \<open>Steps that execute an instruction on flags, all of them in thread 0.\<close>

lemma exec_cnt:
  assumes "codes s" "p \<in> pes" "todo s p 0 = x # is" "\<not> data_only x"
    and s': "s' = (exec p x s)\<lparr>todo := (todo s)(p := (todo s p)(0 := is))\<rparr>"
  shows "cnt s' q y = cnt s q y + (if q = p \<and> y = x then 1 else 0)"
proof -
  have "x \<notin> set is" using code_fresh [OF codes_cases(2) [OF assms(1,2) T assms(3)] assms(2,4)] .
  then show ?thesis using assms(3) by (auto simp: s' cnt_def)
qed

lemma exec_heads:
  assumes "codes s" "p \<in> pes" "todo s p 0 = x # is" "todo s' = (todo s)(p := (todo s p)(0 := is))"
    and "\<not> (\<exists>k v. x = Wait_eq k v)" "q \<in> pes" "is_store y" "todo s' q 0 = y # js"
  shows "q \<noteq> p \<and> todo s q 0 = y # js"
  using assms next_not_store [of s p x y js] by (cases "q = p") auto

lemma root_wait_passed:
  assumes "flags s" "\<And>j. j \<in> {1..<n} \<Longrightarrow> chain s j" "Wait_eq k v \<in> set (code start r 0)" "psync s start k = v"
    and "collect i = Store_sync k ROCSHMEM_SYNC_VALUE" "i \<in> {1..<n}"
  shows "arrivals s i - collected s i = 1"
proof -
  have k: "k = (if n < 64 then b + i else b)" using assms(5) by (simp add: collect_instr_def)
  obtain j where j: "1 \<le> j" "j < n" "Wait_eq k v = await_instr n b j"
    using root_instrs [OF assms(3)] by (auto simp: collect_instr_def announce_instr_def)
  have diff: "arrivals s l - collected s l \<le> 1" if "l \<in> {1..<n}" for l
    using assms(2) [OF that] by (auto simp: chain_def)
  show ?thesis
  proof (cases "n < 64")
    case True
    then have "v = 1" using j by (simp add: await_instr_def)
    then show ?thesis using True assms(1,4,6) k by (auto simp: flags_def)
  next
    case False
    then have "v = int n - 1" using j by (simp add: await_instr_def)
    then have "(\<Sum>i=1..<n. 1 - (arrivals s i - collected s i)) = 0"
      using False assms(1,4) k n by (simp add: flags_def sum_subtractf)
    then have "1 - (arrivals s i - collected s i) = 0"
      using assms(6) diff by (subst (asm) sum_nonneg_eq_0_iff) auto
    then show ?thesis by simp
  qed
qed

lemma member_wait_passed:
  assumes "flags s" "Wait_eq k v \<in> set (code (member i) r 0)" "psync s (member i) k = v" "i \<in> {1..<n}"
  shows "announced s i - released s i = 1"
  using assms member_instrs [OF assms(2)] by (auto simp: flags_def barrier_instr_defs split: if_splits)

lemma wait_inv:
  assumes inv: "bar_inv s" and "p \<in> pes" "todo s p 0 = Wait_eq k v # is" "psync s p k = v"
    and s': "s' = s\<lparr>todo := (todo s)(p := (todo s p)(0 := is))\<rparr>"
  shows "bar_inv s'"
proof -
  have codes: "codes s" and chain: "\<And>i. i \<in> {1..<n} \<Longrightarrow> chain s i" and flags: "flags s" and heads: "heads s"
    using inv by (auto simp: bar_inv_def)
  note mem = codes_cases [OF codes assms(2) T assms(3)]
  have "cnt s' q x = cnt s q x" if "x \<noteq> Wait_eq k v" for q x
    using assms(3) that by (auto simp: s' cnt_def)
  then have eq: "arrivals s' i = arrivals s i" "collected s' i = collected s i"
    "announced s' i = announced s i" "released s' i = released s i" for i
    by (simp_all add: barrier_instr_defs)
  have "paired (Wait_eq k v # is)" using paired_suffix [OF mem(2)] code_guarded [OF assms(2)] by (simp add: guarded_def)
  then obtain js where js: "is = Store_sync k ROCSHMEM_SYNC_VALUE # js" by (cases "is") auto
  have "arrivals s i - collected s i = 1" if "i \<in> {1..<n}" "todo s' start 0 = collect i # zs" for i zs
  proof (cases "p = start")
    case True
    then have "collect i = Store_sync k ROCSHMEM_SYNC_VALUE" using that(2) js by (simp add: s')
    then show ?thesis using root_wait_passed [OF flags chain mem(3) [unfolded True]] assms(4) True that(1) by blast
  qed (use that heads in \<open>auto simp: s' heads_def\<close>)
  moreover have "announced s i - released s i = 1" if "i \<in> {1..<n}" "todo s' (member i) 0 = release # zs" for i zs
    using that heads mem(3) assms(4) member_wait_passed [OF flags]
    by (cases "p = member i") (auto simp: s' heads_def)
  ultimately have "heads s'" by (auto simp: heads_def eq)
  moreover have "psync s' = psync s" by (simp add: s')
  then have "flags s'" "\<forall>i\<in>{1..<n}. chain s' i" using flags chain by (simp_all add: flags_def chain_def eq)
  moreover have "codes s'"
    using codes_step [OF codes dev_step.step_exec [OF assms(2) T assms(3)]] assms(4) by (simp add: s')
  ultimately show ?thesis by (simp add: bar_inv_def)
qed

lemma exec_inv:
  assumes inv: "bar_inv s" and "p \<in> pes" "todo s p 0 = x # is" "\<not> data_only x" "\<not> (\<exists>k v. x = Wait_eq k v)"
    and s': "s' = (exec p x s)\<lparr>todo := (todo s)(p := (todo s p)(0 := is))\<rparr>"
    and chain: "\<And>i. i \<in> {1..<n} \<Longrightarrow> chain s' i" and flags: "flags s'" and en: "enabled s p x"
  shows "bar_inv s'"
proof -
  have codes: "codes s" and heads: "heads s" using inv by (auto simp: bar_inv_def)
  have cnt: "cnt s' q y = cnt s q y + (if q = p \<and> y = x then 1 else 0)" for q y
    by (rule exec_cnt [OF codes assms(2-4) s'])
  have todo': "todo s' = (todo s)(p := (todo s p)(0 := is))" by (simp add: s')
  have hd: "q \<noteq> p \<and> todo s q 0 = y # js" if "q \<in> pes" "is_store y" "todo s' q 0 = y # js" for q y js
    by (rule exec_heads [OF codes assms(2,3) todo' assms(5) that])
  have "arrivals s' i - collected s' i = 1" if i: "i \<in> {1..<n}" and todo: "todo s' start 0 = collect i # zs" for i zs
  proof -
    have "p \<noteq> start" "todo s start 0 = collect i # zs" using hd [of start "collect i"] todo by (auto simp: collect_instr_def)
    then have "collected s' i = collected s i" "arrivals s i - collected s i = 1" "arrivals s i \<le> arrivals s' i"
      using heads i by (auto simp: cnt heads_def)
    then show ?thesis using chain [OF i] by (auto simp: chain_def)
  qed
  moreover have "announced s' i - released s' i = 1" if i: "i \<in> {1..<n}" and todo: "todo s' (member i) 0 = release # zs" for i zs
  proof -
    have "p \<noteq> member i" "todo s (member i) 0 = release # zs" using hd [of "member i" release] todo i by (auto simp: release_instr_def)
    then have "released s' i = released s i" "announced s i - released s i = 1" "announced s i \<le> announced s' i"
      using heads i by (auto simp: cnt heads_def)
    then show ?thesis using chain [OF i] by (auto simp: chain_def)
  qed
  ultimately have "heads s'" by (auto simp: heads_def)
  moreover have "codes s'" using codes_step [OF codes dev_step.step_exec [OF assms(2) T assms(3) en]] by (simp add: s')
  ultimately show ?thesis using chain flags by (simp add: bar_inv_def)
qed

lemma collect_inv:
  assumes inv: "bar_inv s" and hd: "todo s start 0 = collect j # is" and j: "j \<in> {1..<n}"
    and s': "s' = (exec start (collect j) s)\<lparr>todo := (todo s)(start := (todo s start)(0 := is))\<rparr>"
  shows "bar_inv s'"
proof (rule exec_inv [OF inv start_in hd _ _ s'])
  have codes: "codes s" and chain: "\<And>i. i \<in> {1..<n} \<Longrightarrow> chain s i" and flags: "flags s" and heads: "heads s"
    using inv by (auto simp: bar_inv_def)
  have cnt: "cnt s' q y = cnt s q y + (if q = start \<and> y = collect j then 1 else 0)" for q y
    by (rule exec_cnt [OF codes start_in hd _ s']) simp
  have psync: "psync s' = (psync s)(start := (psync s start)((if n < 64 then b + j else b) := 0))"
    by (simp add: s' collect_instr_def ROCSHMEM_SYNC_VALUE_def)
  have due: "arrivals s i - collected s i = 1" if "i \<in> {1..<n}" "collect i = collect j" for i
  proof -
    have "todo s start 0 = collect i # is" using hd that(2) by simp
    then show ?thesis using heads that(1) unfolding heads_def by blast
  qed
  have eqs: "arrivals s' i = arrivals s i" "announced s' i = announced s i" "released s' i = released s i"
    "collected s' i = collected s i + (if collect i = collect j then 1 else 0)" if "i \<in> {1..<n}" for i
    using that by (auto simp: cnt)
  show "chain s' i" if "i \<in> {1..<n}" for i
  proof -
    have "collected s' i \<le> arrivals s i" "collected s i \<le> collected s' i"
      using due [OF that] chain [OF that] eqs(4) [OF that] by (cases "collect i = collect j"; simp add: chain_def)+
    then show ?thesis using chain [OF that] eqs(1-3) [OF that] by (simp add: chain_def)
  qed
  show "flags s'"
  proof (cases "n < 64")
    case True
    then have "collect i = collect j \<longleftrightarrow> i = j" for i by (simp add: collect_instr_def)
    then show ?thesis using flags due True j by (auto simp: flags_def eqs psync)
  next
    case False
    then have "collect i = collect j" for i by (simp add: collect_instr_def)
    then have "arrivals s' i - collected s' i = 0" if "i \<in> {1..<n}" for i
      using due [OF that] eqs(1,4) [OF that] by simp
    then show ?thesis using flags False by (auto simp: flags_def eqs psync)
  qed
qed (auto simp: collect_instr_def)

lemma announce_inv:
  assumes inv: "bar_inv s" and hd: "todo s start 0 = announce j # is" and j: "j \<in> {1..<n}"
    and s': "s' = (exec start (announce j) s)\<lparr>todo := (todo s)(start := (todo s start)(0 := is))\<rparr>"
  shows "bar_inv s'"
proof (rule exec_inv [OF inv start_in hd _ _ s'])
  have codes: "codes s" and chain: "\<And>i. i \<in> {1..<n} \<Longrightarrow> chain s i" and flags: "flags s"
    using inv by (auto simp: bar_inv_def)
  have cnt: "cnt s' q y = cnt s q y + (if q = start \<and> y = announce j then 1 else 0)" for q y
    by (rule exec_cnt [OF codes start_in hd _ s']) simp
  have psync: "psync s' = (psync s)(member j := (psync s (member j))(b := 1))"
    by (simp add: s' announce_instr_def)
  have suf: "suffix (announce j # is) (code start (calls s start - 1) 0)" using codes_cases [OF codes start_in T hd] by simp
  have fresh: "announce j \<notin> set is" using code_fresh [OF suf start_in] by simp
  have "collect j \<notin> set is"
    using root_order [OF suffix_ConsD [OF suf], of j j] fresh j by auto
  then have "collected s j = int (calls s start)" "announced s j = int (calls s start) - 1"
    using hd by (simp_all add: cnt_def)
  then have due: "announced s j = released s j" "announced s j + 1 \<le> collected s j"
    using chain [OF j] by (auto simp: chain_def)
  have inj: "announce i = announce j \<longleftrightarrow> i = j" for i by (auto simp: announce_instr_def)
  have eqs: "arrivals s' i = arrivals s i" "collected s' i = collected s i" "released s' i = released s i"
    "announced s' i = announced s i + (if i = j then 1 else 0)" if "i \<in> {1..<n}" for i
    using that inj by (auto simp: cnt)
  show "chain s' i" if "i \<in> {1..<n}" for i
    using chain [OF that] due that by (simp add: chain_def eqs)
  show "flags s'" using flags due j by (auto simp: flags_def eqs psync)
qed (auto simp: announce_instr_def)

lemma arrive_inv:
  assumes inv: "bar_inv s" and j: "j \<in> {1..<n}" and hd: "todo s (member j) 0 = arrive j # is"
    and s': "s' = (exec (member j) (arrive j) s)\<lparr>todo := (todo s)(member j := (todo s (member j))(0 := is))\<rparr>"
  shows "bar_inv s'"
proof -
  have mem: "member j \<in> pes" using j by simp
  have codes: "codes s" and chain: "\<And>i. i \<in> {1..<n} \<Longrightarrow> chain s i" and flags: "flags s"
    using inv by (auto simp: bar_inv_def)
  have cnt: "cnt s' q y = cnt s q y + (if q = member j \<and> y = arrive j then 1 else 0)" for q y
    by (rule exec_cnt [OF codes mem hd _ s']) simp
  have psync: "psync s' = (psync s)(start := if n < 64 then (psync s start)(b + j := 1) else (psync s start)(b := psync s start b + 1))"
    by (simp add: s' arrive_instr_def)
  have suf: "suffix (arrive j # is) (code (member j) (calls s (member j) - 1) 0)" using codes_cases [OF codes mem T hd] by simp
  have "release \<in> set (arrive j # is)" using member_order [OF suf] j by auto
  then have "arrivals s j = int (calls s (member j)) - 1" "released s j = int (calls s (member j)) - 1"
    using hd by (auto simp: cnt_def)
  then have due: "arrivals s j = collected s j" "arrivals s j = released s j"
    using chain [OF j] by (auto simp: chain_def)
  have eqs: "collected s' i = collected s i" "announced s' i = announced s i" "released s' i = released s i"
    "arrivals s' i = arrivals s i + (if i = j then 1 else 0)" if "i \<in> {1..<n}" for i
    using that j by (auto simp: cnt)
  have chain': "chain s' i" if "i \<in> {1..<n}" for i
    using chain [OF that] due that by (simp add: chain_def eqs)
  have sum: "(\<Sum>i=1..<n. arrivals s' i - collected s' i) = (\<Sum>i=1..<n. arrivals s i - collected s i) + 1"
    using j by (simp add: eqs sum.remove [of _ j])
  have flags': "flags s'" using flags due j sum by (auto simp: flags_def eqs psync)
  show ?thesis
    by (rule exec_inv [OF inv mem hd _ _ s' chain' flags']) (auto simp: arrive_instr_def)
qed

lemma release_inv:
  assumes inv: "bar_inv s" and j: "j \<in> {1..<n}" and hd: "todo s (member j) 0 = release # is"
    and s': "s' = (exec (member j) release s)\<lparr>todo := (todo s)(member j := (todo s (member j))(0 := is))\<rparr>"
  shows "bar_inv s'"
proof -
  have mem: "member j \<in> pes" using j by simp
  have codes: "codes s" and chain: "\<And>i. i \<in> {1..<n} \<Longrightarrow> chain s i" and flags: "flags s" and heads: "heads s"
    using inv by (auto simp: bar_inv_def)
  have cnt: "cnt s' q y = cnt s q y + (if q = member j \<and> y = release then 1 else 0)" for q y
    by (rule exec_cnt [OF codes mem hd _ s']) simp
  have psync: "psync s' = (psync s)(member j := (psync s (member j))(b := 0))"
    by (simp add: s' release_instr_def ROCSHMEM_SYNC_VALUE_def)
  have due: "announced s j - released s j = 1" using heads hd j by (auto simp: heads_def)
  have eqs: "collected s' i = collected s i" "announced s' i = announced s i" "arrivals s' i = arrivals s i"
    "released s' i = released s i + (if i = j then 1 else 0)" if "i \<in> {1..<n}" for i
    using that j by (auto simp: cnt)
  have chain': "chain s' i" if "i \<in> {1..<n}" for i
    using chain [OF that] due that by (cases "i = j") (simp_all add: chain_def eqs)
  have flags': "flags s'" using flags due j by (auto simp: flags_def eqs psync)
  show ?thesis
    by (rule exec_inv [OF inv mem hd _ _ s' chain' flags']) (auto simp: release_instr_def)
qed

lemma bar_inv_init: "dev_init s \<Longrightarrow> bar_inv s"
  using codes_init [of s]
  by (simp add: bar_inv_def chain_def flags_def heads_def dev_init_def cnt_def ROCSHMEM_SYNC_VALUE_def)

lemma bar_inv_exec0:
  assumes inv: "bar_inv s" and p: "p \<in> pes" and hd: "todo s p 0 = x # is" and en: "enabled s p x"
    and s': "s' = (exec p x s)\<lparr>todo := (todo s)(p := (todo s p)(0 := is))\<rparr>"
  shows "bar_inv s'"
proof (cases "data_only x \<or> (\<exists>k v. x = Wait_eq k v)")
  case True
  then show ?thesis
    using data_inv [OF inv p T hd _ en] wait_inv [OF inv p _ _, of _ _ "is" s'] hd en by (auto simp: s')
next
  case False
  then have sync: "\<not> data_only x" "\<forall>k v. x \<noteq> Wait_eq k v" by auto
  have mem: "x \<in> set (code p (calls s p - 1) 0)" using codes_cases(3) [OF _ p T hd] inv by (simp add: bar_inv_def)
  from p show ?thesis
  proof (cases rule: pes_cases)
    case 1
    have "x \<noteq> await_instr n b i" for i using sync(2) by (auto simp: await_instr_def)
    then obtain i where "i \<in> {1..<n}" "x = collect i \<or> x = announce i"
      using root_instrs [OF mem [unfolded 1] sync(1)] by auto
    then show ?thesis using collect_inv [OF inv] announce_inv [OF inv] hd s' 1 by metis
  next
    case (2 i)
    then have "x = arrive i \<or> x = release" using member_instrs [of x i] mem sync by blast
    then show ?thesis using arrive_inv [OF inv, of i] release_inv [OF inv, of i] hd s' 2 by auto
  qed
qed

lemma bar_inv_step:
  assumes inv: "bar_inv s" and "dev_step pes T R code s s'"
  shows "bar_inv s'"
  using assms(2)
proof cases
  case (step_call p)
  then show ?thesis using call_inv [OF inv] by blast
next
  case (step_sync p)
  then show ?thesis using sync_inv [OF inv] by blast
next
  case (step_exec p t x "is")
  show ?thesis
  proof (cases "t = 0")
    case True
    then show ?thesis using bar_inv_exec0 [OF inv] step_exec by blast
  next
    case False
    have "x \<in> set (code p (calls s p - 1) t)"
      using codes_cases(3) [OF _ step_exec(2-4)] inv by (simp add: bar_inv_def)
    then have "data_only x" using code_other False step_exec(2,3) by blast
    then show ?thesis using data_inv [OF inv step_exec(2-4) _ step_exec(5,1)] by blast
  qed
qed

end

sublocale team_call \<subseteq> call_system: invariant_system dev_init "dev_step pes T R code" bar_inv
  by unfold_locales (auto intro: bar_inv_init bar_inv_step)

context team_call
begin

lemma sync_count_bar: "sync_count (internal_sync p start stride n b) = 0"
  by (rule sync_count_none) (auto simp: barrier_code_defs)

lemma sync_count_code: "p \<in> pes \<Longrightarrow> t < T \<Longrightarrow> sync_count (code p r t) = sync_count (pre p r 0) + m"
  using pre_aligned [of p t r] by (simp add: call_prog_def call_tail_def sync_count_bar)

abbreviation "aligned \<equiv> aligned_syncs pes T"

lemma reachable_aligned: "reachable dev_init (dev_step pes T R code) s \<Longrightarrow> aligned s"
proof (rule reachable_aligned_syncs)
  show "\<exists>c. \<forall>t<T. sync_count (code p r t) = c" if "p \<in> pes" for p r
    using that sync_count_code by (intro exI [of _ "sync_count (pre p r 0) + m"]) blast
qed

lemma other_suffix:
  assumes "p \<in> pes" "0 < t" "t < T" "suffix ys (code p r t)" "sync_count ys \<le> m"
  shows "suffix ys (call_tail start stride n b m p t)"
proof -
  have tail: "call_tail start stride n b m p t = replicate m Syncthreads" using assms(2) by (simp add: call_tail_def)
  from assms(4) have "suffix ys (pre p r t @ replicate m Syncthreads)" by (simp add: call_prog_def tail)
  then show ?thesis
  proof (cases rule: suffix_append_cases)
    case (2 zs)
    then have "last zs = last (pre p r t)" "pre p r t \<noteq> []" by (auto simp: suffix_def)
    then have "0 < sync_count zs" using sync_count_last [OF 2(2)] pre_closed [OF assms(1-3)] by simp
    then show ?thesis using 2(1) assms(5) by simp
  qed (simp add: tail)
qed

lemma idle_thread0:
  assumes "codes s" "aligned s" "p \<in> pes"
  shows "idle T s p \<longleftrightarrow> todo s p 0 = []"
proof
  show "todo s p 0 = []" if "idle T s p" using that T by (simp add: idle_def)
  show "idle T s p" if empty: "todo s p 0 = []"
    unfolding idle_def
  proof (intro allI impI)
    fix t assume t: "t < T"
    obtain c where "\<forall>t<T. sync_count (todo s p t) = c" using assms(2,3) by (auto simp: aligned_syncs_def)
    then have "sync_count (todo s p t) = 0" using t T empty by force
    moreover have "suffix (todo s p t) (replicate m Syncthreads) \<or> todo s p t = []"
      using assms(1,3) t empty calculation other_suffix [of p t "todo s p t" "calls s p - 1"]
      by (cases "t = 0 \<or> calls s p = 0") (auto simp: code_suffixes_def call_tail_def)
    ultimately show "todo s p t = []"
      using set_mono_suffix [of "todo s p t" "replicate m Syncthreads"] by (cases "todo s p t") auto
  qed
qed

lemma cnt_ge: "int r < cnt s p x \<longleftrightarrow> Suc r < calls s p \<or> calls s p = Suc r \<and> x \<notin> set (todo s p 0)"
  by (auto simp: cnt_def)

text \<open>Once thread 0 has executed an instruction of the barrier, the prefix is finished.\<close>

lemma body_done_if:
  assumes "codes s" "aligned s" "p \<in> pes" "calls s p = Suc r" "x \<in> set (internal_sync p start stride n b)"
    "x \<notin> set (todo s p 0)"
  shows "body_done start stride n b m T s p r"
proof -
  let ?tail = "call_tail start stride n b m p"
  have suf: "suffix (todo s p t) (code p r t)" if "t < T" for t
    by (rule codes_suffix [OF assms(1,3) that assms(4)])
  have "suffix (todo s p 0) (pre p r 0 @ ?tail 0)" using suf [OF T] by (simp add: call_prog_def)
  then have tail0: "suffix (todo s p 0) (?tail 0)"
  proof (cases rule: suffix_append_cases)
    case (2 zs)
    then show ?thesis using assms(5,6) by (simp add: call_tail_def)
  qed
  then have "sync_count (todo s p 0) \<le> m"
    using sync_count_suffix [OF tail0] by (simp add: call_tail_def sync_count_bar)
  moreover obtain c where "\<forall>t<T. sync_count (todo s p t) = c" using assms(2,3) by (auto simp: aligned_syncs_def)
  ultimately have "sync_count (todo s p t) \<le> m" if "t < T" for t using that T by auto
  then have "suffix (todo s p t) (?tail t)" if "t < T" for t
    using that tail0 other_suffix [OF assms(3) _ that suf [OF that]] by (cases "t = 0") auto
  then show ?thesis using assms(4) by (simp add: body_done_def)
qed

lemma body_done_cnt:
  assumes "codes s" "aligned s" "p \<in> pes" "x \<in> set (internal_sync p start stride n b)" "int r < cnt s p x"
  shows "body_done start stride n b m T s p r"
  using assms(5) body_done_if [OF assms(1-3) _ assms(4)] unfolding cnt_ge by (auto simp: body_done_def)

lemma returned_cnt:
  assumes "codes s" "aligned s" "p \<in> pes" "r < returned T s p"
  shows "int r < cnt s p x"
  using assms idle_thread0 [OF assms(1-3)] by (auto simp: returned_def cnt_ge split: if_splits)

lemma announced_collected:
  assumes "codes s" "int r < announced s i" "i \<in> {1..<n}" "j \<in> {1..<n}"
  shows "int r < collected s j"
proof (cases "calls s start = Suc r")
  case True
  then have "suffix (todo s start 0) (code start r 0)" using codes_suffix [OF assms(1) start_in T] by blast
  then have "collect j \<notin> set (todo s start 0)"
    using root_order [of "todo s start 0" r j i] True assms(2-4) unfolding cnt_ge by auto
  then show ?thesis using True by (simp add: cnt_ge)
qed (use assms(2) in \<open>simp add: cnt_ge\<close>)

lemma member_barrier_all:
  "i \<in> {1..<n} \<Longrightarrow> arrive i \<in> set (internal_sync (member i) start stride n b)"
  by (simp add: member_code [OF stride])

lemma calls_safe:
  assumes "reachable dev_init (dev_step pes T R code) s" "p \<in> pes" "q \<in> pes" "r < returned T s p"
  shows "body_done start stride n b m T s q r"
proof -
  have "bar_inv s" by (rule call_system.reachable_inv [OF assms(1)])
  then have codes: "codes s" and chain: "\<And>i. i \<in> {1..<n} \<Longrightarrow> chain s i" by (auto simp: bar_inv_def)
  have aligned: "aligned s" by (rule reachable_aligned [OF assms(1)])
  note ret = returned_cnt [OF codes aligned assms(2,4)]
  have same: "body_done start stride n b m T s p r"
    using assms(4) idle_thread0 [OF codes aligned assms(2)] by (auto simp: returned_def body_done_def idle_def split: if_splits)
  have root: "int r < announced s i" if "i \<in> {1..<n}" "p = member i" for i
    using ret [of release] chain [OF that(1)] that(2) by (auto simp: chain_def)
  have all: "int r < collected s j" if "j \<in> {1..<n}" for j
    using assms(2)
  proof (cases rule: pes_cases)
    case (2 i)
    then show ?thesis using announced_collected [OF codes root _ that] by auto
  qed (use ret in simp)
  from assms(3) show ?thesis
  proof (cases rule: pes_cases)
    case 1
    from assms(2) show ?thesis
    proof (cases rule: pes_cases)
      case (2 i)
      then have i: "i \<in> {1..<n}" by simp
      show ?thesis
        using body_done_cnt [OF codes aligned start_in root_code_all(2) root [OF i 2(3)]] 2 \<open>q = start\<close> by simp
    qed (use same \<open>q = start\<close> in simp)
  next
    case (2 j)
    then have j: "j \<in> {1..<n}" by simp
    then have "int r < arrivals s j" using all [OF j] chain [OF j] by (auto simp: chain_def)
    then show ?thesis
      using body_done_cnt [OF codes aligned assms(3)] member_barrier_all [OF j] 2(3) by simp
  qed
qed

text \<open>The flags stay in range, and are clean whenever all PEs are between two calls.\<close>

lemma calls_flags:
  assumes "reachable dev_init (dev_step pes T R code) s" "i \<in> {1..<n}"
  shows "psync s (member i) b \<in> {0, 1}" "if n < 64 then psync s start (b + i) \<in> {0, 1} else psync s start b \<in> {0..int n - 1}"
    and "(\<forall>p\<in>pes. idle T s p \<and> calls s p = r) \<Longrightarrow>
      psync s (member i) b = 0 \<and> psync s start (if n < 64 then b + i else b) = 0"
proof -
  have inv: "bar_inv s" by (rule call_system.reachable_inv [OF assms(1)])
  then have flags: "flags s" and chain: "\<And>i. i \<in> {1..<n} \<Longrightarrow> chain s i" by (auto simp: bar_inv_def)
  show "psync s (member i) b \<in> {0, 1}" using flags chain [OF assms(2)] assms(2) by (auto simp: flags_def chain_def)
  have diff: "0 \<le> arrivals s j - collected s j" "arrivals s j - collected s j \<le> 1" if "j \<in> {1..<n}" for j
    using chain [OF that] by (auto simp: chain_def)
  have "(\<Sum>j=1..<n. arrivals s j - collected s j) \<le> of_nat (card {1..<n}) * 1"
    by (rule sum_bounded_above) (use diff in auto)
  moreover have "0 \<le> (\<Sum>j=1..<n. arrivals s j - collected s j)" by (rule sum_nonneg) (use diff in auto)
  ultimately have sum: "(\<Sum>j=1..<n. arrivals s j - collected s j) \<in> {0..int n - 1}" using n by auto
  have "psync s start (b + i) = arrivals s i - collected s i" if "n < 64"
    using flags assms(2) that by (auto simp: flags_def)
  moreover have "psync s start b = (\<Sum>j=1..<n. arrivals s j - collected s j)" if "\<not> n < 64"
    using flags that by (simp add: flags_def)
  ultimately show "if n < 64 then psync s start (b + i) \<in> {0, 1} else psync s start b \<in> {0..int n - 1}"
    using diff [OF assms(2)] sum by auto
  show "psync s (member i) b = 0 \<and> psync s start (if n < 64 then b + i else b) = 0"
    if idle: "\<forall>p\<in>pes. idle T s p \<and> calls s p = r"
  proof -
    have "cnt s p x = int r" if "p \<in> pes" for p x using idle that T by (simp add: cnt_def idle_def)
    then have "cnt s start x = int r" "j < n \<Longrightarrow> cnt s (member j) x = int r" for x j by simp_all
    then show ?thesis using flags assms(2) by (simp add: flags_def)
  qed
qed

text \<open>A state in which no PE can move: every PE is either finished or waits in thread 0.\<close>

definition stuck :: "dev_state \<Rightarrow> bool" where
  "stuck s \<longleftrightarrow> (\<nexists>s'. dev_step pes T R code s s')"

lemma no_trap:
  assumes "p \<in> pes" "t < T"
  shows "Trap \<notin> set (code p r t)"
proof (cases "t = 0")
  case True
  from assms(1) show ?thesis
  proof (cases rule: pes_cases)
    case 1
    then show ?thesis using True root_instrs [of Trap r] by (auto simp: barrier_instr_defs split: if_splits)
  next
    case (2 i)
    then show ?thesis using True member_instrs [of Trap i r] by (auto simp: barrier_instr_defs split: if_splits)
  qed
qed (use code_other [of t p Trap r] assms in auto)

lemma stuck_exec: "stuck s \<Longrightarrow> p \<in> pes \<Longrightarrow> t < T \<Longrightarrow> todo s p t = x # is \<Longrightarrow> \<not> enabled s p x"
  using dev_step.step_exec unfolding stuck_def by metis

lemma stuck_head:
  assumes "stuck s" "codes s" "p \<in> pes" "t < T" "todo s p t = x # is"
  shows "x = Syncthreads \<or> t = 0 \<and> (\<exists>k v. x = Wait_eq k v \<and> psync s p k \<noteq> v)"
proof -
  have mem: "x \<in> set (code p (calls s p - 1) t)" by (rule codes_cases(3) [OF assms(2-5)])
  have "\<not> enabled s p x" by (rule stuck_exec [OF assms(1,3-5)])
  moreover have "x \<noteq> Trap" using mem no_trap [OF assms(3,4)] by metis
  moreover have "t \<noteq> 0 \<Longrightarrow> data_only x" using mem code_other [OF _ assms(4,3)] by blast
  ultimately show ?thesis by (cases x; cases "t = 0") simp_all
qed

lemma stuck_pe:
  assumes "stuck s" "codes s" "aligned s" "p \<in> pes"
  shows "idle T s p \<and> R \<le> calls s p \<or> (\<exists>k v is. todo s p 0 = Wait_eq k v # is \<and> psync s p k \<noteq> v)"
proof (cases "todo s p 0")
  case Nil
  then have idle: "idle T s p" using idle_thread0 [OF assms(2-4)] by simp
  then have "\<not> calls s p < R" using assms(1,4) dev_step.step_call [of p pes T s R code] by (auto simp: stuck_def idle_def)
  then show ?thesis using idle by simp
next
  case (Cons x "is")
  show ?thesis
  proof (rule ccontr)
    assume not: "\<not> ?thesis"
    then have "x = Syncthreads" using stuck_head [OF assms(1,2,4) T Cons] Cons by auto
    moreover obtain c where c: "\<forall>t<T. sync_count (todo s p t) = c" using assms(3,4) by (auto simp: aligned_syncs_def)
    ultimately have "0 < c" using Cons T by force
    then have "\<exists>js. todo s p t = Syncthreads # js" if t: "t < T" for t
      using c t stuck_head [OF assms(1,2,4) t] Cons \<open>x = Syncthreads\<close> by (cases "todo s p t"; cases "t = 0") fastforce+
    then show False using assms(1,4) dev_step.step_sync [of p pes T s R code] by (auto simp: stuck_def)
  qed
qed

lemma root_waits:
  assumes "bar_inv s" "todo s start 0 = Wait_eq k v # is" "psync s start k \<noteq> v"
  shows "\<exists>i\<in>{1..<n}. arrivals s i = int (calls s start) - 1 \<and> announced s i = int (calls s start) - 1"
proof -
  have codes: "codes s" and flags: "flags s" and chain: "\<And>i. i \<in> {1..<n} \<Longrightarrow> chain s i"
    using assms(1) by (auto simp: bar_inv_def)
  note mem = codes_cases [OF codes start_in T assms(2)]
  obtain j where j: "j \<in> {1..<n}" "Wait_eq k v = await_instr n b j"
    using root_instrs [OF mem(3)] by (auto simp: collect_instr_def announce_instr_def)
  have "paired (Wait_eq k v # is)" using paired_suffix [OF mem(2)] code_guarded [OF start_in] by (simp add: guarded_def)
  then have "Store_sync k ROCSHMEM_SYNC_VALUE \<in> set (todo s start 0)" using assms(2) by (cases "is") auto
  then have col: "collect j \<in> set (todo s start 0)" using j(2) by (auto simp: await_instr_def collect_instr_def split: if_splits)
  have ann: "announce i \<in> set (todo s start 0)" if "i \<in> {1..<n}" for i
    using root_order [of "todo s start 0" _ j i] mem(2) col that assms(2) by auto
  have "\<exists>i\<in>{1..<n}. arrivals s i - collected s i \<noteq> 1 \<and> collect i \<in> set (todo s start 0)"
  proof (cases "n < 64")
    case True
    then show ?thesis using flags j col assms(3) by (auto simp: flags_def await_instr_def intro!: bexI [of _ j])
  next
    case False
    then have all: "collect i = collect j" for i by (simp add: collect_instr_def)
    have "\<exists>i\<in>{1..<n}. arrivals s i - collected s i \<noteq> 1"
    proof (rule ccontr)
      assume "\<not> ?thesis"
      then have "(\<Sum>i=1..<n. arrivals s i - collected s i) = int n - 1" using n by simp
      then show False using False flags assms(3) j(2) by (auto simp: flags_def await_instr_def)
    qed
    then show ?thesis using all col by metis
  qed
  then obtain i where i: "i \<in> {1..<n}" "arrivals s i - collected s i \<noteq> 1" "collect i \<in> set (todo s start 0)" by blast
  then have "collected s i = int (calls s start) - 1" "announced s i = int (calls s start) - 1"
    using ann by (simp_all add: cnt_def)
  moreover have "arrivals s i = collected s i" using chain [OF i(1)] i(2) by (auto simp: chain_def)
  ultimately show ?thesis using i(1) by auto
qed

lemma member_waits:
  assumes "bar_inv s" "i \<in> {1..<n}" "todo s (member i) 0 = Wait_eq k v # is" "psync s (member i) k \<noteq> v"
  shows "announced s i = released s i" "released s i = int (calls s (member i)) - 1" "arrivals s i = int (calls s (member i))"
proof -
  have codes: "codes s" and flags: "flags s" and chain: "chain s i" using assms(1,2) by (auto simp: bar_inv_def)
  have mem: "member i \<in> pes" using assms(2) by simp
  note code = codes_cases [OF codes mem T assms(3)]
  have kv: "k = b" "v = 1" using member_instrs [OF code(3)] assms(2) by (auto simp: barrier_instr_defs split: if_splits)
  then show eq: "announced s i = released s i" using flags chain assms(2,4) by (auto simp: flags_def chain_def)
  have "paired (Wait_eq k v # is)" using paired_suffix [OF code(2)] code_guarded [OF mem] by (simp add: guarded_def)
  then have "release \<in> set (todo s (member i) 0)" using assms(3) kv by (cases "is") (auto simp: release_instr_def)
  then show rel: "released s i = int (calls s (member i)) - 1" by (simp add: cnt_def)
  have "Wait_eq k v \<notin> set is" using code_fresh [OF code(2) mem] by simp
  then have "arrive i \<notin> set (Wait_eq k v # is)"
    using member_order [OF suffix_ConsD [OF code(2)]] assms(2) kv by (auto simp: arrive_instr_def split: if_splits)
  then show "arrivals s i = int (calls s (member i))" using assms(3) by (simp add: cnt_def)
qed

lemma calls_not_stuck:
  assumes "reachable dev_init (dev_step pes T R code) s" "\<not> all_returned pes T R s"
  shows "\<exists>s'. dev_step pes T R code s s'"
proof (rule ccontr)
  assume "\<not> ?thesis"
  then have stuck: "stuck s" by (simp add: stuck_def)
  have inv: "bar_inv s" by (rule call_system.reachable_inv [OF assms(1)])
  then have codes: "codes s" and chain: "\<And>i. i \<in> {1..<n} \<Longrightarrow> chain s i" by (auto simp: bar_inv_def)
  note pe = stuck_pe [OF stuck codes reachable_aligned [OF assms(1)]]
  have le: "calls s p \<le> R" for p by (rule calls_bounded [OF assms(1)])
  have idle_cnt: "cnt s p x = int R" if "idle T s p" "R \<le> calls s p" for p x
    using that T le [of p] by (simp add: cnt_def idle_def)
  have root: "idle T s start \<and> R \<le> calls s start"
  proof (rule ccontr)
    assume "\<not> ?thesis"
    then obtain k v "is" where "todo s start 0 = Wait_eq k v # is" "psync s start k \<noteq> v" using pe [OF start_in] by blast
    then obtain i where i: "i \<in> {1..<n}" "arrivals s i = int (calls s start) - 1" "announced s i = int (calls s start) - 1"
      using root_waits [OF inv] by blast
    have "member i \<in> pes" using i(1) by simp
    from pe [OF this] show False
    proof
      assume "idle T s (member i) \<and> R \<le> calls s (member i)"
      then show False using idle_cnt [of "member i" "arrive i"] i(2) le [of start] by simp
    next
      assume "\<exists>k v is. todo s (member i) 0 = Wait_eq k v # is \<and> psync s (member i) k \<noteq> v"
      then show False using member_waits [OF inv i(1)] i(2,3) by auto
    qed
  qed
  have "idle T s p \<and> R \<le> calls s p" if "p \<in> pes" for p
    using that
  proof (cases rule: pes_cases)
    case (2 i)
    then have i: "i \<in> {1..<n}" by simp
    show ?thesis
    proof (rule ccontr)
      assume "\<not> ?thesis"
      then have "announced s i = int (calls s p) - 1" using pe [OF that] member_waits [OF inv i] 2(3) by auto
      then show False using idle_cnt [of start "announce i"] root le [of p] by simp
    qed
  qed (use root in simp)
  then show False using assms(2) le by (auto simp: all_returned_def intro: antisym)
qed

end

text \<open>Every step uses up work, so an execution has at most as many steps as there is work at its
  start: an instruction for each entry of the code, and the start of each call.\<close>

definition work :: "nat set \<Rightarrow> nat \<Rightarrow> nat \<Rightarrow> (nat \<Rightarrow> nat \<Rightarrow> nat \<Rightarrow> dev_instr list) \<Rightarrow> dev_state \<Rightarrow> nat" where
  "work P T R prog s = (\<Sum>p\<in>P. (\<Sum>t<T. length (todo s p t)) + (\<Sum>r=calls s p..<R. 1 + (\<Sum>t<T. length (prog p r t))))"

lemma sum_less_at:
  fixes f g :: "nat \<Rightarrow> nat"
  assumes "finite A" "a \<in> A" "g a < f a" "\<And>x. x \<in> A \<Longrightarrow> x \<noteq> a \<Longrightarrow> g x = f x"
  shows "sum g A < sum f A"
proof (rule sum_strict_mono_ex1 [OF assms(1)])
  show "\<forall>x\<in>A. g x \<le> f x" using assms(3,4) by (metis less_imp_le order_refl)
  show "\<exists>x\<in>A. g x < f x" using assms(2,3) by blast
qed

lemma work_step:
  assumes "finite P" "0 < T" "dev_step P T R prog s s'"
  shows "work P T R prog s' < work P T R prog s"
  using assms(3)
proof cases
  case (step_call p)
  have "(\<Sum>r=calls s p..<R. 1 + (\<Sum>t<T. length (prog p r t)))
      = 1 + (\<Sum>t<T. length (prog p (calls s p) t)) + (\<Sum>r=Suc (calls s p)..<R. 1 + (\<Sum>t<T. length (prog p r t)))"
    using step_call(4) by (rule sum.atLeast_Suc_lessThan)
  then show ?thesis unfolding work_def
    by (intro sum_less_at [OF assms(1) step_call(2)]) (use step_call in auto)
next
  case (step_sync p)
  have "(\<Sum>t<T. length (tl (todo s p t))) < (\<Sum>t<T. length (todo s p t))"
    using assms(2) step_sync(3) by (intro sum_strict_mono) force+
  then show ?thesis unfolding work_def
    by (intro sum_less_at [OF assms(1) step_sync(2)]) (use step_sync in auto)
next
  case (step_exec p t x "is")
  have "(\<Sum>u<T. length (((todo s p)(t := is)) u)) < (\<Sum>u<T. length (todo s p u))"
    by (rule sum_less_at [of _ t]) (use step_exec in auto)
  then show ?thesis unfolding work_def
    by (intro sum_less_at [OF assms(1) step_exec(2)]) (use step_exec in auto)
qed

lemma work_steps:
  assumes "finite P" "0 < T"
  shows "(dev_step P T R prog ^^ k) s s' \<Longrightarrow> k + work P T R prog s' \<le> work P T R prog s"
proof (induction k arbitrary: s')
  case (Suc k)
  then obtain u where "(dev_step P T R prog ^^ k) s u" "dev_step P T R prog u s'" by auto
  then show ?case using Suc.IH [of u] work_step [OF assms, of R prog u s'] by simp
qed simp

lemma run_to_end:
  assumes "finite P" "0 < T" "reachable dev_init (dev_step P T R prog) s"
    and "\<And>s. reachable dev_init (dev_step P T R prog) s \<Longrightarrow> \<not> all_returned P T R s \<Longrightarrow> \<exists>s'. dev_step P T R prog s s'"
  shows "\<exists>s'. (dev_step P T R prog)\<^sup>*\<^sup>* s s' \<and> all_returned P T R s'"
  using assms(3)
proof (induction "work P T R prog s" arbitrary: s rule: less_induct)
  case less
  show ?case
  proof (cases "all_returned P T R s")
    case False
    then obtain u where u: "dev_step P T R prog s u" using assms(4) [OF less.prems] by blast
    then have "work P T R prog u < work P T R prog s" using work_step [OF assms(1,2)] by blast
    moreover have "reachable dev_init (dev_step P T R prog) u" using less.prems u by (rule reach_step)
    ultimately obtain s' where "(dev_step P T R prog)\<^sup>*\<^sup>* u s'" "all_returned P T R s'" using less.hyps [of u] by blast
    then show ?thesis using converse_rtranclp_into_rtranclp [of "dev_step P T R prog", OF u] by blast
  qed auto
qed

lemma all_returned_end:
  assumes "all_returned P T R s" "0 < T" "dev_step P T R prog s s'"
  shows False
  using assms(3)
proof cases
  case (step_sync p)
  then show False using assms(1,2) by (force simp: all_returned_def idle_def)
qed (use assms(1) in \<open>auto simp: all_returned_def idle_def\<close>)

context team_call
begin

lemma calls_run_end:
  assumes "reachable dev_init (dev_step pes T R code) s"
  shows "\<exists>s'. (dev_step pes T R code)\<^sup>*\<^sup>* s s' \<and> all_returned pes T R s'"
proof (rule run_to_end [OF _ T assms])
  show "finite pes" by (simp add: team_pes_def)
  show "\<exists>s'. dev_step pes T R code s s'" if "reachable dev_init (dev_step pes T R code) s" "\<not> all_returned pes T R s" for s
    by (rule calls_not_stuck [OF that])
qed

end

section \<open>The calls of the IPC context\<close>

text \<open>A call of the team interface; the variants without suffix are made by one thread.\<close>

datatype sync_call = C_sync | C_sync_wave | C_sync_wg | C_barrier | C_barrier_wave | C_barrier_wg

primrec sync_code :: "sync_call \<Rightarrow> ipc_team \<Rightarrow> nat \<Rightarrow> dev_instr list" where
  "sync_code C_sync team t = (if t = 0 then sync team else [])"
| "sync_code C_sync_wave team t = sync_wave team t"
| "sync_code C_sync_wg team t = sync_wg team t"
| "sync_code C_barrier team t = (if t = 0 then barrier team else [])"
| "sync_code C_barrier_wave team t = barrier_wave team t"
| "sync_code C_barrier_wg team t = barrier_wg team t"

primrec sync_pre :: "sync_call \<Rightarrow> nat \<Rightarrow> nat \<Rightarrow> nat \<Rightarrow> dev_instr list" where
  "sync_pre C_sync p r t = []"
| "sync_pre C_sync_wave p r t = []"
| "sync_pre C_sync_wg p r t = [Syncthreads]"
| "sync_pre C_barrier p r t = (if t = 0 then [Fence] else [])"
| "sync_pre C_barrier_wave p r t = (if t = 0 then [Fence] else [])"
| "sync_pre C_barrier_wg p r t = (if t = 0 then [Fence] else []) @ [Syncthreads]"

primrec sync_post :: "sync_call \<Rightarrow> nat" where
  "sync_post C_sync = 0"
| "sync_post C_sync_wave = 0"
| "sync_post C_sync_wg = 1"
| "sync_post C_barrier = 0"
| "sync_post C_barrier_wave = 0"
| "sync_post C_barrier_wg = 2"

text \<open>The records that the PEs of one team hold.\<close>

definition same_team :: "nat \<Rightarrow> nat \<Rightarrow> nat \<Rightarrow> nat \<Rightarrow> (nat \<Rightarrow> ipc_team) \<Rightarrow> bool" where
  "same_team start stride n b team \<longleftrightarrow> (\<forall>p. my_pe_in_world (team p) = p \<and> team_pe_start (team p) = start \<and>
     team_stride (team p) = stride \<and> team_num_pes (team p) = n \<and> barrier_pSync (team p) = b)"

lemma sync_code_prog:
  assumes "same_team start stride n b team"
  shows "(\<lambda>p r t. sync_code c (team p) t) = call_prog start stride n b (sync_post c) (sync_pre c)"
proof (intro ext)
  fix p r t
  have two: "replicate 2 Syncthreads = [Syncthreads, Syncthreads]" by (simp add: numeral_2_eq_2)
  show "sync_code c (team p) t = call_prog start stride n b (sync_post c) (sync_pre c) p r t"
    using assms by (cases c) (simp_all add: same_team_def call_prog_def call_tail_def sync_def sync_wave_def sync_wg_def
      barrier_def barrier_wave_def barrier_wg_def internal_sync_wave_def internal_sync_wg_def internal_sync_def two)
qed

interpretation sync_calls: team_call start "Suc d" "Suc l" b "Suc u" R "sync_post c" "sync_pre c"
  for start d l b u R c
proof unfold_locales
  show "data_only i" if "i \<in> set (sync_pre c p r t)" for p t i r
    using that by (cases c) (auto split: if_splits)
  show "sync_count (sync_pre c p r t) = sync_count (sync_pre c p r 0)" for p t r
    by (cases c) simp_all
  show "last (sync_pre c p r t) = Syncthreads" if "0 < t" "sync_pre c p r t \<noteq> []" for p t r
    using that by (cases c) simp_all
qed simp_all

section \<open>Properties\<close>


text \<open>A start of the machine, and a team of four PEs 2, 5, 8, 11 with flags at offset 16 of the pool.\<close>

definition dev_start :: dev_state where
  "dev_start = \<lparr>todo = \<lambda>p t. [], calls = \<lambda>p. 0, psync = \<lambda>p k. ROCSHMEM_SYNC_VALUE, heap = \<lambda>p a. 0\<rparr>"

definition demo_team :: "nat \<Rightarrow> ipc_team" where
  "demo_team p = \<lparr>my_pe_in_world = p, team_my_pe = (p - 2) div 3, team_num_pes = 4, team_pe_start = 2, team_stride = 3,
     barrier_pSync = 16, bcast_pSync = 32, alltoall_pSync = 48\<rparr>"

lemma demo_same_team: "same_team 2 3 4 16 demo_team"
  by (simp add: same_team_def demo_team_def)

lemma reachable_run: "step\<^sup>*\<^sup>* s t \<Longrightarrow> reachable init step s \<Longrightarrow> reachable init step t"
  by (induction rule: rtranclp.induct) (auto intro: reach_step)

lemma dev_start_reachable: "reachable dev_init step dev_start"
  by (rule reach_init) (simp add: dev_init_def dev_start_def)

lemma demo_end:
  "\<exists>s. reachable dev_init (dev_step (team_pes 2 3 4) 8 2 (\<lambda>p r t. sync_code C_barrier_wg (demo_team p) t)) s \<and>
     all_returned (team_pes 2 3 4) 8 2 s"
proof -
  let ?step = "dev_step (team_pes 2 3 4) 8 2 (\<lambda>p r t. sync_code C_barrier_wg (demo_team p) t)"
  obtain s where "?step\<^sup>*\<^sup>* dev_start s" "all_returned (team_pes 2 3 4) 8 2 s"
    using sync_calls.calls_run_end [OF dev_start_reachable, of 2 2 3 7 2 16 C_barrier_wg]
    unfolding sync_code_prog [OF demo_same_team] by auto
  then show ?thesis using reachable_run [of ?step dev_start s dev_init] dev_start_reachable by blast
qed






end
