(* ===== verification/Ipc_Alltoall.thy ===== *)
theory Ipc_Alltoall
  imports Ipc_Collectives
begin

text \<open>
  The all-to-all of small blocks of the IPC backend
  (\<open>alltoallmem_wg_linear_thread_puts\<close> in \<open>src/ipc/context_ipc_device_coll.cpp\<close>). It has no
  barrier: the threads of a block share out the peers, each puts the blocks of its peers, adds 1 to
  a flag at each of them, and then waits for the flags of the same peers and resets them. Two halves
  of the \<open>pSync\<close> array are used in turn by successive calls. The theorems say that the two
  halves are enough: a flag is never added to before it is reset, the data of a call has arrived
  when a PE returns from it, and every sequence of calls completes; and for which block
  and team sizes every peer is served by exactly one thread, which all of this depends on.
\<close>

section \<open>The call\<close>

definition putmem_nbi :: "nat \<Rightarrow> int \<Rightarrow> int \<Rightarrow> nat \<Rightarrow> nat \<Rightarrow> dev_instr list" where
  "putmem_nbi my_pe dest source nelems pe =
     map (\<lambda>(a, b). Move my_pe a pe b) (memcpy_lane Put dest source nelems)"

definition WF_SIZE :: nat where "WF_SIZE = 64"

definition step_size :: "nat \<Rightarrow> nat" where
  "step_size block_size = (if block_size < WF_SIZE then block_size else WF_SIZE)"

text \<open>\<open>seq\<close> is the team's \<open>alltoall_sequence_number\<close>, which thread 0 increments at the
  end of every call.\<close>

definition alltoallmem_wg_linear_thread_puts ::
    "nat \<Rightarrow> ipc_team \<Rightarrow> nat \<Rightarrow> nat \<Rightarrow> nat \<Rightarrow> int \<Rightarrow> int \<Rightarrow> nat \<Rightarrow> dev_instr list" where
  "alltoallmem_wg_linear_thread_puts my_pe team seq T t dst src nelems =
     (let pe_size = team_num_pes team; pSync = alltoall_pSync team;
          alltoall_pSync_offset = (seq mod 2) * pe_size; js = strided t pe_size (step_size T) in
      concat (map (\<lambda>j. at_block (team_my_pe team) nelems (\<lambda>d. at_block j nelems (\<lambda>s.
        putmem_nbi my_pe (dst + d) (src + s) nelems (pe_in_world team j)))) js)
      @ concat (map (\<lambda>j. [Fence, Add_sync (pSync + alltoall_pSync_offset + team_my_pe team) 1 (pe_in_world team j)]) js)
      @ concat (map (\<lambda>j. [Wait_eq (pSync + alltoall_pSync_offset + j) 1,
                            Store_sync (pSync + alltoall_pSync_offset + j) ROCSHMEM_SYNC_VALUE]) js)
      @ [Syncthreads])"

text \<open>The dispatch on the size of a block, without the SDMA engine.\<close>

definition internal_alltoallmem_wg ::
    "nat \<Rightarrow> ipc_team \<Rightarrow> nat \<Rightarrow> nat \<Rightarrow> nat \<Rightarrow> int \<Rightarrow> int \<Rightarrow> nat \<Rightarrow> dev_instr list" where
  "internal_alltoallmem_wg my_pe team seq T t dst src nelems =
     (if nelems < 512 then alltoallmem_wg_linear_thread_puts my_pe team seq T t dst src nelems
      else alltoallmem_wg_linear my_pe team T t dst src nelems)"

definition alltoallmem_wg ::
    "nat \<Rightarrow> ipc_team \<Rightarrow> nat \<Rightarrow> nat \<Rightarrow> nat \<Rightarrow> int \<Rightarrow> int \<Rightarrow> nat \<Rightarrow> dev_instr list" where
  "alltoallmem_wg my_pe team seq T t dst src nelems = internal_alltoallmem_wg my_pe team seq T t dst src nelems"

section \<open>The exchange of signals\<close>

definition slot :: "nat \<Rightarrow> nat \<Rightarrow> nat \<Rightarrow> nat \<Rightarrow> nat" where
  "slot b n r i = b + (r mod 2) * n + i"

definition signal_instr :: "nat \<Rightarrow> nat \<Rightarrow> nat \<Rightarrow> nat \<Rightarrow> nat \<Rightarrow> nat \<Rightarrow> nat \<Rightarrow> dev_instr" where
  "signal_instr start stride n b r i j = Add_sync (slot b n r i) 1 (team_pe start stride j)"

definition take_instr :: "nat \<Rightarrow> nat \<Rightarrow> nat \<Rightarrow> nat \<Rightarrow> dev_instr" where
  "take_instr n b r j = Store_sync (slot b n r j) ROCSHMEM_SYNC_VALUE"

definition exchange_code :: "nat \<Rightarrow> nat \<Rightarrow> nat \<Rightarrow> nat \<Rightarrow> (nat \<Rightarrow> nat \<Rightarrow> nat \<Rightarrow> dev_instr list) \<Rightarrow> (nat \<Rightarrow> nat list)
    \<Rightarrow> nat \<Rightarrow> nat \<Rightarrow> nat \<Rightarrow> dev_instr list" where
  "exchange_code start stride n b puts peers p r t =
     (puts p r t @ concat (map (\<lambda>j. [Fence, signal_instr start stride n b r ((p - start) div stride) j]) (peers t)))
     @ (concat (map (\<lambda>j. [Wait_eq (slot b n r j) 1, take_instr n b r j]) (peers t)) @ [Syncthreads])"

lemma slot_inj:
  assumes "i < n" "j < n" "slot b n r i = slot b n r' j"
  shows "i = j" "r mod 2 = r' mod 2"
proof -
  have eq: "(r mod 2) * n + i = (r' mod 2) * n + j" using assms(3) by (simp add: slot_def)
  then have "((r mod 2) * n + i) mod n = ((r' mod 2) * n + j) mod n" "((r mod 2) * n + i) div n = ((r' mod 2) * n + j) div n"
    by simp_all
  then show "i = j" "r mod 2 = r' mod 2" using assms(1,2) by simp_all
qed

text \<open>The contract of an exchange: the threads share out the peers, and the puts have no flags and no block barriers.\<close>

locale signal_exchange =
  fixes start stride n b T R :: nat and puts :: "nat \<Rightarrow> nat \<Rightarrow> nat \<Rightarrow> dev_instr list" and peers :: "nat \<Rightarrow> nat list"
    and owner :: "nat \<Rightarrow> nat"
  assumes stride: "0 < stride" and n: "0 < n" and T: "0 < T"
    and puts_data: "p \<in> team_pes start stride n \<Longrightarrow> t < T \<Longrightarrow> i \<in> set (puts p r t) \<Longrightarrow> data_only i \<and> i \<noteq> Syncthreads"
    and peers_distinct: "t < T \<Longrightarrow> distinct (peers t)"
    and peers_owner: "t < T \<Longrightarrow> j \<in> set (peers t) \<longleftrightarrow> j < n \<and> t = owner j"
    and owner_less: "j < n \<Longrightarrow> owner j < T"
begin

abbreviation "pes \<equiv> team_pes start stride n"
abbreviation "member i \<equiv> team_pe start stride i"
abbreviation "code \<equiv> exchange_code start stride n b puts peers"
abbreviation "signal r i j \<equiv> signal_instr start stride n b r i j"
abbreviation "takes r j \<equiv> take_instr n b r j"

lemma member_inj [simp]: "member i = member j \<longleftrightarrow> i = j"
  using stride by (simp add: team_pe_def)

lemma member_in [simp]: "i < n \<Longrightarrow> member i \<in> pes"
  by (simp add: team_pes_def)

lemma pes_cases:
  assumes "p \<in> pes"
  obtains i where "i < n" "p = member i"
  using assms by (auto simp: team_pes_def)

lemma rank [simp]: "(member i - start) div stride = i"
  using stride by (simp add: team_pe_def)

definition sent :: "dev_state \<Rightarrow> nat \<Rightarrow> nat \<Rightarrow> nat" where
  "sent s i j = calls s (member i) -
     (if signal (calls s (member i) - 1) i j \<in> set (todo s (member i) (owner j)) then 1 else 0)"

definition taken :: "dev_state \<Rightarrow> nat \<Rightarrow> nat \<Rightarrow> nat" where
  "taken s j i = calls s (member j) -
     (if takes (calls s (member j) - 1) i \<in> set (todo s (member j) (owner i)) then 1 else 0)"

lemma instrs:
  assumes "i < n" "t < T" "x \<in> set (code (member i) r t)" "\<not> data_only x"
  shows "\<exists>j<n. t = owner j \<and> (x = signal r i j \<or> x = Wait_eq (slot b n r j) 1 \<or> x = takes r j)"
  using assms puts_data [of "member i" t x r] peers_owner [OF assms(2)]
  by (auto simp: exchange_code_def split: if_splits)

lemma instrs_all:
  assumes "i < n" "j < n"
  shows "signal r i j \<in> set (code (member i) r (owner j))" "takes r j \<in> set (code (member i) r (owner j))"
proof -
  have "j \<in> set (peers (owner j))" using peers_owner owner_less assms(2) by blast
  then show "signal r i j \<in> set (code (member i) r (owner j))" "takes r j \<in> set (code (member i) r (owner j))"
    by (auto simp: exchange_code_def)
qed

lemma instr_neq [simp]:
  "signal r i j \<noteq> takes r' j'" "takes r' j' \<noteq> signal r i j" "signal r i j \<noteq> Wait_eq k v" "takes r j \<noteq> Wait_eq k v"
  "Wait_eq k v \<noteq> signal r i j" "Wait_eq k v \<noteq> takes r j"
  "\<not> data_only (signal r i j)" "\<not> data_only (takes r j)"
  by (simp_all add: signal_instr_def take_instr_def)

lemma guarded_code:
  assumes "i < n" "t < T"
  shows "guarded (code (member i) r t)"
proof -
  have "guarded (concat (map (\<lambda>j. [Fence, signal r i j]) js))" for js
  proof (induction js)
    case (Cons j js)
    have "guarded [Fence, signal r i j]" by (simp add: guarded_def signal_instr_def)
    then show ?case using Cons guarded_append [of "[Fence, signal r i j]"] by simp
  qed (simp add: guarded_def)
  moreover have "guarded (concat (map (\<lambda>j. [Wait_eq (slot b n r j) 1, takes r j]) js))" for js
  proof (induction js)
    case (Cons j js)
    have "guarded [Wait_eq (slot b n r j) 1, takes r j]" by (simp add: guarded_def take_instr_def)
    then show ?case using Cons guarded_append [of "[Wait_eq (slot b n r j) 1, takes r j]"] by simp
  qed (simp add: guarded_def)
  moreover have "guarded (puts (member i) r t)" using puts_data [OF member_in [OF assms(1)] assms(2)] by (intro guarded_data) blast
  moreover have "guarded [Syncthreads]" by (simp add: guarded_def)
  ultimately show ?thesis unfolding exchange_code_def rank by (intro guarded_append) auto
qed

lemma distinct_code:
  assumes "i < n" "t < T"
  shows "distinct (filter (\<lambda>i. \<not> data_only i) (code (member i) r t))"
proof -
  have js: "distinct (peers t)" "\<And>j. j \<in> set (peers t) \<Longrightarrow> j < n" using peers_distinct peers_owner assms(2) by auto
  have 1: "filter (\<lambda>i. \<not> data_only i) (concat (map (\<lambda>j. [Fence, signal r i j]) js)) = map (signal r i) js" for js
    by (induction js) auto
  have 2: "filter (\<lambda>i. \<not> data_only i) (concat (map (\<lambda>j. [Wait_eq (slot b n r j) 1, takes r j]) js))
      = concat (map (\<lambda>j. [Wait_eq (slot b n r j) 1, takes r j]) js)" for js by (induction js) auto
  have 3: "filter (\<lambda>i. \<not> data_only i) (puts (member i) r t) = []"
    using puts_data [of "member i" t] assms by (auto simp: filter_empty_conv)
  have inj: "inj_on (slot b n r) (set (peers t))" 
    by (rule inj_onI) (rule slot_inj(1) [OF js(2) js(2)])
  have "distinct (map (signal r i) (peers t))"
    using js(1) by (auto simp: distinct_map inj_on_def signal_instr_def)
  moreover have "distinct (concat (map (\<lambda>j. [Wait_eq (slot b n r j) 1, takes r j]) (peers t)))"
    using js(1) inj by (intro distinct_concat_pairs) (auto simp: inj_on_def take_instr_def)
  ultimately show ?thesis by (auto simp: exchange_code_def 1 2 3)
qed

lemma fresh:
  assumes "code_suffixes pes T code s" "i < n" "t < T" "todo s (member i) t = x # is" "\<not> data_only x"
  shows "x \<notin> set is"
  using suffix_fresh [OF codes_cases(2) [OF assms(1) member_in [OF assms(2)] assms(3,4)] assms(5)]
    distinct_code [OF assms(2,3)] by blast

lemma sent_step:
  assumes codes: "code_suffixes pes T code s" and i: "i < n" and hd: "todo s (member i) t = x # is" "t < T" "data_only x \<or> x \<notin> set is"
    and s': "calls s' = calls s" "todo s' = (todo s)(member i := (todo s (member i))(t := is))"
  shows "sent s' k j = sent s k j + (if k = i \<and> t = owner j \<and> x = signal (calls s (member i) - 1) i j then 1 else 0)"
    and "taken s' k j = taken s k j + (if k = i \<and> t = owner j \<and> x = takes (calls s (member i) - 1) j then 1 else 0)"
proof -
  have "0 < calls s (member i)" using codes_cases(1) [OF codes member_in [OF i] hd(2,1)] .
  then show "sent s' k j = sent s k j + (if k = i \<and> t = owner j \<and> x = signal (calls s (member i) - 1) i j then 1 else 0)"
    "taken s' k j = taken s k j + (if k = i \<and> t = owner j \<and> x = takes (calls s (member i) - 1) j then 1 else 0)"
    using hd by (auto simp: sent_def taken_def s')
qed

definition turns :: "nat \<Rightarrow> nat \<Rightarrow> nat" where
  "turns q k = (k + 1 - q) div 2"

definition exch_flags :: "dev_state \<Rightarrow> bool" where
  "exch_flags s \<longleftrightarrow> (\<forall>i<n. \<forall>j<n. \<forall>q<2.
     psync s (member j) (b + q * n + i) = int (turns q (sent s i j)) - int (turns q (taken s j i)))"

definition exch_heads :: "dev_state \<Rightarrow> bool" where
  "exch_heads s \<longleftrightarrow> (\<forall>i<n. \<forall>j<n. \<forall>is. todo s (member j) (owner i) = takes (calls s (member j) - 1) i # is \<longrightarrow>
     taken s j i < sent s i j)"

definition exch_inv :: "dev_state \<Rightarrow> bool" where
  "exch_inv s \<longleftrightarrow> code_suffixes pes T code s \<and> (\<forall>i<n. \<forall>j<n. taken s j i \<le> sent s i j) \<and> exch_flags s \<and> exch_heads s"

lemma exch_invD:
  assumes "exch_inv s"
  shows "code_suffixes pes T code s" "i < n \<Longrightarrow> j < n \<Longrightarrow> taken s j i \<le> sent s i j"
    "i < n \<Longrightarrow> j < n \<Longrightarrow> q < 2 \<Longrightarrow> psync s (member j) (b + q * n + i) = int (turns q (sent s i j)) - int (turns q (taken s j i))"
    "i < n \<Longrightarrow> j < n \<Longrightarrow> todo s (member j) (owner i) = takes (calls s (member j) - 1) i # is \<Longrightarrow> taken s j i < sent s i j"
  using assms unfolding exch_inv_def exch_flags_def exch_heads_def by blast+

lemma count_bounds:
  "sent s i j \<le> calls s (member i)" "calls s (member i) \<le> sent s i j + 1"
  "taken s i j \<le> calls s (member i)" "calls s (member i) \<le> taken s i j + 1"
  by (auto simp: sent_def taken_def)

text \<open>A PE is at most two signals ahead of its peer.\<close>

lemma sent_ahead:
  assumes "exch_inv s" "i < n" "j < n"
  shows "sent s i j \<le> taken s j i + 2"
  using count_bounds [of s i j] count_bounds [of s j i] exch_invD(2) [OF assms(1), of j i] assms(2,3) by simp

lemma turns_step: "turns (r mod 2) (Suc r) = Suc (turns (r mod 2) r)" "turns (r mod 2) (Suc (Suc r)) = Suc (turns (r mod 2) r)"
  "q < 2 \<Longrightarrow> q \<noteq> r mod 2 \<Longrightarrow> turns q (Suc r) = turns q r"
  by (cases "even r"; auto simp: turns_def elim!: evenE oddE dest!: less_2_cases)+

lemma flag_due:
  assumes "exch_inv s" "i < n" "j < n" "taken s j i = r"
  shows "psync s (member j) (slot b n r i) = 1 \<longleftrightarrow> r < sent s i j"
proof -
  have "psync s (member j) (slot b n r i) = int (turns (r mod 2) (sent s i j)) - int (turns (r mod 2) r)"
    using exch_invD(3) [OF assms(1-3), of "r mod 2"] assms(4) by (simp add: slot_def)
  moreover have "sent s i j = r \<or> sent s i j = Suc r \<or> sent s i j = Suc (Suc r)"
    using exch_invD(2) [OF assms(1-3)] sent_ahead [OF assms(1-3)] assms(4) by auto
  ultimately show ?thesis by (auto simp: turns_step)
qed

lemma exch_keep:
  assumes "exch_inv s" "code_suffixes pes T code s'" "psync s' = psync s"
    and "\<And>i j. i < n \<Longrightarrow> j < n \<Longrightarrow> sent s' i j = sent s i j \<and> taken s' i j = taken s i j"
    and "\<And>i t x is. i < n \<Longrightarrow> t < T \<Longrightarrow> is_store x \<Longrightarrow> todo s' (member i) t = x # is \<Longrightarrow>
      todo s (member i) t = x # is \<and> calls s' (member i) = calls s (member i)"
  shows "exch_inv s'"
proof -
  have "exch_flags s'" using exch_invD(3) [OF assms(1)] assms(3,4) by (simp add: exch_flags_def)
  moreover have "exch_heads s'"
    unfolding exch_heads_def
  proof (intro allI impI)
    fix i j "is" assume ij: "i < n" "j < n" and hd: "todo s' (member j) (owner i) = takes (calls s' (member j) - 1) i # is"
    have "is_store (takes (calls s' (member j) - 1) i)" by (simp add: take_instr_def)
    then show "taken s' j i < sent s' i j"
      using assms(5) [OF ij(2) owner_less [OF ij(1)] _ hd] exch_invD(4) [OF assms(1) ij] assms(4) ij by simp
  qed
  ultimately show ?thesis using assms(2,4) exch_invD(2) [OF assms(1)] by (simp add: exch_inv_def)
qed

lemma not_store_next:
  assumes "code_suffixes pes T code s" "i < n" "t < T" "todo s (member i) t = x # y # is" "\<not> (\<exists>k v. x = Wait_eq k v)"
  shows "\<not> is_store y"
proof -
  have "paired (x # y # is)"
    using codes_cases(2) [OF assms(1) member_in [OF assms(2)] assms(3,4)] guarded_code [OF assms(2,3)] paired_suffix guarded_def
    by blast
  then show ?thesis using paired_after assms(5) by blast
qed

lemma exch_call:
  assumes inv: "exch_inv s" and i: "i < n" and empty: "\<forall>t<T. todo s (member i) t = []" and "calls s (member i) < R"
    and s': "s' = s\<lparr>todo := (todo s)(member i := \<lambda>t. if t < T then code (member i) (calls s (member i)) t else []),
      calls := (calls s)(member i := Suc (calls s (member i)))\<rparr>"
  shows "exch_inv s'"
proof (rule exch_keep [OF inv])
  show "code_suffixes pes T code s'"
    unfolding s' by (rule codes_step [OF exch_invD(1) [OF inv] dev_step.step_call [OF member_in [OF i] empty assms(4)]])
  show "sent s' k j = sent s k j \<and> taken s' k j = taken s k j" if "k < n" "j < n" for k j
    using that i empty owner_less [OF that(2)] instrs_all [OF i that(2)] by (auto simp: sent_def taken_def s')
  show "todo s (member k) t = x # is \<and> calls s' (member k) = calls s (member k)"
    if "k < n" "t < T" "is_store x" "todo s' (member k) t = x # is" for k t x "is"
    using that guarded_code [OF i that(2), of "calls s (member i)"] by (auto simp: s' guarded_def split: if_splits)
qed (simp add: s')

lemma exch_sync:
  assumes inv: "exch_inv s" and i: "i < n" and syncs: "\<forall>t<T. \<exists>is. todo s (member i) t = Syncthreads # is"
    and s': "s' = s\<lparr>todo := (todo s)(member i := \<lambda>t. tl (todo s (member i) t))\<rparr>"
  shows "exch_inv s'"
proof (rule exch_keep [OF inv])
  show "code_suffixes pes T code s'"
    unfolding s' by (rule codes_step [OF exch_invD(1) [OF inv] dev_step.step_sync [OF member_in [OF i] syncs]])
  show "sent s' k j = sent s k j \<and> taken s' k j = taken s k j" if j: "j < n" for k j
  proof -
    obtain "is" where "todo s (member i) (owner j) = Syncthreads # is" using syncs owner_less [OF j] by blast
    then show ?thesis by (auto simp: sent_def taken_def s' signal_instr_def take_instr_def)
  qed
  show "todo s (member k) t = x # is \<and> calls s' (member k) = calls s (member k)"
    if t: "t < T" and "is_store x" "todo s' (member k) t = x # is" for k t x "is"
  proof (cases "k = i")
    case True
    obtain js where "todo s (member i) t = Syncthreads # js" using syncs t by blast
    then have "todo s (member i) t = Syncthreads # x # is" using that(3) True by (simp add: s')
    then show ?thesis using not_store_next [OF exch_invD(1) [OF inv] i t] that(2) by blast
  qed (use that in \<open>simp add: s'\<close>)
qed (simp add: s')

lemma exch_data:
  assumes inv: "exch_inv s" and i: "i < n" and t: "t < T" and hd: "todo s (member i) t = x # is" and "data_only x" "enabled s (member i) x"
    and s': "s' = (exec (member i) x s)\<lparr>todo := (todo s)(member i := (todo s (member i))(t := is))\<rparr>"
  shows "exch_inv s'"
proof (rule exch_keep [OF inv])
  note codes = exch_invD(1) [OF inv]
  show "code_suffixes pes T code s'"
    unfolding s' using codes_step [OF codes dev_step.step_exec [OF member_in [OF i] t hd assms(6)]] .
  show "sent s' k j = sent s k j \<and> taken s' k j = taken s k j" for k j
    using sent_step [OF codes i hd t, of s' k j] assms(5) by (auto simp: s')
  show "todo s (member k) u = y # js \<and> calls s' (member k) = calls s (member k)"
    if "k < n" "u < T" "is_store y" "todo s' (member k) u = y # js" for k u y js
  proof (cases "k = i \<and> u = t")
    case True
    then have "todo s (member i) t = x # y # js" using hd that(4) by (simp add: s')
    moreover have "\<not> (\<exists>k v. x = Wait_eq k v)" using assms(5) by auto
    ultimately show ?thesis using not_store_next [OF codes i t] that(3) by blast
  qed (use that in \<open>auto simp: s' split: if_splits\<close>)
qed (use assms(5) in \<open>simp add: s'\<close>)

lemma exch_wait:
  assumes inv: "exch_inv s" and i: "i < n" and t: "t < T" and hd: "todo s (member i) t = Wait_eq k v # is" and "psync s (member i) k = v"
    and s': "s' = s\<lparr>todo := (todo s)(member i := (todo s (member i))(t := is))\<rparr>"
  shows "exch_inv s'"
proof -
  note codes = exch_invD(1) [OF inv]
  let ?r = "calls s (member i) - 1"
  note mem = codes_cases [OF codes member_in [OF i] t hd]
  obtain j where j: "j < n" "t = owner j" "k = slot b n ?r j" "v = 1"
    using instrs [OF i t mem(3)] by auto
  have "guarded (code (member i) ?r t)" by (rule guarded_code [OF i t])
  then have "paired (Wait_eq k v # is)" using paired_suffix [OF mem(2)] by (simp add: guarded_def)
  then obtain js where js: "is = takes ?r j # js" using j(3) by (cases "is") (auto simp: take_instr_def)
  have eq: "sent s' l m = sent s l m" "taken s' l m = taken s l m" for l m
    using hd by (auto simp: sent_def taken_def s')
  have "taken s i j = ?r" using hd js j(2) by (simp add: taken_def)
  then have due: "taken s i j < sent s j i" using flag_due [OF inv j(1) i] assms(5) j(3,4) by simp
  have "exch_heads s'"
    unfolding exch_heads_def eq
  proof (intro allI impI)
    fix l m zs assume lm: "l < n" "m < n" and z: "todo s' (member m) (owner l) = takes (calls s' (member m) - 1) l # zs"
    show "taken s m l < sent s l m"
    proof (cases "m = i \<and> owner l = t")
      case True
      then have "takes ?r l = takes ?r j" using z js by (simp add: s')
      then have "l = j" using slot_inj(1) [OF lm(1) j(1)] by (simp add: take_instr_def)
      then show ?thesis using due True by simp
    next
      case False
      then have "todo s (member m) (owner l) = takes (calls s (member m) - 1) l # zs" using z by (auto simp: s' split: if_splits)
      then show ?thesis using exch_invD(4) [OF inv lm] by blast
    qed
  qed
  moreover have "exch_flags s'" using exch_invD(3) [OF inv] by (simp add: exch_flags_def eq) (simp add: s')
  moreover have "code_suffixes pes T code s'"
    using codes_step [OF codes dev_step.step_exec [OF member_in [OF i] t hd]] assms(5) by (simp add: s')
  ultimately show ?thesis using exch_invD(2) [OF inv] by (simp add: exch_inv_def eq)
qed

lemma exch_exec:
  assumes inv: "exch_inv s" and i: "i < n" and t: "t < T" and hd: "todo s (member i) t = x # is" and sync: "\<not> data_only x" "\<not> (\<exists>k v. x = Wait_eq k v)"
    and s': "s' = (exec (member i) x s)\<lparr>todo := (todo s)(member i := (todo s (member i))(t := is))\<rparr>"
    and en: "enabled s (member i) x" and flags: "exch_flags s'" and le: "\<And>k j. k < n \<Longrightarrow> j < n \<Longrightarrow> taken s' j k \<le> sent s' k j"
  shows "exch_inv s'"
proof -
  note codes = exch_invD(1) [OF inv]
  have "x \<notin> set is" by (rule fresh [OF codes i t hd sync(1)])
  then have eq: "sent s l m \<le> sent s' l m" "m \<noteq> i \<or> owner l \<noteq> t \<Longrightarrow> taken s' m l = taken s m l" for l m
    using sent_step [OF codes i hd t, of s'] by (auto simp: s')
  have "exch_heads s'"
    unfolding exch_heads_def
  proof (intro allI impI)
    fix l m zs assume lm: "l < n" "m < n" and z: "todo s' (member m) (owner l) = takes (calls s' (member m) - 1) l # zs"
    have "is_store (takes (calls s' (member m) - 1) l)" by (simp add: take_instr_def)
    then have ne: "m \<noteq> i \<or> owner l \<noteq> t"
      using not_store_next [OF codes i t _ sync(2), of "takes (calls s' (member m) - 1) l" zs] hd z by (auto simp: s')
    then have "todo s (member m) (owner l) = takes (calls s (member m) - 1) l # zs" using z by (auto simp: s' split: if_splits)
    then show "taken s' m l < sent s' l m" using exch_invD(4) [OF inv lm] eq(1) [of l m] eq(2) [OF ne] by fastforce
  qed
  moreover have "code_suffixes pes T code s'"
    unfolding s' by (rule codes_step [OF codes dev_step.step_exec [OF member_in [OF i] t hd en]])
  ultimately show ?thesis using flags le by (simp add: exch_inv_def)
qed

lemma exch_signal:
  assumes inv: "exch_inv s" and i: "i < n" and j: "j < n" and hd: "todo s (member i) (owner j) = signal (calls s (member i) - 1) i j # is"
    and s': "s' = (exec (member i) (signal (calls s (member i) - 1) i j) s)
      \<lparr>todo := (todo s)(member i := (todo s (member i))(owner j := is))\<rparr>"
  shows "exch_inv s'"
proof (rule exch_exec [OF inv i owner_less [OF j] hd _ _ s'])
  note codes = exch_invD(1) [OF inv]
  let ?r = "calls s (member i) - 1"
  have frame: "calls s' = calls s" "todo s' = (todo s)(member i := (todo s (member i))(owner j := is))" by (simp_all add: s')
  have inj: "signal ?r i j = signal ?r i l \<longleftrightarrow> l = j" for l by (auto simp: signal_instr_def)
  have "signal ?r i j \<notin> set is" by (rule fresh [OF codes i owner_less [OF j] hd]) simp
  then have cnt: "sent s' k l = sent s k l + (if k = i \<and> l = j then 1 else 0)" "taken s' k l = taken s k l" for k l
    using sent_step [OF codes i hd owner_less [OF j] _ frame, of k l] inj by auto
  have r: "sent s i j = ?r" using hd by (simp add: sent_def)
  have psync: "psync s' = (psync s)(member j := (psync s (member j))(slot b n ?r i := psync s (member j) (slot b n ?r i) + 1))"
    by (simp add: s' signal_instr_def)
  show "taken s' l k \<le> sent s' k l" if "k < n" "l < n" for k l
    using exch_invD(2) [OF inv that] by (simp add: cnt)
  show "exch_flags s'"
    unfolding exch_flags_def
  proof (intro allI impI)
    fix k l q :: nat assume kl: "k < n" "l < n" "q < 2"
    have "b + q * n + k = slot b n q k" using kl(3) by (simp add: slot_def)
    then have same: "b + q * n + k = slot b n ?r i \<longleftrightarrow> k = i \<and> q = ?r mod 2"
      using slot_inj [OF kl(1) i, of b q ?r] kl(3) by (auto simp: slot_def)
    have "psync s' (member l) (b + q * n + k) = psync s (member l) (b + q * n + k) + (if k = i \<and> l = j \<and> q = ?r mod 2 then 1 else 0)"
      using same by (auto simp: psync)
    moreover have "turns q (sent s' k l) = turns q (sent s k l) + (if k = i \<and> l = j \<and> q = ?r mod 2 then 1 else 0)"
      using r turns_step(1) [of ?r] turns_step(3) [OF kl(3), of ?r] by (auto simp: cnt)
    ultimately show "psync s' (member l) (b + q * n + k) = int (turns q (sent s' k l)) - int (turns q (taken s' l k))"
      using exch_invD(3) [OF inv kl] by (simp add: cnt(2))
  qed
qed (simp_all add: signal_instr_def)

lemma exch_take:
  assumes inv: "exch_inv s" and i: "i < n" and j: "j < n" and hd: "todo s (member i) (owner j) = takes (calls s (member i) - 1) j # is"
    and s': "s' = (exec (member i) (takes (calls s (member i) - 1) j) s)
      \<lparr>todo := (todo s)(member i := (todo s (member i))(owner j := is))\<rparr>"
  shows "exch_inv s'"
proof (rule exch_exec [OF inv i owner_less [OF j] hd _ _ s'])
  note codes = exch_invD(1) [OF inv]
  let ?r = "calls s (member i) - 1"
  have frame: "calls s' = calls s" "todo s' = (todo s)(member i := (todo s (member i))(owner j := is))" by (simp_all add: s')
  have inj: "takes ?r j = takes ?r l \<longleftrightarrow> l = j" if "l < n" for l 
    using slot_inj(1) [OF j that, of b ?r ?r] by (auto simp: take_instr_def)
  have "takes ?r j \<notin> set is" by (rule fresh [OF codes i owner_less [OF j] hd]) simp
  then have cnt: "sent s' k l = sent s k l" "l < n \<Longrightarrow> taken s' k l = taken s k l + (if k = i \<and> l = j then 1 else 0)" for k l
    using sent_step [OF codes i hd owner_less [OF j] _ frame, of k l] inj by auto
  have r: "taken s i j = ?r" using hd by (simp add: taken_def)
  have due: "taken s i j < sent s j i" by (rule exch_invD(4) [OF inv j i hd])
  then have due': "sent s j i = Suc ?r \<or> sent s j i = Suc (Suc ?r)" using sent_ahead [OF inv j i] r by auto
  have psync: "psync s' = (psync s)(member i := (psync s (member i))(slot b n ?r j := 0))"
    by (simp add: s' take_instr_def ROCSHMEM_SYNC_VALUE_def)
  show "taken s' l k \<le> sent s' k l" if "k < n" "l < n" for k l
    using exch_invD(2) [OF inv that] due that by (auto simp: cnt)
  show "exch_flags s'"
    unfolding exch_flags_def
  proof (intro allI impI)
    fix k l q :: nat assume kl: "k < n" "l < n" "q < 2"
    have "b + q * n + k = slot b n q k" using kl(3) by (simp add: slot_def)
    then have same: "b + q * n + k = slot b n ?r j \<longleftrightarrow> k = j \<and> q = ?r mod 2"
      using slot_inj [OF kl(1) j, of b q ?r] kl(3) by (auto simp: slot_def)
    have "psync s' (member l) (b + q * n + k) = (if k = j \<and> l = i \<and> q = ?r mod 2 then 0 else psync s (member l) (b + q * n + k))"
      using same by (auto simp: psync)
    moreover have "turns q (taken s' l k) = turns q (taken s l k) + (if k = j \<and> l = i \<and> q = ?r mod 2 then 1 else 0)"
      using r turns_step(1) [of ?r] turns_step(3) [OF kl(3), of ?r] cnt(2) [OF kl(1), of l] by auto
    moreover have "turns (?r mod 2) (sent s j i) = turns (?r mod 2) (taken s i j) + 1"
      unfolding r using due' turns_step(1,2) [of ?r] by auto
    ultimately show "psync s' (member l) (b + q * n + k) = int (turns q (sent s' k l)) - int (turns q (taken s' l k))"
      using exch_invD(3) [OF inv kl] by (auto simp: cnt(1))
  qed
qed (simp_all add: take_instr_def)

lemma exch_step:
  assumes inv: "exch_inv s" and "dev_step pes T R code s s'"
  shows "exch_inv s'"
  using assms(2)
proof cases
  case (step_call p)
  then obtain i where "i < n" "p = member i" by (auto elim: pes_cases)
  then show ?thesis using exch_call [OF inv] step_call by blast
next
  case (step_sync p)
  then obtain i where "i < n" "p = member i" by (auto elim: pes_cases)
  then show ?thesis using exch_sync [OF inv] step_sync by blast
next
  case (step_exec p t x "is")
  obtain i where i: "i < n" "p = member i" using step_exec(2) by (auto elim: pes_cases)
  note mem = codes_cases(3) [OF exch_invD(1) [OF inv] step_exec(2-4)]
  show ?thesis
  proof (cases "data_only x")
    case True
    then show ?thesis using exch_data [OF inv i(1) step_exec(3)] step_exec i(2) by blast
  next
    case False
    then obtain j where j: "j < n" "t = owner j"
      "x = signal (calls s p - 1) i j \<or> x = Wait_eq (slot b n (calls s p - 1) j) 1 \<or> x = takes (calls s p - 1) j"
      using instrs [OF i(1) step_exec(3)] mem i(2) by blast
    then show ?thesis
      using exch_signal [OF inv i(1)] exch_take [OF inv i(1)] exch_wait [OF inv i(1) step_exec(3)] step_exec i(2) by auto
  qed
qed

lemma exch_init: "dev_init s \<Longrightarrow> exch_inv s"
  by (simp add: exch_inv_def exch_flags_def exch_heads_def codes_init dev_init_def sent_def taken_def ROCSHMEM_SYNC_VALUE_def)

end

sublocale signal_exchange \<subseteq> exchange: invariant_system dev_init "dev_step pes T R code" exch_inv
  by unfold_locales (auto intro: exch_init exch_step)

context signal_exchange
begin

lemma sync_count_code:
  assumes "i < n" "t < T"
  shows "sync_count (code (member i) r t) = 1"
proof -
  have "sync_count (concat (map (\<lambda>j. [Fence, signal r i j]) js)) = 0"
    "sync_count (concat (map (\<lambda>j. [Wait_eq (slot b n r j) 1, takes r j]) js)) = 0" for js
    by (induction js) (simp_all add: signal_instr_def take_instr_def)
  moreover have "sync_count (puts (member i) r t) = 0"
    using puts_data [OF member_in [OF assms(1)] assms(2)] by (intro sync_count_none) blast
  ultimately show ?thesis by (simp add: exchange_code_def)
qed

lemma aligned:
  assumes "reachable dev_init (dev_step pes T R code) s" "i < n"
  obtains c where "\<And>t. t < T \<Longrightarrow> sync_count (todo s (member i) t) = c"
proof -
  have "aligned_syncs pes T s"
  proof (rule reachable_aligned_syncs [OF assms(1)])
    show "\<exists>c. \<forall>t<T. sync_count (code p r t) = c" if "p \<in> pes" for p r
      using that sync_count_code by (elim pes_cases) (auto intro: exI [of _ 1])
  qed
  then show thesis using that assms(2) unfolding aligned_syncs_def by (meson member_in)
qed

lemma empty_idle:
  assumes reach: "reachable dev_init (dev_step pes T R code) s" and i: "i < n" and "t < T" "todo s (member i) t = []"
  shows "idle T s (member i)"
  unfolding idle_def
proof (intro allI impI)
  fix u assume u: "u < T"
  obtain c where "\<And>t. t < T \<Longrightarrow> sync_count (todo s (member i) t) = c" by (rule aligned [OF reach i]) blast
  then have "sync_count (todo s (member i) u) = 0" using assms(3,4) u by force
  moreover have "last (todo s (member i) u) = Syncthreads" if "todo s (member i) u \<noteq> []"
  proof -
    have "suffix (todo s (member i) u) (code (member i) (calls s (member i) - 1) u)"
      using that codes_cases(2) [OF exch_invD(1) [OF exchange.reachable_inv [OF reach]] member_in [OF i] u]
      by (cases "todo s (member i) u") auto
    moreover have "last (code (member i) (calls s (member i) - 1) u) = Syncthreads" by (simp add: exchange_code_def)
    ultimately show ?thesis using that by (metis last_appendR suffix_def)
  qed
  ultimately show "todo s (member i) u = []" using sync_count_last by fastforce
qed

lemma returned_taken:
  assumes "reachable dev_init (dev_step pes T R code) s" "i < n" "j < n" "r < returned T s (member j)"
  shows "r < taken s j i" "r < sent s i j" "r < calls s (member i)"
proof -
  show *: "r < taken s j i"
    using assms(4) owner_less [OF assms(2)] count_bounds(4) [of s j i]
    by (auto simp: returned_def idle_def taken_def split: if_splits)
  then show "r < sent s i j" using exch_invD(2) [OF exchange.reachable_inv [OF assms(1)] assms(2,3)] by simp
  then show "r < calls s (member i)" using count_bounds(1) [of s i j] by simp
qed

text \<open>When a PE returns, the puts of the threads that signalled it are made.\<close>

lemma puts_made:
  assumes codes: "code_suffixes pes T code s" and "i < n" "j < n" "calls s (member i) = 1" "0 < sent s i j"
  shows "Move p a q c \<notin> set (todo s (member i) (owner j))"
proof
  assume mem: "Move p a q c \<in> set (todo s (member i) (owner j))"
  let ?front = "puts (member i) 0 (owner j)"
  let ?sig = "concat (map (\<lambda>j. [Fence, signal 0 i j]) (peers (owner j)))"
  let ?rest = "?sig @ concat (map (\<lambda>j. [Wait_eq (slot b n 0 j) 1, takes 0 j]) (peers (owner j))) @ [Syncthreads]"
  have suf: "suffix (todo s (member i) (owner j)) (?front @ ?rest)"
    using codes_suffix [OF codes member_in [OF assms(2)] owner_less [OF assms(3)]] assms(4) by (simp add: exchange_code_def)
  have "Move p a q c \<notin> set ?rest" by (auto simp: signal_instr_def take_instr_def split: if_splits)
  then have "set ?rest \<subseteq> set (todo s (member i) (owner j))" by (rule suffix_order [OF suf mem])
  moreover have "j \<in> set (peers (owner j))" using peers_owner owner_less assms(3) by blast
  then have "signal 0 i j \<in> set ?rest" by auto
  ultimately have "signal 0 i j \<in> set (todo s (member i) (owner j))" by blast
  then show False using assms(4,5) by (simp add: sent_def)
qed

lemma exchange_delivers:
  assumes "R = 1" "independent (call_moves pes T code) h" "reachable (\<lambda>s. dev_init s \<and> heap s = h) (dev_step pes T R code) s"
    and "i < n" "j < n" "0 < returned T s (member j)" "Move p a q c \<in> set (code (member i) 0 (owner j))"
  shows "heap s q c = h p a"
proof -
  note reach = assms(3) [unfolded assms(1)]
  have codes: "code_suffixes pes T code s" and reach': "reachable dev_init (dev_step pes T R code) s"
    using reachable_data [OF assms(2) reach] assms(1) by auto
  have sent: "0 < sent s i j" "0 < calls s (member i)" using returned_taken [OF reach' assms(4-6)] by auto
  then have "calls s (member i) = 1" using calls_bounded [OF reach', of "member i"] assms(1) by simp
  then have "Move p a q c \<notin> set (todo s (member i) (owner j))" by (rule puts_made [OF codes assms(4,5) _ sent(1)])
  then show ?thesis
    by (rule data_made [OF assms(2) reach member_in [OF assms(4)] owner_less [OF assms(5)] assms(7) sent(2)])
qed

lemma flag_range:
  assumes "reachable dev_init (dev_step pes T R code) s" "i < n" "j < n" "q < 2"
  shows "psync s (member j) (b + q * n + i) \<in> {0, 1}"
proof -
  note inv = exchange.reachable_inv [OF assms(1)]
  define r where "r = taken s j i"
  have "sent s i j = r \<or> sent s i j = Suc r \<or> sent s i j = Suc (Suc r)"
    using exch_invD(2) [OF inv assms(2,3)] sent_ahead [OF inv assms(2,3)] by (auto simp: r_def)
  moreover have "psync s (member j) (b + q * n + i) = int (turns q (sent s i j)) - int (turns q r)"
    using exch_invD(3) [OF inv assms(2-4)] by (simp add: r_def)
  moreover have "turns q (Suc r) = turns q r \<or> turns q (Suc r) = Suc (turns q r)" by (auto simp: turns_def)
  moreover have "turns q (Suc (Suc r)) = Suc (turns q r)" using assms(4) by (auto simp: turns_def)
  ultimately show ?thesis by auto
qed

text \<open>No execution stops before all calls are made.\<close>

lemma signals_first:
  assumes codes: "code_suffixes pes T code s" and i: "i < n" and j: "j < n" and hd: "todo s (member i) (owner j) = x # is"
    and sig: "signal (calls s (member i) - 1) i j \<in> set (x # is)"
  shows "x \<noteq> Syncthreads \<and> (\<forall>k v. x \<noteq> Wait_eq k v)"
proof -
  let ?r = "calls s (member i) - 1"
  let ?front = "puts (member i) ?r (owner j) @ concat (map (\<lambda>j. [Fence, signal ?r i j]) (peers (owner j)))"
  let ?rest = "concat (map (\<lambda>j. [Wait_eq (slot b n ?r j) 1, takes ?r j]) (peers (owner j))) @ [Syncthreads]"
  note mem = codes_cases [OF codes member_in [OF i] owner_less [OF j] hd]
  have suf: "suffix (x # is) (?front @ ?rest)" using mem(2) by (simp add: exchange_code_def)
  have notin: "signal ?r i j \<notin> set ?rest" by (auto simp: signal_instr_def take_instr_def)
  have False if x: "x = Syncthreads \<or> (\<exists>k v. x = Wait_eq k v)"
  proof -
    have "x \<noteq> signal ?r i j" using x by (auto simp: signal_instr_def)
    then have sub: "set ?rest \<subseteq> set is" using sig suffix_order [OF suffix_ConsD [OF suf] _ notin] by auto
    show False
    proof (cases "x = Syncthreads")
      case True
      have "sync_count (x # is) \<le> 1"
        using sync_count_suffix [OF mem(2)] sync_count_code [OF i owner_less [OF j]] by simp
      moreover have "0 < sync_count is" using sub True by (auto simp: sync_count_def filter_empty_conv)
      ultimately show False using True by simp
    next
      case False
      then obtain l where "l < n" "owner l = owner j" "x = Wait_eq (slot b n ?r l) 1"
        using x instrs [OF i owner_less [OF j] mem(3)] by force
      moreover have "l \<in> set (peers (owner j))" using calculation(1,2) peers_owner [OF owner_less [OF j]] by simp
      ultimately have "x \<in> set is" using sub by auto
      then show False using fresh [OF codes i owner_less [OF j] hd] False x by auto
    qed
  qed
  then show ?thesis by blast
qed

definition blocked :: "dev_state \<Rightarrow> nat \<Rightarrow> nat \<Rightarrow> bool" where
  "blocked s i j \<longleftrightarrow> (\<exists>is. todo s (member i) (owner j) = Wait_eq (slot b n (calls s (member i) - 1) j) 1 # is) \<and>
     psync s (member i) (slot b n (calls s (member i) - 1) j) \<noteq> 1"

lemma disabled_head:
  assumes "code_suffixes pes T code s" "i < n" "t < T" "todo s (member i) t = x # is" "\<not> enabled s (member i) x"
  shows "x = Syncthreads \<or> (\<exists>j<n. t = owner j \<and> blocked s i j)"
proof (cases "data_only x")
  case True
  then show ?thesis using assms(5) by (cases x) auto
next
  case False
  then obtain j where j: "j < n" "t = owner j" "x = signal (calls s (member i) - 1) i j \<or>
      x = Wait_eq (slot b n (calls s (member i) - 1) j) 1 \<or> x = takes (calls s (member i) - 1) j"
    using instrs [OF assms(2,3) codes_cases(3) [OF assms(1) member_in [OF assms(2)] assms(3,4)]] by blast
  then have "x = Wait_eq (slot b n (calls s (member i) - 1) j) 1"
    using assms(5) by (auto simp: signal_instr_def take_instr_def)
  then show ?thesis using j(1,2) assms(4,5) by (auto simp: blocked_def)
qed

lemma stuck_member:
  assumes reach: "reachable dev_init (dev_step pes T R code) s" and stuck: "\<nexists>s'. dev_step pes T R code s s'" and i: "i < n"
  shows "idle T s (member i) \<and> calls s (member i) = R \<or> (\<exists>j<n. blocked s i j)"
proof (cases "idle T s (member i)")
  case True
  then have "\<not> calls s (member i) < R" using stuck dev_step.step_call [OF member_in [OF i]] unfolding idle_def by blast
  then show ?thesis using True calls_bounded [OF reach, of "member i"] by simp
next
  case False
  have head: "\<exists>x is. todo s (member i) t = x # is \<and> \<not> enabled s (member i) x" if "t < T" for t
    using empty_idle [OF reach i that] False stuck dev_step.step_exec [OF member_in [OF i] that] by (cases "todo s (member i) t") blast+
  obtain t where t: "t < T" "\<not> (\<exists>is. todo s (member i) t = Syncthreads # is)"
    using stuck dev_step.step_sync [OF member_in [OF i]] by blast
  then show ?thesis
    using head [OF t(1)] disabled_head [OF exch_invD(1) [OF exchange.reachable_inv [OF reach]] i t(1)] by blast
qed

lemma blocked_behind:
  assumes reach: "reachable dev_init (dev_step pes T R code) s" and stuck: "\<nexists>s'. dev_step pes T R code s s'"
    and ij: "i < n" "j < n" and blocked: "blocked s i j"
  shows "calls s (member j) < calls s (member i)"
proof -
  note inv = exchange.reachable_inv [OF reach] and ot = owner_less
  note codes = exch_invD(1) [OF inv]
  let ?r = "calls s (member i) - 1"
  obtain "is" where hd: "todo s (member i) (owner j) = Wait_eq (slot b n ?r j) 1 # is" using blocked by (auto simp: blocked_def)
  note mem = codes_cases [OF codes member_in [OF ij(1)] ot [OF ij(2)] hd]
  have "paired (Wait_eq (slot b n ?r j) 1 # is)"
    using paired_suffix [OF mem(2)] guarded_code [OF ij(1) ot [OF ij(2)]] by (simp add: guarded_def)
  then have "takes ?r j \<in> set is" by (cases "is") (auto simp: take_instr_def)
  then have taken: "taken s i j = ?r" using hd by (simp add: taken_def)
  then have sent: "sent s j i = ?r"
    using flag_due [OF inv ij(2,1) taken] blocked exch_invD(2) [OF inv ij(2,1)] by (simp add: blocked_def)
  have "calls s (member j) \<noteq> Suc ?r"
  proof
    assume eq: "calls s (member j) = Suc ?r"
    then have sig: "signal (calls s (member j) - 1) j i \<in> set (todo s (member j) (owner i))"
      using sent by (auto simp: sent_def split: if_splits)
    then obtain x js where x: "todo s (member j) (owner i) = x # js" by (cases "todo s (member j) (owner i)") auto
    have "x \<noteq> Syncthreads \<and> (\<forall>k v. x \<noteq> Wait_eq k v)" using signals_first [OF codes ij(2,1) x] sig x by simp
    then have "\<not> (\<exists>l<n. owner i = owner l \<and> blocked s j l)" using x by (metis blocked_def list.inject)
    then have "enabled s (member j) x"
      using disabled_head [OF codes ij(2) ot [OF ij(1)] x] \<open>x \<noteq> Syncthreads \<and> _\<close> by blast
    then show False using stuck dev_step.step_exec [OF member_in [OF ij(2)] ot [OF ij(1)] x] by blast
  qed
  then show ?thesis using count_bounds(2) [of s j i] sent mem(1) by simp
qed

lemma exchange_not_stuck:
  assumes reach: "reachable dev_init (dev_step pes T R code) s" and "\<not> all_returned pes T R s"
  shows "\<exists>s'. dev_step pes T R code s s'"
proof (rule ccontr)
  assume stuck: "\<nexists>s'. dev_step pes T R code s s'"
  have "\<not> blocked s i j" if "i < n" "j < n" for i j
    using that
  proof (induction "calls s (member i)" arbitrary: i j rule: less_induct)
    case less
    show ?case
    proof
      assume "blocked s i j"
      then have lt: "calls s (member j) < calls s (member i)" by (rule blocked_behind [OF reach stuck less.prems])
      then have "calls s (member j) \<noteq> R" using calls_bounded [OF reach, of "member i"] by simp
      then show False using stuck_member [OF reach stuck less.prems(2)] less.hyps [OF lt less.prems(2)] by blast
    qed
  qed
  then have "idle T s (member i) \<and> calls s (member i) = R" if "i < n" for i using stuck_member [OF reach stuck that] that by blast
  then show False using assms(2) by (auto simp: all_returned_def elim: pes_cases)
qed

lemma exchange_run_end:
  assumes "reachable dev_init (dev_step pes T R code) s"
  shows "\<exists>s'. (dev_step pes T R code)\<^sup>*\<^sup>* s s' \<and> all_returned pes T R s'"
proof (rule run_to_end [OF _ T assms])
  show "finite pes" by (simp add: team_pes_def)
  show "\<exists>s'. dev_step pes T R code s s'" if "reachable dev_init (dev_step pes T R code) s" "\<not> all_returned pes T R s" for s
    by (rule exchange_not_stuck [OF that])
qed

end

section \<open>The shares of the threads\<close>

lemma step_size_pos: "0 < T \<Longrightarrow> 0 < step_size T"
  by (simp add: step_size_def WF_SIZE_def)

lemma strided_share:
  assumes "0 < T" "T \<le> 64 \<or> n \<le> 64" "t < T"
  shows "j \<in> set (strided t n (step_size T)) \<longleftrightarrow> j < n \<and> t = j mod step_size T"
proof (cases "T < 64")
  case True
  then show ?thesis using assms(3) strided_owner [of t T j n] by (cases "j < n") (auto simp: step_size_def WF_SIZE_def set_strided)
next
  case False
  then show ?thesis using assms by (auto simp: step_size_def WF_SIZE_def set_strided)
qed

text \<open>The puts of one thread, when the block offsets fit an \<open>int\<close>.\<close>

definition thread_moves :: "nat \<Rightarrow> nat \<Rightarrow> nat \<Rightarrow> nat \<Rightarrow> int \<Rightarrow> int \<Rightarrow> nat \<Rightarrow> nat \<Rightarrow> nat \<Rightarrow> nat \<Rightarrow> dev_instr list" where
  "thread_moves start stride n T dst src nelems p r t =
     concat (map (\<lambda>j. map (\<lambda>(a, b). Move p a (team_pe start stride j) b)
       (byte_moves (src + int j * int nelems) (dst + int ((p - start) div stride) * int nelems) nelems)) (strided t n (step_size T)))"

lemma thread_puts_code:
  assumes "coll_team start stride n team" "\<forall>p. alltoall_pSync (team p) = b" "0 < stride" "0 < T" "int n * int nelems \<le> int_max"
    and "p \<in> team_pes start stride n"
  shows "alltoallmem_wg_linear_thread_puts p (team p) r T t dst src nelems =
    exchange_code start stride n b (thread_moves start stride n T dst src nelems) (\<lambda>t. strided t n (step_size T)) p r t"
proof -
  let ?js = "strided t n (step_size T)"
  have js: "j < n" if "j \<in> set ?js" for j using that step_size_pos [OF assms(4)] by (simp add: set_strided)
  have my: "team_my_pe (team p) = (p - start) div stride" "(p - start) div stride < n"
    using assms(1,3,6) by (auto simp: coll_team_def team_pes_def team_rank)
  have "concat (map (\<lambda>j. at_block (team_my_pe (team p)) nelems (\<lambda>d. at_block j nelems (\<lambda>s.
        putmem_nbi p (dst + d) (src + s) nelems (pe_in_world (team p) j)))) ?js)
      = thread_moves start stride n T dst src nelems p r t"
    unfolding thread_moves_def
  proof (intro arg_cong [of _ _ concat] map_cong refl)
    fix j assume "j \<in> set ?js"
    then show "at_block (team_my_pe (team p)) nelems (\<lambda>d. at_block j nelems (\<lambda>s.
        putmem_nbi p (dst + d) (src + s) nelems (pe_in_world (team p) j)))
      = map (\<lambda>(a, b). Move p a (team_pe start stride j) b)
          (byte_moves (src + int j * int nelems) (dst + int ((p - start) div stride) * int nelems) nelems)"
      using js my block_small(1) [OF _ assms(5)] coll_team_world [OF assms(1)]
      by (simp add: at_block_ok putmem_nbi_def memcpy_lane_eq)
  qed
  then show ?thesis
    using assms(1,2) my coll_team_world [OF assms(1)]
    by (simp add: alltoallmem_wg_linear_thread_puts_def exchange_code_def coll_team_def Let_def
        signal_instr_def take_instr_def slot_def)
qed

lemma thread_puts_exchange:
  assumes "0 < stride" "0 < n" "0 < T" "T \<le> 64 \<or> n \<le> 64"
  shows "signal_exchange start stride n T (thread_moves start stride n T dst src nelems)
    (\<lambda>t. strided t n (step_size T)) (\<lambda>j. j mod step_size T)"
proof unfold_locales
  show "data_only i \<and> i \<noteq> Syncthreads" if "i \<in> set (thread_moves start stride n T dst src nelems p r t)" for p t i r
    using that by (auto simp: thread_moves_def)
  show "j \<in> set (strided t n (step_size T)) \<longleftrightarrow> j < n \<and> t = j mod step_size T" if "t < T" for t j
    by (rule strided_share [OF assms(3,4) that])
  have "step_size T \<le> T" by (simp add: step_size_def)
  then show "j mod step_size T < T" for j using mod_less_divisor [OF step_size_pos [OF assms(3)], of j] by linarith
qed (use assms(1-3) distinct_strided in auto)

interpretation one_wave: signal_exchange start "Suc d" "Suc l" b "min (Suc u) 64" R
    "thread_moves start (Suc d) (Suc l) (min (Suc u) 64) dst src nelems"
    "\<lambda>t. strided t (Suc l) (step_size (min (Suc u) 64))" "\<lambda>j. j mod step_size (min (Suc u) 64)"
  for start d l b u R dst src nelems
  by (rule thread_puts_exchange) auto

section \<open>Properties\<close>

lemma thread_puts_step:
  assumes "coll_team start stride n team" "\<forall>p. alltoall_pSync (team p) = b" "0 < stride" "0 < T" "int n * int nelems \<le> int_max"
  shows "dev_step (team_pes start stride n) T R (\<lambda>p r t. alltoallmem_wg_linear_thread_puts p (team p) r T t dst src nelems)
    = dev_step (team_pes start stride n) T R (exchange_code start stride n b
        (thread_moves start stride n T dst src nelems) (\<lambda>t. strided t n (step_size T)))"
  by (rule dev_step_cong) (rule thread_puts_code [OF assms])

text \<open>C9. All-to-all of small blocks over any number of calls. With blocks of threads of at most a wavefront, or
  at most 64 PEs, the exchange of signals is safe and complete in every interleaving although nothing but the two
  alternating halves of the flag array separates the calls: a PE returns from call \<open>r\<close> only after every PE of the team has begun
  its call \<open>r\<close>, every flag is 0 or 1 at all times, and an execution stops only when every PE has returned from all
  its calls, which it does after at most \<open>work\<close> steps.\<close>

theorem alltoall_small_completes:
  assumes "coll_team start stride n team" "\<forall>p. alltoall_pSync (team p) = b" "0 < stride" "0 < n" "0 < T" "T \<le> 64 \<or> n \<le> 64"
    and "int n * int nelems \<le> int_max"
    and "reachable dev_init (dev_step (team_pes start stride n) T R
      (\<lambda>p r t. alltoallmem_wg_linear_thread_puts p (team p) r T t dst src nelems)) s"
  shows "(\<forall>i<n. \<forall>j<n. \<forall>r<returned T s (team_pe start stride j). r < calls s (team_pe start stride i)) \<and>
    (\<forall>i<n. \<forall>k<2 * n. psync s (team_pe start stride i) (b + k) \<in> {0, 1}) \<and>
    ((\<nexists>s'. dev_step (team_pes start stride n) T R (\<lambda>p r t. alltoallmem_wg_linear_thread_puts p (team p) r T t dst src nelems) s s')
      \<longleftrightarrow> all_returned (team_pes start stride n) T R s) \<and>
    (\<forall>k s'. (dev_step (team_pes start stride n) T R (\<lambda>p r t. alltoallmem_wg_linear_thread_puts p (team p) r T t dst src nelems) ^^ k) s s'
      \<longrightarrow> k \<le> work (team_pes start stride n) T R (\<lambda>p r t. alltoallmem_wg_linear_thread_puts p (team p) r T t dst src nelems) s)"
proof -
  note step = thread_puts_step [OF assms(1-3,5,7)]
  note exch = thread_puts_exchange [OF assms(3-6)]
  note reach = assms(8) [unfolded step]
  have fin: "finite (team_pes start stride n)" by (simp add: team_pes_def)
  have "psync s (team_pe start stride i) (b + k) \<in> {0, 1}" if "i < n" "k < 2 * n" for i k
  proof -
    have "k div n < 2" "k mod n < n" using that assms(4) by (simp_all add: div_less_iff_less_mult mult.commute)
    moreover have "b + k = b + (k div n) * n + k mod n" by simp
    ultimately show ?thesis
      using signal_exchange.flag_range [OF exch reach, of "k mod n" i "k div n"] that by (simp add: add.commute)
  qed
  moreover have "(\<nexists>s'. dev_step (team_pes start stride n) T R (\<lambda>p r t. alltoallmem_wg_linear_thread_puts p (team p) r T t dst src nelems) s s')
      \<longleftrightarrow> all_returned (team_pes start stride n) T R s"
    unfolding step using signal_exchange.exchange_not_stuck [OF exch reach] all_returned_end [OF _ assms(5)] by blast
  ultimately show ?thesis
    using signal_exchange.returned_taken(3) [OF exch reach] work_steps [OF fin assms(5)] add_leD1 by blast
qed

theorem alltoall_small_completes_witness:
  "\<exists>s'. dev_step (team_pes 2 3 4) 256 7
    (\<lambda>p r t. alltoallmem_wg_linear_thread_puts p (demo_team p) r 256 t 8192 0 100) dev_start s'"
proof -
  have psync: "\<forall>p. alltoall_pSync (demo_team p) = 48" by (simp add: demo_team_def)
  have "11 \<in> team_pes 2 3 4" by (rule demo_pe)
  then have "\<not> all_returned (team_pes 2 3 4) 256 7 dev_start" by (auto simp: all_returned_def dev_start_def)
  then show ?thesis
    using alltoall_small_completes [OF demo_coll_team psync _ _ _ _ _ dev_start_reachable, of 256 100 7 8192 0]
    by (simp add: int_max_def)
qed

lemma thread_moves_independent:
  assumes "0 < stride" "0 < T" "disjoint_buffers dst (int n * int nelems) src (int n * int nelems)"
  shows "independent (call_moves (team_pes start stride n) T (exchange_code start stride n b
    (thread_moves start stride n T dst src nelems) (\<lambda>t. strided t n (step_size T)))) h"
proof -
  let ?P = "team_pes start stride n" and ?pe = "team_pe start stride"
  let ?prog = "exchange_code start stride n b (thread_moves start stride n T dst src nelems) (\<lambda>t. strided t n (step_size T))"
  have js: "set (strided t n (step_size T)) \<subseteq> {..<n}" for t using step_size_pos [OF assms(2)] by (auto simp: set_strided)
  have moves: "\<exists>i j k. i < n \<and> j < n \<and> k < nelems \<and> p = ?pe i \<and> q = ?pe j \<and> a = src + int j * int nelems + int k \<and>
      c = dst + int i * int nelems + int k" if "Move p a q c \<in> call_moves ?P T ?prog" for p a q c
    using that js by (fastforce simp: call_moves_def exchange_code_def thread_moves_def byte_moves_def signal_instr_def
      take_instr_def team_pes_def team_rank [OF assms(1)] split: if_splits)
  have sep: "separate {(?pe i, ?pe j, dst + int i * int nelems, src + int j * int nelems) | i j. i < n \<and> j < n} nelems h"
    by (rule separate_blocks [OF assms(3)]) (use assms(1) in \<open>auto simp: team_pe_def\<close>)
  show ?thesis
    unfolding independent_def
  proof (intro allI impI)
    fix p a q c p' a' q' c' assume "Move p a q c \<in> call_moves ?P T ?prog" "Move p' a' q' c' \<in> call_moves ?P T ?prog"
    then obtain i j k i' j' k' where ij: "i < n" "j < n" "k < nelems" "i' < n" "j' < n" "k' < nelems"
      and eq: "p = ?pe i" "q = ?pe j" "a = src + int j * int nelems + int k" "c = dst + int i * int nelems + int k"
        "p' = ?pe i'" "q' = ?pe j'" "a' = src + int j' * int nelems + int k'" "c' = dst + int i' * int nelems + int k'"
      using moves [of p a q c] moves [of p' a' q' c'] by blast
    have "(?pe i, ?pe j, dst + int i * int nelems, src + int j * int nelems) \<in>
        {(?pe i, ?pe j, dst + int i * int nelems, src + int j * int nelems) | i j. i < n \<and> j < n}"
      "(?pe i', ?pe j', dst + int i' * int nelems, src + int j' * int nelems) \<in>
        {(?pe i, ?pe j, dst + int i * int nelems, src + int j * int nelems) | i j. i < n \<and> j < n}" using ij by blast+
    from separateD [OF sep this ij(3,6)] show "(p, a) \<noteq> (q', c') \<and> ((q, c) = (q', c') \<longrightarrow> h p a = h p' a')"
      unfolding eq by blast
  qed
qed

text \<open>All-to-all of small blocks delivers. Under the same condition on the sizes, when the PE of rank \<open>j\<close> returns from the call,
  block \<open>i\<close> of its destination is block \<open>j\<close> of the source that the PE of rank \<open>i\<close> had at the call, for every \<open>i\<close>.\<close>

theorem alltoall_small_delivers:
  assumes "coll_team start stride n team" "\<forall>p. alltoall_pSync (team p) = b" "0 < stride" "0 < T" "T \<le> 64 \<or> n \<le> 64"
    and "int n * int nelems \<le> int_max" "disjoint_buffers dst (int n * int nelems) src (int n * int nelems)"
    and "reachable (\<lambda>s. dev_init s \<and> heap s = h) (dev_step (team_pes start stride n) T 1
      (\<lambda>p r t. alltoallmem_wg_linear_thread_puts p (team p) r T t dst src nelems)) s"
    and "i < n" "j < n" "0 < returned T s (team_pe start stride j)" "k < nelems"
  shows "heap s (team_pe start stride j) (dst + int i * int nelems + int k)
    = h (team_pe start stride i) (src + int j * int nelems + int k)"
proof -
  let ?P = "team_pes start stride n" and ?pe = "team_pe start stride"
  let ?prog = "exchange_code start stride n b (thread_moves start stride n T dst src nelems) (\<lambda>t. strided t n (step_size T))"
  have n: "0 < n" using assms(9) by simp
  note exch = thread_puts_exchange [OF assms(3) n assms(4,5)]
  note reach = assms(8) [unfolded thread_puts_step [OF assms(1-4,6)]]
  have ind: "independent (call_moves ?P T ?prog) h" by (rule thread_moves_independent [OF assms(3,4,7)])
  have "j \<in> set (strided (j mod step_size T) n (step_size T))"
    using strided_owner [of "j mod step_size T" "step_size T" j n] step_size_pos [OF assms(4)] assms(10) by simp
  then have "Move (?pe i) (src + int j * int nelems + int k) (?pe j) (dst + int i * int nelems + int k)
      \<in> set (?prog (?pe i) 0 (j mod step_size T))"
    using assms(12) by (auto simp: exchange_code_def thread_moves_def byte_moves_def team_rank [OF assms(3)] intro!: bexI [of _ j])
  then show ?thesis
    by (rule signal_exchange.exchange_delivers [OF exch refl ind reach assms(9-11)])
qed

theorem alltoall_small_delivers_witness:
  "\<exists>s. reachable (\<lambda>s. dev_init s \<and> heap s = demo_heap) (dev_step (team_pes 2 3 4) 64 1
      (\<lambda>p r t. alltoallmem_wg_linear_thread_puts p (demo_team p) r 64 t 8192 0 100)) s \<and>
    0 < returned 64 s 11 \<and> heap s 11 8391 = 5"
proof -
  let ?step = "dev_step (team_pes 2 3 4) 64 1 (\<lambda>p r t. alltoallmem_wg_linear_thread_puts p (demo_team p) r 64 t 8192 0 100)"
  let ?init = "dev_start\<lparr>heap := demo_heap\<rparr>"
  have psync: "\<forall>p. alltoall_pSync (demo_team p) = 48" by (simp add: demo_team_def)
  have small: "int 4 * int 100 \<le> int_max" by (simp add: int_max_def)
  have dis: "disjoint_buffers 8192 (int 4 * int 100) 0 (int 4 * int 100)" by (simp add: disjoint_buffers_def)
  have init: "dev_init ?init \<and> heap ?init = demo_heap" by (simp add: dev_init_def dev_start_def)
  have exch: "signal_exchange 2 3 4 64 (thread_moves 2 3 4 64 8192 0 100) (\<lambda>t. strided t 4 (step_size 64)) (\<lambda>j. j mod step_size 64)"
    by (rule thread_puts_exchange) simp_all
  have step: "?step = dev_step (team_pes 2 3 4) 64 1 (exchange_code 2 3 4 48 (thread_moves 2 3 4 64 8192 0 100) (\<lambda>t. strided t 4 (step_size 64)))"
    using thread_puts_step [OF demo_coll_team psync _ _ small, of 64 1 8192 0] by simp
  have "reachable dev_init ?step ?init" by (rule reach_init) (use init in blast)
  then obtain s where s: "?step\<^sup>*\<^sup>* ?init s" "all_returned (team_pes 2 3 4) 64 1 s"
    using signal_exchange.exchange_run_end [OF exch, of 1 48] unfolding step by blast
  have "reachable (\<lambda>s. dev_init s \<and> heap s = demo_heap) ?step ?init" by (rule reach_init) (rule init)
  with s(1) have reach: "reachable (\<lambda>s. dev_init s \<and> heap s = demo_heap) ?step s" by (rule reachable_run)
  note ret = demo_returned [OF s(2)]
  have "heap s 11 8391 = 5"
    using alltoall_small_delivers [OF demo_coll_team psync _ _ _ small dis reach, of 1 3 99] ret
    by (simp add: team_pe_def demo_heap_def)
  then show ?thesis using reach ret by blast
qed

text \<open>C23. Every peer is served by exactly one thread of the block if and only if the block has at most 64 threads or the team
  at most 64 PEs. The loop of a thread starts at its id in the block and steps by at most 64, so in a larger block the threads
  from 64 on repeat the peers of the first wavefront: the flag of PE 64 is then added to
  twice, while its owner waits for it to be exactly 1.\<close>

theorem alltoall_served_once:
  assumes "coll_team start stride n team" "\<forall>p. alltoall_pSync (team p) = b" "0 < stride" "0 < T" "int n * int nelems \<le> int_max"
    and "i < n"
  shows "(\<forall>j<n. card {t. t < T \<and> Add_sync (slot b n r i) 1 (team_pe start stride j)
        \<in> set (alltoallmem_wg_linear_thread_puts (team_pe start stride i) (team (team_pe start stride i)) r T t dst src nelems)} = 1)
    \<longleftrightarrow> T \<le> 64 \<or> n \<le> 64"
proof -
  have "team_pe start stride i \<in> team_pes start stride n" using assms(6) by (simp add: team_pes_def)
  then have "Add_sync (slot b n r i) 1 (team_pe start stride j)
      \<in> set (alltoallmem_wg_linear_thread_puts (team_pe start stride i) (team (team_pe start stride i)) r T t dst src nelems)
    \<longleftrightarrow> j \<in> set (strided t n (step_size T))" for j t
    using assms(3) by (auto simp: thread_puts_code [OF assms(1-5)] exchange_code_def thread_moves_def signal_instr_def
      take_instr_def team_rank team_pe_def split: if_splits)
  then have eq: "(\<forall>j<n. card {t. t < T \<and> Add_sync (slot b n r i) 1 (team_pe start stride j)
        \<in> set (alltoallmem_wg_linear_thread_puts (team_pe start stride i) (team (team_pe start stride i)) r T t dst src nelems)} = 1)
      \<longleftrightarrow> (\<forall>j<n. card {t. t < T \<and> j \<in> set (strided t n (step_size T))} = 1)" by simp
  have "card {t. t < T \<and> j \<in> set (strided t n (step_size T))} = 1" if "j < n" "T \<le> 64 \<or> n \<le> 64" for j
  proof -
    have "step_size T \<le> T" by (simp add: step_size_def)
    then have "j mod step_size T < T" using mod_less_divisor [OF step_size_pos [OF assms(4)], of j] by linarith
    then have "{t. t < T \<and> j \<in> set (strided t n (step_size T))} = {j mod step_size T}"
      using strided_share [OF assms(4) that(2)] that(1) by auto
    then show ?thesis by simp
  qed
  moreover have "card {t. t < T \<and> 64 \<in> set (strided t n (step_size T))} \<noteq> 1" if "64 < T" "64 < n"
  proof -
    have "{0, 64} \<subseteq> {t. t < T \<and> 64 \<in> set (strided t n (step_size T))}"
      using that by (auto simp: step_size_def WF_SIZE_def set_strided)
    then have "card {0, 64 :: nat} \<le> card {t. t < T \<and> 64 \<in> set (strided t n (step_size T))}" by (intro card_mono) auto
    then show ?thesis by simp
  qed
  ultimately show ?thesis unfolding eq by (metis not_le)
qed

text \<open>A world of 65 PEs, with blocks of 64 and of 65 threads.\<close>

definition world_team :: "nat \<Rightarrow> ipc_team" where
  "world_team p = \<lparr>my_pe_in_world = p, team_my_pe = p, team_num_pes = 65, team_pe_start = 0, team_stride = 1,
     barrier_pSync = 0, bcast_pSync = 100, alltoall_pSync = 200\<rparr>"

theorem alltoall_served_once_witness:
  "{..<65} \<subseteq> {j. card {t. t < 64 \<and> Add_sync (slot 200 65 0 3) 1 (team_pe 0 1 j)
        \<in> set (alltoallmem_wg_linear_thread_puts (team_pe 0 1 3) (world_team (team_pe 0 1 3)) 0 64 t 4096 0 8)} = 1} \<and>
   \<not> {..<65} \<subseteq> {j. card {t. t < 65 \<and> Add_sync (slot 200 65 0 3) 1 (team_pe 0 1 j)
        \<in> set (alltoallmem_wg_linear_thread_puts (team_pe 0 1 3) (world_team (team_pe 0 1 3)) 0 65 t 4096 0 8)} = 1}"
proof -
  have team: "coll_team 0 1 65 world_team" "\<forall>p. alltoall_pSync (world_team p) = 200"
    by (simp_all add: coll_team_def world_team_def)
  have small: "int 65 * int 8 \<le> int_max" by (simp add: int_max_def)
  have sub: "{..<m} \<subseteq> {j. P j} \<longleftrightarrow> (\<forall>j<m. P j)" for m :: nat and P by auto
  show ?thesis unfolding sub
    using alltoall_served_once [OF team _ _ small, of 64 3 0 4096 0] alltoall_served_once [OF team _ _ small, of 65 3 0 4096 0] by simp
qed

end
