(* ===== verification/Ipc_Ring.thy ===== *)
theory Ipc_Ring
  imports Ipc_Alltoall
begin

text \<open>
  The ring all-reduce of the IPC backend (\<open>internal_ring_allreduce_wg\<close> in
  \<open>src/ipc/context_ipc_tmpl_device.hpp\<close>). The model is a machine in which every PE of the
  team runs through the iterations of the two loops, all segments in a row, and in which the
  three parts of an iteration are separate steps: the put of a chunk to the next PE, the put of
  the flag, and the wait followed by the reduction of the chunk that has arrived. A value stands for a
  chunk of the buffer, and the operation \<open>f\<close> for \<open>OpWrap::Calc\<close> on all elements of a chunk. The
  theorems hold for every interleaving: no PE runs so far ahead that it overwrites a work
  buffer, a destination chunk or a flag that its successor still needs, every PE ends
  with the same reduction of the initial chunks of all PEs, and every execution ends.
\<close>

section \<open>The machine\<close>

definition off_send :: "nat \<Rightarrow> nat \<Rightarrow> nat \<Rightarrow> nat" where
  "off_send PE_size my_pe iter = (my_pe + 1 + 2 * PE_size - iter) mod PE_size"

definition off_recv :: "nat \<Rightarrow> nat \<Rightarrow> nat \<Rightarrow> nat" where
  "off_recv PE_size my_pe iter = (my_pe + 2 * PE_size - iter) mod PE_size"

definition wait_val :: "nat \<Rightarrow> nat \<Rightarrow> nat \<Rightarrow> int" where
  "wait_val PE_size seg iter = (if iter < PE_size - 1 then int seg + 100 else int seg + 10)"

datatype ring_stage = Copying | Sending | Signalling | Waiting | Finished

text \<open>
  \<open>rdst s p g\<close> is chunk \<open>g\<close> of the destination of the PE of rank \<open>p\<close>, where \<open>g = seg * n + c\<close> for chunk \<open>c\<close> of segment
  \<open>seg\<close>; \<open>rwrk\<close> its work buffer, one segment long. \<open>rpos s p\<close> counts the iterations that \<open>p\<close> has completed.
\<close>

record 'a ring_state =
  rdst :: "nat \<Rightarrow> nat \<Rightarrow> 'a"
  rwrk :: "nat \<Rightarrow> nat \<Rightarrow> 'a"
  rsync :: "nat \<Rightarrow> nat \<Rightarrow> int"
  rpos :: "nat \<Rightarrow> nat"
  rstage :: "nat \<Rightarrow> ring_stage"

definition seg_of :: "nat \<Rightarrow> 'a ring_state \<Rightarrow> nat \<Rightarrow> nat" where
  "seg_of n s p = rpos s p div (2 * n - 2)"

definition iter_of :: "nat \<Rightarrow> 'a ring_state \<Rightarrow> nat \<Rightarrow> nat" where
  "iter_of n s p = rpos s p mod (2 * n - 2)"

definition ring_send :: "nat \<Rightarrow> nat \<Rightarrow> 'a ring_state \<Rightarrow> 'a ring_state" where
  "ring_send n p s =
     (let send_pe = (p + 1) mod n; off = off_send n p (iter_of n s p); chunk = rdst s p (seg_of n s p * n + off);
          s' = (if iter_of n s p < n - 1
                then s\<lparr>rwrk := (rwrk s)(send_pe := (rwrk s send_pe)(off := chunk))\<rparr>
                else s\<lparr>rdst := (rdst s)(send_pe := (rdst s send_pe)(seg_of n s p * n + off := chunk))\<rparr>)
      in s'\<lparr>rstage := (rstage s)(p := Signalling)\<rparr>)"

definition ring_signal :: "nat \<Rightarrow> nat \<Rightarrow> 'a ring_state \<Rightarrow> 'a ring_state" where
  "ring_signal n p s =
     (let send_pe = (p + 1) mod n in
      s\<lparr>rsync := (rsync s)(send_pe := (rsync s send_pe)(iter_of n s p := wait_val n (seg_of n s p) (iter_of n s p))),
        rstage := (rstage s)(p := Waiting)\<rparr>)"

definition ring_receive :: "('a \<Rightarrow> 'a \<Rightarrow> 'a) \<Rightarrow> nat \<Rightarrow> nat \<Rightarrow> 'a ring_state \<Rightarrow> 'a ring_state" where
  "ring_receive f n p s =
     (let off = off_recv n p (iter_of n s p); g = seg_of n s p * n + off;
          s' = (if iter_of n s p < n - 1
                then s\<lparr>rdst := (rdst s)(p := (rdst s p)(g := f (rdst s p g) (rwrk s p off)))\<rparr> else s)
      in s'\<lparr>rpos := (rpos s)(p := Suc (rpos s p)), rstage := (rstage s)(p := Sending)\<rparr>)"

text \<open>The loops that the block runs before and after: the copy of the source, and the reset of the flags.\<close>

definition ring_copy :: "(nat \<Rightarrow> nat \<Rightarrow> 'a) \<Rightarrow> nat \<Rightarrow> 'a ring_state \<Rightarrow> 'a ring_state" where
  "ring_copy x p s = s\<lparr>rdst := (rdst s)(p := x p), rstage := (rstage s)(p := Sending)\<rparr>"

definition ring_reset :: "nat \<Rightarrow> nat \<Rightarrow> 'a ring_state \<Rightarrow> 'a ring_state" where
  "ring_reset n p s =
     s\<lparr>rsync := (rsync s)(p := (\<lambda>i. if i < 2 * n - 2 then ROCSHMEM_SYNC_VALUE else rsync s p i)),
       rstage := (rstage s)(p := Finished)\<rparr>"

inductive ring_step ::
  "('a \<Rightarrow> 'a \<Rightarrow> 'a) \<Rightarrow> nat \<Rightarrow> nat \<Rightarrow> (nat \<Rightarrow> nat \<Rightarrow> 'a) \<Rightarrow> 'a ring_state \<Rightarrow> 'a ring_state \<Rightarrow> bool" for f n n_seg x where
  step_copy: "p < n \<Longrightarrow> rstage s p = Copying \<Longrightarrow> ring_step f n n_seg x s (ring_copy x p s)"
| step_send: "p < n \<Longrightarrow> rpos s p < n_seg * (2 * n - 2) \<Longrightarrow> rstage s p = Sending \<Longrightarrow> ring_step f n n_seg x s (ring_send n p s)"
| step_signal: "p < n \<Longrightarrow> rstage s p = Signalling \<Longrightarrow> ring_step f n n_seg x s (ring_signal n p s)"
| step_receive: "p < n \<Longrightarrow> rstage s p = Waiting \<Longrightarrow> rsync s p (iter_of n s p) = wait_val n (seg_of n s p) (iter_of n s p) \<Longrightarrow>
    ring_step f n n_seg x s (ring_receive f n p s)"
| step_reset: "p < n \<Longrightarrow> rpos s p = n_seg * (2 * n - 2) \<Longrightarrow> rstage s p = Sending \<Longrightarrow> ring_step f n n_seg x s (ring_reset n p s)"

definition ring_init :: "nat \<Rightarrow> 'a ring_state \<Rightarrow> bool" where
  "ring_init n s \<longleftrightarrow> (\<forall>p<n. rpos s p = 0 \<and> rstage s p = Copying \<and> (\<forall>i<2 * n - 2. rsync s p i = ROCSHMEM_SYNC_VALUE))"

definition ring_done :: "nat \<Rightarrow> 'a ring_state \<Rightarrow> bool" where
  "ring_done n s \<longleftrightarrow> (\<forall>p<n. rstage s p = Finished)"

section \<open>Progress of the PEs\<close>

text \<open>How many chunks and how many flags a PE has put.\<close>

definition rsent :: "'a ring_state \<Rightarrow> nat \<Rightarrow> nat" where
  "rsent s p = rpos s p + (if rstage s p \<in> {Signalling, Waiting} then 1 else 0)"

definition rsig :: "'a ring_state \<Rightarrow> nat \<Rightarrow> nat" where
  "rsig s p = rpos s p + (if rstage s p = Waiting then 1 else 0)"

definition pos_inv :: "nat \<Rightarrow> nat \<Rightarrow> 'a ring_state \<Rightarrow> bool" where
  "pos_inv n n_seg s \<longleftrightarrow> (\<forall>p<n. rpos s p \<le> n_seg * (2 * n - 2) \<and>
     (rstage s p = Copying \<longrightarrow> rpos s p = 0) \<and> (rstage s p \<in> {Signalling, Waiting} \<longrightarrow> rpos s p < n_seg * (2 * n - 2)) \<and>
     (rstage s p = Finished \<longrightarrow> rpos s p = n_seg * (2 * n - 2)) \<and> rpos s ((p + 1) mod n) \<le> rsig s p)"

lemma rsig_bounds: "rpos s p \<le> rsig s p" "rsig s p \<le> rsent s p" "rsent s p \<le> rpos s p + 1"
  by (simp_all add: rsig_def rsent_def)

text \<open>A PE is bounded by the flags of any PE before it on the ring.\<close>

lemma ring_skew:
  assumes "pos_inv n n_seg s" "p < n"
  shows "rpos s ((p + Suc k) mod n) \<le> rsig s p + k"
proof (induction k)
  case 0
  then show ?case using assms by (simp add: pos_inv_def)
next
  case (Suc k)
  have "rpos s (((p + Suc k) mod n + 1) mod n) \<le> rsig s ((p + Suc k) mod n)"
    using assms by (simp add: pos_inv_def)
  also have "\<dots> \<le> rpos s ((p + Suc k) mod n) + 1" using rsig_bounds by (meson le_trans)
  finally show ?case using Suc by (simp add: mod_Suc_eq)
qed

definition rpred :: "nat \<Rightarrow> nat \<Rightarrow> nat" where
  "rpred n p = (p + n - 1) mod n"

lemma rpred_less: "0 < n \<Longrightarrow> rpred n p < n"
  by (simp add: rpred_def)

lemma rpred_succ: "p < n \<Longrightarrow> rpred n ((p + 1) mod n) = p"
proof -
  assume p: "p < n"
  have "((p + 1) mod n + n - 1) mod n = ((p + 1) mod n + (n - 1)) mod n" using p by simp
  also have "\<dots> = (p + 1 + (n - 1)) mod n" by (simp only: mod_add_left_eq)
  also have "\<dots> = p" using p by simp
  finally show ?thesis by (simp add: rpred_def)
qed

lemma succ_rpred: "p < n \<Longrightarrow> (rpred n p + 1) mod n = p"
proof -
  assume p: "p < n"
  have "((p + n - 1) mod n + 1) mod n = (p + n - 1 + 1) mod n" by (simp only: mod_add_left_eq)
  then show ?thesis using p by (simp add: rpred_def)
qed

lemma pred_bound:
  assumes "pos_inv n n_seg s" "p < n" "2 \<le> n"
  shows "rsent s (rpred n p) \<le> rsig s p + (n - 1)" "rpos s p \<le> rsig s (rpred n p)"
proof -
  have "(p + Suc (n - 2)) mod n = rpred n p" using assms(3) by (simp add: rpred_def Suc_diff_Suc numeral_2_eq_2)
  then have "rpos s (rpred n p) \<le> rsig s p + (n - 2)" using ring_skew [OF assms(1,2), of "n - 2"] by simp
  then show "rsent s (rpred n p) \<le> rsig s p + (n - 1)" using rsig_bounds(3) [of s "rpred n p"] assms(3) by simp
  have "rpred n p < n" using assms(3) by (simp add: rpred_less)
  then have "rpos s ((rpred n p + 1) mod n) \<le> rsig s (rpred n p)" using assms(1) by (simp add: pos_inv_def)
  then show "rpos s p \<le> rsig s (rpred n p)" unfolding succ_rpred [OF assms(2)] .
qed

section \<open>Chunks on their way round the ring\<close>

text \<open>Chunk \<open>c\<close> starts at the PE before rank \<open>c\<close> and is reduced by the ranks \<open>c\<close>, \<open>c + 1\<close>, \<dots> in turn.\<close>

primrec ring_partial :: "('a \<Rightarrow> 'a \<Rightarrow> 'a) \<Rightarrow> nat \<Rightarrow> (nat \<Rightarrow> 'a) \<Rightarrow> nat \<Rightarrow> nat \<Rightarrow> 'a" where
  "ring_partial f n x c 0 = x ((c + n - 1) mod n)"
| "ring_partial f n x c (Suc k) = f (x ((c + k) mod n)) (ring_partial f n x c k)"

definition ring_total :: "('a \<Rightarrow> 'a \<Rightarrow> 'a) \<Rightarrow> nat \<Rightarrow> (nat \<Rightarrow> 'a) \<Rightarrow> nat \<Rightarrow> 'a" where
  "ring_total f n x c = ring_partial f n x c (n - 1)"

text \<open>What the PE of rank \<open>(c + d) mod n\<close> holds of chunk \<open>c\<close> of segment \<open>seg\<close>.\<close>

definition chunk_now :: "('a \<Rightarrow> 'a \<Rightarrow> 'a) \<Rightarrow> nat \<Rightarrow> (nat \<Rightarrow> nat \<Rightarrow> 'a) \<Rightarrow> 'a ring_state \<Rightarrow> nat \<Rightarrow> nat \<Rightarrow> nat \<Rightarrow> 'a" where
  "chunk_now f n x s seg c d =
     (let B = seg * (2 * n - 2); p = (c + d) mod n; xs = (\<lambda>q. x q (seg * n + c)) in
      if d \<noteq> n - 2 \<and> B + (n - 1) + (d + 1) mod n < rsent s (rpred n p) then ring_total f n xs c
      else if d \<le> n - 2 \<and> B + d < rpos s p then ring_partial f n xs c (d + 1)
      else xs p)"

definition dst_inv :: "('a \<Rightarrow> 'a \<Rightarrow> 'a) \<Rightarrow> nat \<Rightarrow> (nat \<Rightarrow> nat \<Rightarrow> 'a) \<Rightarrow> 'a ring_state \<Rightarrow> bool" where
  "dst_inv f n x s \<longleftrightarrow>
     (\<forall>seg c d. c < n \<longrightarrow> d < n \<longrightarrow> rstage s ((c + d) mod n) \<noteq> Copying \<longrightarrow> rdst s ((c + d) mod n) (seg * n + c) = chunk_now f n x s seg c d)"

definition wrk_inv :: "('a \<Rightarrow> 'a \<Rightarrow> 'a) \<Rightarrow> nat \<Rightarrow> (nat \<Rightarrow> nat \<Rightarrow> 'a) \<Rightarrow> 'a ring_state \<Rightarrow> bool" where
  "wrk_inv f n x s \<longleftrightarrow>
     (\<forall>seg c d. c < n \<longrightarrow> d < n - 1 \<longrightarrow> seg * (2 * n - 2) + d < rsent s (rpred n ((c + d) mod n)) \<longrightarrow>
        rsent s (rpred n ((c + d) mod n)) \<le> seg * (2 * n - 2) + d + (2 * n - 2) \<longrightarrow>
        rwrk s ((c + d) mod n) c = ring_partial f n (\<lambda>q. x q (seg * n + c)) c d)"

definition flag_inv :: "nat \<Rightarrow> 'a ring_state \<Rightarrow> bool" where
  "flag_inv n s \<longleftrightarrow> (\<forall>p iter. p < n \<longrightarrow> iter < 2 * n - 2 \<longrightarrow>
        (rstage s p = Finished \<or> rsig s (rpred n p) \<le> iter \<longrightarrow> rsync s p iter = ROCSHMEM_SYNC_VALUE) \<and>
        (\<forall>seg. rstage s p \<noteq> Finished \<longrightarrow> seg * (2 * n - 2) + iter < rsig s (rpred n p) \<longrightarrow>
           rsig s (rpred n p) \<le> seg * (2 * n - 2) + iter + (2 * n - 2) \<longrightarrow> rsync s p iter = wait_val n seg iter))"

definition ring_inv :: "('a \<Rightarrow> 'a \<Rightarrow> 'a) \<Rightarrow> nat \<Rightarrow> nat \<Rightarrow> (nat \<Rightarrow> nat \<Rightarrow> 'a) \<Rightarrow> 'a ring_state \<Rightarrow> bool" where
  "ring_inv f n n_seg x s \<longleftrightarrow> pos_inv n n_seg s \<and> dst_inv f n x s \<and> wrk_inv f n x s \<and> flag_inv n s"

lemma pos_split: "rpos s p = seg_of n s p * (2 * n - 2) + iter_of n s p"
  unfolding seg_of_def iter_of_def by (rule div_mult_mod_eq [symmetric])

lemma iter_less: "2 \<le> n \<Longrightarrow> iter_of n s p < 2 * n - 2"
  by (simp add: iter_of_def)

lemma block_unique:
  fixes a b k l m :: nat
  assumes "a < m" "b < m" "k * m + a = l * m + b"
  shows "k = l \<and> a = b"
proof -
  have "(k * m + a) div m = (l * m + b) div m" "(k * m + a) mod m = (l * m + b) mod m" using assms(3) by simp_all
  then show ?thesis using assms(1,2) by simp
qed

lemma off_send_add:
  assumes "iter \<le> 2 * n"
  shows "(off_send n p iter + k) mod n = (p + 1 + 2 * n - iter + k) mod n"
  by (simp add: off_send_def mod_add_left_eq)

lemma off_recv_add: "(off_recv n p iter + k) mod n = (p + 2 * n - iter + k) mod n"
  by (simp add: off_recv_def mod_add_left_eq)

lemma off_less: "0 < n \<Longrightarrow> off_send n p iter < n" "0 < n \<Longrightarrow> off_recv n p iter < n"
  by (simp_all add: off_send_def off_recv_def)

lemma off_send_succ: "iter \<le> 2 * n \<Longrightarrow> (off_send n p iter + iter) mod n = (p + 1) mod n"
  by (subst off_send_add) simp_all

lemma off_recv_self: "iter \<le> 2 * n \<Longrightarrow> p < n \<Longrightarrow> (off_recv n p iter + iter) mod n = p"
  by (subst off_recv_add) simp

text \<open>What a PE sends: a partial result in the first loop, the total in the second.\<close>

lemma sends_partial:
  assumes inv: "ring_inv f n n_seg x s" and n: "2 \<le> n" and p: "p < n" and stage: "rstage s p = Sending" and iter: "iter_of n s p < n - 1"
  shows "rdst s p (seg_of n s p * n + off_send n p (iter_of n s p))
    = ring_partial f n (\<lambda>q. x q (seg_of n s p * n + off_send n p (iter_of n s p))) (off_send n p (iter_of n s p)) (iter_of n s p)"
proof -
  define i where "i = iter_of n s p"
  define c where "c = off_send n p i"
  define d where "d = (if i = 0 then n - 1 else i - 1)"
  have t: "rpos s p = seg_of n s p * (2 * n - 2) + i" by (simp add: i_def pos_split [of s p n])
  have i: "i < n - 1" using iter by (simp add: i_def)
  have c: "c < n" and d: "d < n" "d \<noteq> n - 2" using n i by (auto simp: c_def d_def off_less)
  have "(p + 1 + 2 * n - i + d) mod n = p"
    using n p i by (cases "i = 0") (simp_all add: d_def mult_2 flip: add.assoc)
  then have pe: "(c + d) mod n = p" using off_send_add [of i n p d] i by (simp add: c_def)
  have e: "(d + 1) mod n = i" using n i by (auto simp: d_def)
  have "rsent s (rpred n p) \<le> seg_of n s p * (2 * n - 2) + i + (n - 1)"
    using pred_bound(1) [of n n_seg s p] inv p n stage by (simp add: ring_inv_def rsig_def t)
  then have late: "\<not> seg_of n s p * (2 * n - 2) + (n - 1) + (d + 1) mod n < rsent s (rpred n p)" unfolding e by simp
  have "chunk_now f n x s (seg_of n s p) c d = ring_partial f n (\<lambda>q. x q (seg_of n s p * n + c)) c i"
  proof (cases "i = 0")
    case True
    then have "\<not> d \<le> n - 2" "p = (c + n - 1) mod n" using n pe by (simp_all add: d_def)
    then show ?thesis using late True unfolding chunk_now_def Let_def pe by simp
  next
    case False
    then have "d \<le> n - 2" "d + 1 = i" using i by (simp_all add: d_def)
    then show ?thesis using late unfolding chunk_now_def Let_def pe by (simp add: t)
  qed
  moreover have "rdst s p (seg_of n s p * n + c) = chunk_now f n x s (seg_of n s p) c d"
    using inv c d(1) stage unfolding ring_inv_def dst_inv_def by (metis pe ring_stage.distinct(1))
  ultimately show ?thesis by (simp add: c_def i_def)
qed

lemma sends_total:
  assumes inv: "ring_inv f n n_seg x s" and n: "2 \<le> n" and p: "p < n" and stage: "rstage s p = Sending" and iter: "n - 1 \<le> iter_of n s p"
  shows "rdst s p (seg_of n s p * n + off_send n p (iter_of n s p))
    = ring_total f n (\<lambda>q. x q (seg_of n s p * n + off_send n p (iter_of n s p))) (off_send n p (iter_of n s p))"
proof -
  define j where "j = iter_of n s p - (n - 1)"
  define c where "c = off_send n p (n - 1 + j)"
  define d where "d = (if j = 0 then n - 2 else if j = 1 then n - 1 else j - 2)"
  have i: "iter_of n s p = n - 1 + j" using iter by (simp add: j_def)
  have t: "rpos s p = seg_of n s p * (2 * n - 2) + (n - 1) + j" using pos_split [of s p n] by (simp add: i)
  have j: "j < n - 1" using iter_less [OF n, of s p] n by (simp add: i)
  have c: "c < n" and d: "d < n" using n j by (auto simp: c_def d_def off_less)
  have "(p + 1 + 2 * n - (n - 1 + j) + d) mod n = p"
  proof -
    consider "j = 0" | "j = 1" | "2 \<le> j" by linarith
    then have "p + 1 + 2 * n - (n - 1 + j) + d = p + n \<or> p + 1 + 2 * n - (n - 1 + j) + d = p + 2 * n"
      using n j by cases (simp_all add: d_def, arith?)
    then show ?thesis using p by auto
  qed
  then have pe: "(c + d) mod n = p" using off_send_add [of "n - 1 + j" n p d] j by (simp add: c_def)
  have pos: "rpos s p \<le> rsent s (rpred n p)"
    using pred_bound(2) [of n n_seg s p] inv p n rsig_bounds(2) [of s "rpred n p"] by (simp add: ring_inv_def)
  have "chunk_now f n x s (seg_of n s p) c d = ring_total f n (\<lambda>q. x q (seg_of n s p * n + c)) c"
  proof (cases "j = 0")
    case True
    then have "d = n - 2" "seg_of n s p * (2 * n - 2) + d < rpos s p" using n by (simp_all add: d_def t)
    then show ?thesis using n unfolding chunk_now_def Let_def pe by (simp add: ring_total_def Suc_diff_Suc numeral_2_eq_2)
  next
    case False
    then have "(d + 1) mod n = j - 1" "d \<noteq> n - 2" using j n by (auto simp: d_def)
    then have "d \<noteq> n - 2 \<and> seg_of n s p * (2 * n - 2) + (n - 1) + (d + 1) mod n < rsent s (rpred n p)"
      using pos False by (simp add: t)
    then show ?thesis unfolding chunk_now_def Let_def pe by simp
  qed
  moreover have "rdst s p (seg_of n s p * n + c) = chunk_now f n x s (seg_of n s p) c d"
    using inv c d stage unfolding ring_inv_def dst_inv_def by (metis pe ring_stage.distinct(1))
  ultimately show ?thesis by (simp add: c_def i)
qed

section \<open>The invariant is kept\<close>

lemma same_block:
  fixes a k l m :: nat
  assumes "l * m + a \<le> k * m + a" "k * m + a < l * m + a + m"
  shows "l = k"
proof -
  have "l * m \<le> k * m" "k * m < Suc l * m" using assms by simp_all
  then show ?thesis unfolding mult_less_cancel2 mult_le_cancel2 by simp
qed

lemma block_step:
  fixes a b k l m :: nat
  assumes "a < m" "b < m"
  shows "l * m + a < Suc (k * m + b) \<longleftrightarrow> l * m + a < k * m + b \<or> (l = k \<and> a = b)"
  using block_unique [of a m b l k] assms by auto

lemma chunk_now_cong:
  assumes "rsent s' (rpred n ((c + d) mod n)) = rsent s (rpred n ((c + d) mod n))" "rpos s' ((c + d) mod n) = rpos s ((c + d) mod n)"
  shows "chunk_now f n x s' seg c d = chunk_now f n x s seg c d"
  unfolding chunk_now_def Let_def assms ..

lemma ring_send_frame:
  assumes "rstage s p = Sending"
  shows "rpos (ring_send n p s) = rpos s" "rsync (ring_send n p s) = rsync s" "rsig (ring_send n p s) = rsig s"
    "rsent (ring_send n p s) = (rsent s)(p := Suc (rsent s p))" "rstage (ring_send n p s) = (rstage s)(p := Signalling)"
  using assms by (auto simp: ring_send_def Let_def rsig_def rsent_def fun_eq_iff)

lemma ring_signal_frame:
  assumes "rstage s p = Signalling"
  shows "rpos (ring_signal n p s) = rpos s" "rdst (ring_signal n p s) = rdst s" "rwrk (ring_signal n p s) = rwrk s"
    "rsent (ring_signal n p s) = rsent s" "rsig (ring_signal n p s) = (rsig s)(p := Suc (rsig s p))"
    "rstage (ring_signal n p s) = (rstage s)(p := Waiting)"
  using assms by (auto simp: ring_signal_def Let_def rsig_def rsent_def fun_eq_iff)

lemma ring_receive_frame:
  assumes "rstage s p = Waiting"
  shows "rsync (ring_receive f n p s) = rsync s" "rwrk (ring_receive f n p s) = rwrk s"
    "rsent (ring_receive f n p s) = rsent s" "rsig (ring_receive f n p s) = rsig s"
    "rpos (ring_receive f n p s) = (rpos s)(p := Suc (rpos s p))" "rstage (ring_receive f n p s) = (rstage s)(p := Sending)"
  using assms by (auto simp: ring_receive_def Let_def rsig_def rsent_def fun_eq_iff)

lemma ring_copy_frame:
  assumes "rstage s p = Copying"
  shows "rpos (ring_copy x p s) = rpos s" "rsync (ring_copy x p s) = rsync s" "rwrk (ring_copy x p s) = rwrk s"
    "rsent (ring_copy x p s) = rsent s" "rsig (ring_copy x p s) = rsig s" "rdst (ring_copy x p s) = (rdst s)(p := x p)"
    "rstage (ring_copy x p s) = (rstage s)(p := Sending)"
  using assms by (auto simp: ring_copy_def Let_def rsig_def rsent_def fun_eq_iff)

lemma ring_reset_frame:
  assumes "rstage s p = Sending"
  shows "rpos (ring_reset n p s) = rpos s" "rdst (ring_reset n p s) = rdst s" "rwrk (ring_reset n p s) = rwrk s"
    "rsent (ring_reset n p s) = rsent s" "rsig (ring_reset n p s) = rsig s" "rstage (ring_reset n p s) = (rstage s)(p := Finished)"
  using assms by (auto simp: ring_reset_def Let_def rsig_def rsent_def fun_eq_iff)

lemma pred_iff: "p < n \<Longrightarrow> q < n \<Longrightarrow> rpred n q = p \<longleftrightarrow> q = (p + 1) mod n"
  using rpred_succ succ_rpred by metis

lemma chunk_of_iter:
  assumes n: "2 \<le> n" and p: "p < n" and i: "n - 1 \<le> i" "i < 2 * n - 2" and c: "c < n" and d: "d < n" "(c + d) mod n = (p + 1) mod n"
  shows "d \<noteq> n - 2 \<and> (n - 1) + (d + 1) mod n = i \<longleftrightarrow> c = off_send n p i"
proof -
  define j where "j = i - (n - 1)"
  define d0 where "d0 = (if j = 0 then n - 1 else j - 1)"
  have j: "j < n - 1" "i = n - 1 + j" using i by (simp_all add: j_def)
  have d0: "d0 < n" "d0 \<noteq> n - 2" "(d0 + 1) mod n = j" using n j by (auto simp: d0_def)
  have "p + 1 + 2 * n - i + d0 = p + 1 + n \<or> p + 1 + 2 * n - i + d0 = p + 1 + 2 * n"
    using n j by (cases "j = 0") (simp_all add: d0_def)
  then have "(p + 1 + 2 * n - i + d0) mod n = (p + 1) mod n" by (elim disjE) (simp_all only: mod_add_self2 mod_mult_self2 mult.commute [of 2 n])
  then have o: "(off_send n p i + d0) mod n = (p + 1) mod n" using off_send_add [of i n p d0] i by simp
  have "d = d0 \<longleftrightarrow> c = off_send n p i"
    using o d c d0(1) ring_index_inj [of d n d0 c] ring_index_inj [of c n "off_send n p i" d0] off_less(1) [of n p i] n
    by (auto simp: add.commute)
  moreover have "d \<noteq> n - 2 \<and> (d + 1) mod n = j \<longleftrightarrow> d = d0"
    using d0 d(1) ring_index_inj [of d n d0 1] by (auto simp: add.commute)
  ultimately show ?thesis using j(2) by auto
qed

lemma send_dst_inv:
  assumes inv: "ring_inv f n n_seg x s" and n: "2 \<le> n" and p: "p < n" "rpos s p < n_seg * (2 * n - 2)" and stage: "rstage s p = Sending"
  shows "dst_inv f n x (ring_send n p s)"
  unfolding dst_inv_def
proof (intro allI impI)
  fix seg c d assume c: "c < n" "d < n" and st: "rstage (ring_send n p s) ((c + d) mod n) \<noteq> Copying"
  let ?q = "(c + d) mod n" and ?s = "ring_send n p s" and ?i = "iter_of n s p"
  have q: "?q < n" using n by simp
  have old: "rdst s ?q (seg * n + c) = chunk_now f n x s seg c d"
    using inv c st stage by (auto simp: ring_inv_def dst_inv_def ring_send_frame split: if_splits)
  show "rdst ?s ?q (seg * n + c) = chunk_now f n x ?s seg c d"
  proof (cases "?q = (p + 1) mod n")
    case False
    then have "chunk_now f n x ?s seg c d = chunk_now f n x s seg c d"
      using pred_iff [OF p(1) q] stage by (intro chunk_now_cong) (simp_all add: ring_send_frame)
    then show ?thesis using old False by (auto simp: ring_send_def Let_def)
  next
    case True
    then have pr: "rpred n ?q = p" using pred_iff [OF p(1) q] by simp
    have t: "rsent s p = seg_of n s p * (2 * n - 2) + ?i" using stage pos_split [of s p n] by (simp add: rsent_def)
    have "d \<noteq> n - 2 \<Longrightarrow> (n - 1) + (d + 1) mod n < 2 * n - 2" using c n by (cases "d = n - 1") auto
    then have c1: "d \<noteq> n - 2 \<and> seg * (2 * n - 2) + (n - 1) + (d + 1) mod n < rsent ?s p \<longleftrightarrow>
      d \<noteq> n - 2 \<and> (seg * (2 * n - 2) + (n - 1) + (d + 1) mod n < rsent s p \<or> (seg = seg_of n s p \<and> (n - 1) + (d + 1) mod n = ?i))"
      using block_step [of "(n - 1) + (d + 1) mod n" "2 * n - 2" ?i seg "seg_of n s p"] iter_less [OF n, of s p] stage
      by (auto simp: ring_send_frame t add.assoc)
    show ?thesis
    proof (cases "n - 1 \<le> ?i \<and> seg = seg_of n s p \<and> c = off_send n p ?i")
      case True
      then have "d \<noteq> n - 2 \<and> (n - 1) + (d + 1) mod n = ?i"
        using chunk_of_iter [OF n p(1) _ iter_less [OF n] c \<open>?q = (p + 1) mod n\<close>, of s p] by simp
      then have "chunk_now f n x ?s seg c d = ring_total f n (\<lambda>q. x q (seg * n + c)) c"
        using c1 True unfolding chunk_now_def Let_def pr by auto
      moreover have "rdst ?s ?q (seg * n + c) = rdst s p (seg * n + c)"
        using True \<open>?q = (p + 1) mod n\<close> by (simp add: ring_send_def Let_def)
      ultimately show ?thesis using sends_total [OF inv n p(1) stage] True by simp
    next
      case False
      then have "\<not> (d \<noteq> n - 2 \<and> seg = seg_of n s p \<and> (n - 1) + (d + 1) mod n = ?i)"
        using chunk_of_iter [OF n p(1) _ iter_less [OF n] c \<open>?q = (p + 1) mod n\<close>, of s p] by auto
      then have "chunk_now f n x ?s seg c d = chunk_now f n x s seg c d"
        using c1 stage unfolding chunk_now_def Let_def pr by (auto simp: ring_send_frame)
      moreover have "rdst ?s ?q (seg * n + c) = rdst s ?q (seg * n + c)"
        using False block_unique [of c n "off_send n p ?i" seg "seg_of n s p"] c(1) off_less(1) [of n p ?i] n
        by (auto simp: ring_send_def Let_def)
      ultimately show ?thesis using old by simp
    qed
  qed
qed

lemma send_wrk_inv:
  assumes inv: "ring_inv f n n_seg x s" and n: "2 \<le> n" and p: "p < n" and stage: "rstage s p = Sending"
  shows "wrk_inv f n x (ring_send n p s)"
  unfolding wrk_inv_def
proof (intro allI impI)
  fix seg c d
  let ?q = "(c + d) mod n" and ?s = "ring_send n p s" and ?i = "iter_of n s p" and ?M = "2 * n - 2"
  assume c: "c < n" "d < n - 1" and lo: "seg * ?M + d < rsent ?s (rpred n ?q)" and hi: "rsent ?s (rpred n ?q) \<le> seg * ?M + d + ?M"
  have q: "?q < n" and dn: "d < n" "d < ?M" using n c by simp_all
  have old: "rwrk s ?q c = ring_partial f n (\<lambda>q. x q (seg * n + c)) c d"
    if "seg * ?M + d < rsent s (rpred n ?q)" "rsent s (rpred n ?q) \<le> seg * ?M + d + ?M"
    using inv c that by (simp add: ring_inv_def wrk_inv_def)
  show "rwrk ?s ?q c = ring_partial f n (\<lambda>q. x q (seg * n + c)) c d"
  proof (cases "?q = (p + 1) mod n")
    case False
    then show ?thesis using old lo hi pred_iff [OF p q] stage by (auto simp: ring_send_frame) (auto simp: ring_send_def Let_def)
  next
    case True
    then have pr: "rpred n ?q = p" using pred_iff [OF p q] by simp
    have t: "rsent s p = seg_of n s p * ?M + ?i" using stage pos_split [of s p n] by (simp add: rsent_def)
    have lo': "seg * ?M + d < rsent s p \<or> (seg = seg_of n s p \<and> d = ?i)"
      using lo block_step [OF dn(2) iter_less [OF n, of s p]] stage by (simp add: ring_send_frame pr t)
    have hi': "rsent s p < seg * ?M + d + ?M" using hi stage by (simp add: ring_send_frame pr)
    have chunk: "c = off_send n p ?i \<longleftrightarrow> d = ?i" if "?i < n - 1"
      using ring_index_inj [of d n ?i c] ring_index_inj [of c n "off_send n p ?i" ?i] off_send_succ [of ?i n p] True that c dn(1) off_less(1) [of n p ?i]
      by (auto simp: add.commute)
    show ?thesis
    proof (cases "?i < n - 1 \<and> d = ?i")
      case True
      then have "seg = seg_of n s p" by (intro same_block [of seg ?M ?i]) (use lo' hi' in \<open>auto simp: t\<close>)
      then show ?thesis using True \<open>?q = (p + 1) mod n\<close> chunk sends_partial [OF inv n p stage] by (simp add: ring_send_def Let_def)
    next
      case False
      then have "d \<noteq> ?i" using c by auto
      then have "rwrk s ?q c = ring_partial f n (\<lambda>q. x q (seg * n + c)) c d" using old lo' hi' by (simp add: pr)
      moreover have "rwrk ?s ?q c = rwrk s ?q c" using \<open>d \<noteq> ?i\<close> chunk by (auto simp: ring_send_def Let_def)
      ultimately show ?thesis by simp
    qed
  qed
qed

lemma wrk_invD:
  assumes "wrk_inv f n x s" "c < n" "d < n - 1" "(c + d) mod n = q"
    "seg * (2 * n - 2) + d < rsent s (rpred n q)" "rsent s (rpred n q) \<le> seg * (2 * n - 2) + d + (2 * n - 2)"
  shows "rwrk s q c = ring_partial f n (\<lambda>q. x q (seg * n + c)) c d"
  using assms(1,2,3,5,6) unfolding assms(4) [symmetric] wrk_inv_def by blast

lemma flag_means:
  assumes inv: "ring_inv f n n_seg x s" and n: "2 \<le> n" and p: "p < n" and stage: "rstage s p = Waiting"
    and flag: "rsync s p (iter_of n s p) = wait_val n (seg_of n s p) (iter_of n s p)"
  shows "rpos s p < rsig s (rpred n p)"
proof (rule ccontr)
  let ?i = "iter_of n s p" and ?M = "2 * n - 2" and ?k = "seg_of n s p"
  assume "\<not> rpos s p < rsig s (rpred n p)"
  then have t: "rsig s (rpred n p) = ?k * ?M + ?i"
    using pred_bound(2) [of n n_seg s p] inv p n pos_split [of s p n] by (simp add: ring_inv_def)
  have i: "?i < ?M" using iter_less [OF n] .
  show False
  proof (cases ?k)
    case 0
    then have "rsync s p ?i = ROCSHMEM_SYNC_VALUE" using inv p i t by (simp add: ring_inv_def flag_inv_def)
    then show False using flag by (simp add: wait_val_def ROCSHMEM_SYNC_VALUE_def split: if_splits)
  next
    case (Suc k)
    then have "rsync s p ?i = wait_val n k ?i" using inv p i t stage by (simp add: ring_inv_def flag_inv_def)
    then show False using flag Suc by (simp add: wait_val_def split: if_splits)
  qed
qed

lemma flag_arrives:
  assumes inv: "ring_inv f n n_seg x s" and n: "2 \<le> n" and p: "p < n" and stage: "rstage s p = Waiting" and sig: "rpos s p < rsig s (rpred n p)"
  shows "rsync s p (iter_of n s p) = wait_val n (seg_of n s p) (iter_of n s p)"
proof -
  have "rsig s (rpred n p) \<le> rpos s p + 1 + (n - 1)"
    using pred_bound(1) [of n n_seg s p] inv p n rsig_bounds(2) [of s "rpred n p"] stage by (simp add: ring_inv_def rsig_def)
  then have "rsig s (rpred n p) \<le> rpos s p + (2 * n - 2)" using n by simp
  then show ?thesis
    using inv p sig stage iter_less [OF n, of s p] pos_split [of s p n] by (simp add: ring_inv_def flag_inv_def)
qed

lemma receive_chunk_now:
  assumes n: "2 \<le> n" and stage: "rstage s p = Waiting" and q: "(c + d) mod n = p"
  shows "d \<le> n - 2 \<and> seg * (2 * n - 2) + d < rpos (ring_receive f n p s) p \<longleftrightarrow>
    d \<le> n - 2 \<and> (seg * (2 * n - 2) + d < rpos s p \<or> (seg = seg_of n s p \<and> d = iter_of n s p))"
  using block_step [of d "2 * n - 2" "iter_of n s p" seg "seg_of n s p"] iter_less [OF n, of s p] n stage pos_split [of s p n]
  by (auto simp: ring_receive_frame)

text \<open>What a PE receives in the first loop, and what it makes of it.\<close>

lemma receives_partial:
  assumes inv: "ring_inv f n n_seg x s" and n: "2 \<le> n" and p: "p < n" and stage: "rstage s p = Waiting"
    and flag: "rsync s p (iter_of n s p) = wait_val n (seg_of n s p) (iter_of n s p)"
    and c: "c < n" "iter_of n s p < n - 1" "(c + iter_of n s p) mod n = p"
  shows "chunk_now f n x s (seg_of n s p) c (iter_of n s p) = x p (seg_of n s p * n + c)"
    "rwrk s p c = ring_partial f n (\<lambda>q. x q (seg_of n s p * n + c)) c (iter_of n s p)"
    "chunk_now f n x (ring_receive f n p s) (seg_of n s p) c (iter_of n s p)
      = ring_partial f n (\<lambda>q. x q (seg_of n s p * n + c)) c (Suc (iter_of n s p))"
proof -
  let ?i = "iter_of n s p" and ?B = "seg_of n s p * (2 * n - 2)" and ?s = "ring_receive f n p s"
  have t: "rpos s p = ?B + ?i" by (rule pos_split)
  have sent: "rsent s (rpred n p) \<le> rpos s p + n"
    using pred_bound(1) [of n n_seg s p] inv p n stage by (simp add: ring_inv_def rsig_def)
  have late: "\<not> (?i \<noteq> n - 2 \<and> ?B + (n - 1) + (?i + 1) mod n < rsent s (rpred n p))"
    using sent c(2) n by (auto simp: t)
  then have late': "\<not> (?i \<noteq> n - 2 \<and> ?B + (n - 1) + (?i + 1) mod n < rsent ?s (rpred n p))"
    using stage by (simp add: ring_receive_frame)
  have old: "\<not> (?i \<le> n - 2 \<and> ?B + ?i < rpos s p)" by (simp add: t)
  have new: "?i \<le> n - 2 \<and> ?B + ?i < rpos ?s p" using c(2) receive_chunk_now [OF n stage c(3)] by auto
  show "chunk_now f n x s (seg_of n s p) c ?i = x p (seg_of n s p * n + c)"
    unfolding chunk_now_def Let_def c(3) if_not_P [OF late] if_not_P [OF old] by simp
  show "chunk_now f n x ?s (seg_of n s p) c ?i = ring_partial f n (\<lambda>q. x q (seg_of n s p * n + c)) c (Suc ?i)"
    unfolding chunk_now_def Let_def c(3) if_not_P [OF late'] if_P [OF new] by simp
  show "rwrk s p c = ring_partial f n (\<lambda>q. x q (seg_of n s p * n + c)) c ?i"
    using inv c sent flag_means [OF inv n p stage flag] rsig_bounds(2) [of s "rpred n p"] n
    by (intro wrk_invD) (simp_all add: ring_inv_def t)
qed

lemma receive_dst_inv:
  assumes inv: "ring_inv f n n_seg x s" and n: "2 \<le> n" and p: "p < n" and stage: "rstage s p = Waiting"
    and flag: "rsync s p (iter_of n s p) = wait_val n (seg_of n s p) (iter_of n s p)"
  shows "dst_inv f n x (ring_receive f n p s)"
  unfolding dst_inv_def
proof (intro allI impI)
  fix seg c d
  let ?q = "(c + d) mod n" and ?s = "ring_receive f n p s" and ?i = "iter_of n s p" and ?k = "seg_of n s p"
  assume c: "c < n" "d < n" and st: "rstage ?s ?q \<noteq> Copying"
  have old: "rdst s ?q (seg * n + c) = chunk_now f n x s seg c d"
    using inv c st stage by (auto simp: ring_inv_def dst_inv_def ring_receive_frame split: if_splits)
  have chunk: "c = off_recv n p ?i \<longleftrightarrow> d = ?i" if "?i < n - 1" "?q = p"
    using ring_index_inj [of d n ?i c] ring_index_inj [of c n "off_recv n p ?i" ?i] off_recv_self [of ?i n p] that c p off_less(2) [of n p ?i]
    by (auto simp: add.commute)
  show "rdst ?s ?q (seg * n + c) = chunk_now f n x ?s seg c d"
  proof (cases "?q = p \<and> ?i < n - 1 \<and> seg = ?k \<and> d = ?i")
    case True
    then have now: "?i < n - 1" "seg = ?k" "d = ?i" "?q = p" by blast+
    have pe: "(c + ?i) mod n = p" using now(3,4) by metis
    have "c = off_recv n p ?i" using chunk [OF now(1,4)] now(3) by (rule iffD2)
    then have "rdst ?s p (seg * n + c) = f (rdst s p (seg * n + c)) (rwrk s p c)" using now(1,2) by (simp add: ring_receive_def Let_def)
    then show ?thesis
      using old receives_partial [OF inv n p stage flag c(1) now(1) pe] unfolding now(4) unfolding now(2,3) by (simp add: pe)
  next
    case False
    have "d \<le> n - 2 \<and> seg * (2 * n - 2) + d < rpos ?s ?q \<longleftrightarrow> d \<le> n - 2 \<and> seg * (2 * n - 2) + d < rpos s ?q"
    proof (cases "?q = p")
      case True
      then have "\<not> (d \<le> n - 2 \<and> seg = ?k \<and> d = ?i)" using False n by auto
      then show ?thesis using receive_chunk_now [OF n stage True, of seg f] unfolding True by blast
    qed (use stage in \<open>simp add: ring_receive_frame\<close>)
    then have "chunk_now f n x ?s seg c d = chunk_now f n x s seg c d"
      unfolding chunk_now_def Let_def ring_receive_frame(3) [OF stage] by (simp only:)
    moreover have "rdst ?s ?q (seg * n + c) = rdst s ?q (seg * n + c)"
      using False chunk block_unique [of c n "off_recv n p ?i" seg ?k] c off_less(2) [of n p ?i] by (auto simp: ring_receive_def Let_def)
    ultimately show ?thesis using old by simp
  qed
qed

lemma pos_inv_intro:
  assumes old: "pos_inv n n_seg s"
    and others: "\<And>q. q \<noteq> p \<Longrightarrow> rpos s' q = rpos s q \<and> rstage s' q = rstage s q"
    and here: "rpos s' p \<le> n_seg * (2 * n - 2)" "rstage s' p = Copying \<longrightarrow> rpos s' p = 0"
      "rstage s' p \<in> {Signalling, Waiting} \<longrightarrow> rpos s' p < n_seg * (2 * n - 2)" "rstage s' p = Finished \<longrightarrow> rpos s' p = n_seg * (2 * n - 2)"
    and sig: "rsig s p \<le> rsig s' p" and pos: "p < n" "2 \<le> n" "rpos s' p \<le> rsig s (rpred n p)"
  shows "pos_inv n n_seg s'"
proof -
  have next_ok: "rpos s' ((q + 1) mod n) \<le> rsig s' q" if q: "q < n" for q
  proof -
    have "rsig s q \<le> rsig s' q" using others [of q] sig by (cases "q = p") (auto simp: rsig_def)
    moreover have "rpos s' ((q + 1) mod n) \<le> rsig s q"
      using others [of "(q + 1) mod n"] pos old q rpred_succ [OF q] by (cases "(q + 1) mod n = p") (auto simp: pos_inv_def)
    ultimately show ?thesis by simp
  qed
  show ?thesis unfolding pos_inv_def
  proof (intro allI impI)
    fix q assume q: "q < n"
    show "rpos s' q \<le> n_seg * (2 * n - 2) \<and> (rstage s' q = Copying \<longrightarrow> rpos s' q = 0) \<and>
      (rstage s' q \<in> {Signalling, Waiting} \<longrightarrow> rpos s' q < n_seg * (2 * n - 2)) \<and>
      (rstage s' q = Finished \<longrightarrow> rpos s' q = n_seg * (2 * n - 2)) \<and> rpos s' ((q + 1) mod n) \<le> rsig s' q"
      using here next_ok [OF q] others [of q] old q by (cases "q = p") (auto simp: pos_inv_def)
  qed
qed

lemma pos_invD:
  assumes "pos_inv n n_seg s" "p < n"
  shows "rpos s p \<le> n_seg * (2 * n - 2)" "rstage s p = Copying \<Longrightarrow> rpos s p = 0"
    "rstage s p = Signalling \<Longrightarrow> rpos s p < n_seg * (2 * n - 2)" "rstage s p = Waiting \<Longrightarrow> rpos s p < n_seg * (2 * n - 2)"
    "rstage s p = Finished \<Longrightarrow> rpos s p = n_seg * (2 * n - 2)"
  using assms by (auto simp: pos_inv_def)

lemma signal_flag_inv:
  assumes inv: "ring_inv f n n_seg x s" and n: "2 \<le> n" and p: "p < n" and stage: "rstage s p = Signalling"
  shows "flag_inv n (ring_signal n p s)"
proof -
  let ?s = "ring_signal n p s" and ?i = "iter_of n s p" and ?M = "2 * n - 2" and ?k = "seg_of n s p"
  have old: "flag_inv n s" and pos: "pos_inv n n_seg s" using inv by (simp_all add: ring_inv_def)
  have t: "rsig s p = ?k * ?M + ?i" using stage pos_split [of s p n] by (simp add: rsig_def)
  have i: "?i < ?M" using iter_less [OF n] .
  have succ: "(p + 1) mod n < n" "rpred n ((p + 1) mod n) = p" using n p rpred_succ by simp_all
  have "rpos s ((p + 1) mod n) \<le> rsig s p" "rsig s p < n_seg * ?M" using pos p stage by (auto simp: pos_inv_def rsig_def)
  then have live: "rstage s ((p + 1) mod n) \<noteq> Finished" using pos succ(1) by (auto simp: pos_inv_def)
  have "(rstage ?s q = Finished \<or> rsig ?s (rpred n q) \<le> j \<longrightarrow> rsync ?s q j = ROCSHMEM_SYNC_VALUE) \<and>
    (\<forall>seg. rstage ?s q \<noteq> Finished \<longrightarrow> seg * ?M + j < rsig ?s (rpred n q) \<longrightarrow> rsig ?s (rpred n q) \<le> seg * ?M + j + ?M \<longrightarrow>
       rsync ?s q j = wait_val n seg j)" if q: "q < n" and j: "j < ?M" for q j
  proof (cases "q = (p + 1) mod n")
    case False
    then show ?thesis using old q j pred_iff [OF p q] stage by (auto simp: flag_inv_def ring_signal_frame) (auto simp: ring_signal_def Let_def)
  next
    case True
    then have sync: "rsync ?s q j = (if j = ?i then wait_val n ?k ?i else rsync s q j)" by (simp add: ring_signal_def Let_def)
    have fin: "rstage ?s q \<noteq> Finished" using live True stage by (auto simp: ring_signal_frame)
    have old': "(rsig s p \<le> j \<longrightarrow> rsync s q j = ROCSHMEM_SYNC_VALUE) \<and>
      (\<forall>seg. seg * ?M + j < rsig s p \<longrightarrow> rsig s p \<le> seg * ?M + j + ?M \<longrightarrow> rsync s q j = wait_val n seg j)"
      using old q j live True succ by (auto simp: flag_inv_def)
    have seg: "seg = ?k" if "seg * ?M + ?i < Suc (?k * ?M + ?i)" "Suc (?k * ?M + ?i) \<le> seg * ?M + ?i + ?M" for seg
      using that by (intro same_block [of seg ?M ?i]) (simp_all only: less_Suc_eq_le Suc_le_eq)
    have sig: "rsig ?s (rpred n q) = Suc (?k * ?M + ?i)" using True succ(2) stage by (simp add: ring_signal_frame t)
    have "\<not> Suc (?k * ?M + ?i) \<le> j \<or> rsync ?s q j = ROCSHMEM_SYNC_VALUE" using sync old' by (auto simp: t)
    moreover have "rsync ?s q j = wait_val n seg' j" if "seg' * ?M + j < Suc (?k * ?M + ?i)" "Suc (?k * ?M + ?i) \<le> seg' * ?M + j + ?M" for seg'
    proof (cases "j = ?i")
      case True
      then have "seg' = ?k" using seg [of seg'] that by (simp only:)
      then show ?thesis using sync True by simp
    next
      case False
      then have "seg' * ?M + j < rsig s p" "rsig s p \<le> seg' * ?M + j + ?M" using that block_step [OF j i] unfolding t by auto
      then show ?thesis using old' sync False by simp
    qed
    ultimately show ?thesis unfolding sig using fin by blast
  qed
  then show ?thesis by (simp add: flag_inv_def)
qed

lemma dst_inv_cong:
  assumes "dst_inv f n x s" "rdst s' = rdst s" "rsent s' = rsent s" "rpos s' = rpos s" "\<And>q. rstage s' q \<noteq> Copying \<Longrightarrow> rstage s q \<noteq> Copying"
  shows "dst_inv f n x s'"
  using assms by (simp add: dst_inv_def chunk_now_cong [of s' n _ _ s])

lemma wrk_inv_cong:
  assumes "wrk_inv f n x s" "rwrk s' = rwrk s" "rsent s' = rsent s"
  shows "wrk_inv f n x s'"
  using assms(1) unfolding wrk_inv_def assms(2,3) .

lemma flag_inv_cong:
  assumes "flag_inv n s" "rsync s' = rsync s" "rsig s' = rsig s" "\<And>q. rstage s' q = Finished \<longleftrightarrow> rstage s q = Finished"
  shows "flag_inv n s'"
  using assms(1) unfolding flag_inv_def assms(2,3,4) .

lemma copy_dst_inv:
  assumes inv: "ring_inv f n n_seg x s" and n: "2 \<le> n" and p: "p < n" and stage: "rstage s p = Copying"
  shows "dst_inv f n x (ring_copy x p s)"
  unfolding dst_inv_def
proof (intro allI impI)
  fix seg c d
  let ?q = "(c + d) mod n" and ?s = "ring_copy x p s"
  assume c: "c < n" "d < n" and st: "rstage ?s ?q \<noteq> Copying"
  have same: "chunk_now f n x ?s seg c d = chunk_now f n x s seg c d"
    using stage by (intro chunk_now_cong) (simp_all add: ring_copy_frame)
  show "rdst ?s ?q (seg * n + c) = chunk_now f n x ?s seg c d"
  proof (cases "?q = p")
    case False
    then show ?thesis using same inv c st stage by (simp add: ring_copy_frame ring_inv_def dst_inv_def)
  next
    case True
    have "rpos s p = 0" using inv p stage by (simp add: ring_inv_def pos_inv_def)
    moreover have "rsent s (rpred n p) \<le> n - 1"
      using pred_bound(1) [of n n_seg s p] inv p n stage \<open>rpos s p = 0\<close> by (simp add: ring_inv_def rsig_def)
    ultimately have "chunk_now f n x s seg c d = x p (seg * n + c)" unfolding chunk_now_def Let_def True by simp
    then show ?thesis using same stage True by (simp add: ring_copy_frame)
  qed
qed

lemma reset_flag_inv:
  assumes "ring_inv f n n_seg x s" "2 \<le> n" "p < n" "rstage s p = Sending"
  shows "flag_inv n (ring_reset n p s)"
  unfolding flag_inv_def
proof (intro allI impI)
  fix q j assume q: "q < n" "j < 2 * n - 2"
  have sync: "rsync (ring_reset n p s) q j = (if q = p then ROCSHMEM_SYNC_VALUE else rsync s q j)" using q by (simp add: ring_reset_def)
  have "flag_inv n s" using assms(1) by (simp add: ring_inv_def)
  then show "(rstage (ring_reset n p s) q = Finished \<or> rsig (ring_reset n p s) (rpred n q) \<le> j \<longrightarrow> rsync (ring_reset n p s) q j = ROCSHMEM_SYNC_VALUE) \<and>
      (\<forall>seg. rstage (ring_reset n p s) q \<noteq> Finished \<longrightarrow> seg * (2 * n - 2) + j < rsig (ring_reset n p s) (rpred n q) \<longrightarrow>
         rsig (ring_reset n p s) (rpred n q) \<le> seg * (2 * n - 2) + j + (2 * n - 2) \<longrightarrow> rsync (ring_reset n p s) q j = wait_val n seg j)"
    using q sync by (cases "q = p") (auto simp: flag_inv_def ring_reset_frame [OF assms(4)])
qed

lemma ring_inv_step:
  assumes inv: "ring_inv f n n_seg x s" and n: "2 \<le> n" and step: "ring_step f n n_seg x s s'"
  shows "ring_inv f n n_seg x s'"
proof -
  have old: "pos_inv n n_seg s" "dst_inv f n x s" "wrk_inv f n x s" "flag_inv n s" using inv by (simp_all add: ring_inv_def)
  from step show ?thesis
  proof cases
    case (step_copy p)
    note frame = ring_copy_frame [OF step_copy(3)]
    have "pos_inv n n_seg s'" unfolding step_copy(1)
      using n step_copy(2,3) pos_invD [OF old(1) step_copy(2)] pred_bound(2) [OF old(1) step_copy(2) n]
      by (intro pos_inv_intro [OF old(1), of p]) (simp_all add: frame)
    moreover have "wrk_inv f n x s'" "flag_inv n s'" unfolding step_copy(1)
      by (rule wrk_inv_cong [OF old(3)] flag_inv_cong [OF old(4)]; simp add: frame step_copy)+
    ultimately show ?thesis using copy_dst_inv [OF inv n step_copy(2,3)] by (simp add: ring_inv_def step_copy(1))
  next
    case (step_send p)
    note frame = ring_send_frame [OF step_send(4)]
    have "pos_inv n n_seg s'" unfolding step_send(1)
      using n step_send(2,3,4) pos_invD [OF old(1) step_send(2)] pred_bound(2) [OF old(1) step_send(2) n]
      by (intro pos_inv_intro [OF old(1), of p]) (simp_all add: frame)
    moreover have "flag_inv n s'" unfolding step_send(1)
      by (rule flag_inv_cong [OF old(4)]) (simp_all add: frame step_send)
    ultimately show ?thesis
      using send_dst_inv [OF inv n step_send(2,3,4)] send_wrk_inv [OF inv n step_send(2,4)] by (simp add: ring_inv_def step_send(1))
  next
    case (step_signal p)
    note frame = ring_signal_frame [OF step_signal(3)]
    have "pos_inv n n_seg s'" unfolding step_signal(1)
      using n step_signal(2,3) pos_invD [OF old(1) step_signal(2)] pred_bound(2) [OF old(1) step_signal(2) n]
      by (intro pos_inv_intro [OF old(1), of p]) (simp_all add: frame)
    moreover have "dst_inv f n x s'" "wrk_inv f n x s'" unfolding step_signal(1)
      by (rule dst_inv_cong [OF old(2)] wrk_inv_cong [OF old(3)]; auto simp: frame step_signal split: if_splits)+
    ultimately show ?thesis using signal_flag_inv [OF inv n step_signal(2,3)] by (simp add: ring_inv_def step_signal(1))
  next
    case (step_receive p)
    note frame = ring_receive_frame [OF step_receive(3)]
    have "pos_inv n n_seg s'" unfolding step_receive(1)
      using n step_receive(2,3) pos_invD [OF old(1) step_receive(2)] flag_means [OF inv n step_receive(2,3,4)]
      by (intro pos_inv_intro [OF old(1), of p]) (simp_all add: frame)
    moreover have "wrk_inv f n x s'" "flag_inv n s'" unfolding step_receive(1)
      by (rule wrk_inv_cong [OF old(3)] flag_inv_cong [OF old(4)]; simp add: frame step_receive)+
    ultimately show ?thesis using receive_dst_inv [OF inv n step_receive(2,3,4)] by (simp add: ring_inv_def step_receive(1))
  next
    case (step_reset p)
    note frame = ring_reset_frame [OF step_reset(4)]
    have "pos_inv n n_seg s'" unfolding step_reset(1)
      using n step_reset(2,3,4) pos_invD [OF old(1) step_reset(2)] pred_bound(2) [OF old(1) step_reset(2) n]
      by (intro pos_inv_intro [OF old(1), of p]) (simp_all add: frame)
    moreover have "dst_inv f n x s'" "wrk_inv f n x s'" unfolding step_reset(1)
      by (rule dst_inv_cong [OF old(2)] wrk_inv_cong [OF old(3)]; auto simp: frame step_reset split: if_splits)+
    ultimately show ?thesis using reset_flag_inv [OF inv n step_reset(2,4)] by (simp add: ring_inv_def step_reset(1))
  qed
qed

lemma ring_inv_init:
  assumes "ring_init n s" "2 \<le> n"
  shows "ring_inv f n n_seg x s"
proof -
  have st: "rpos s p = 0" "rstage s p = Copying" "rsig s p = 0" "rsent s p = 0" if "p < n" for p
    using assms(1) that by (simp_all add: ring_init_def rsig_def rsent_def)
  have pr: "rpred n p < n" "(q + d) mod n < n" for p q d using assms(2) by (simp_all add: rpred_less)
  show ?thesis unfolding ring_inv_def
    using assms(1) by (simp add: pos_inv_def dst_inv_def wrk_inv_def flag_inv_def st pr pr(2) [of _ 1, simplified] ring_init_def)
qed

section \<open>The result\<close>

lemma ring_distance:
  fixes p n c :: nat
  assumes "p < n" "c < n"
  shows "(p + n - c) mod n < n \<and> (c + (p + n - c) mod n) mod n = p"
proof -
  have "(c + (p + n - c) mod n) mod n = (c + (p + n - c)) mod n" by (simp only: mod_add_right_eq)
  also have "\<dots> = p" using assms by simp
  finally show ?thesis using assms by simp
qed

lemma finished_chunk:
  assumes inv: "ring_inv f n n_seg x s" and n: "2 \<le> n" and p: "p < n" and fin: "rstage s p = Finished" and c: "c < n" "seg < n_seg"
  shows "rdst s p (seg * n + c) = ring_total f n (\<lambda>q. x q (seg * n + c)) c"
proof -
  let ?M = "2 * n - 2"
  define d where "d = (p + n - c) mod n"
  have d: "d < n" "(c + d) mod n = p" using ring_distance [OF p c(1)] by (simp_all add: d_def)
  have pos: "rpos s p = n_seg * ?M" using inv p fin by (simp add: ring_inv_def pos_inv_def)
  have "Suc seg * ?M \<le> n_seg * ?M" using c(2) by (intro mult_le_mono1) simp
  then have far: "seg * ?M + ?M \<le> rpos s p" by (simp add: pos)
  have pred: "rpos s p \<le> rsent s (rpred n p)"
    using pred_bound(2) [of n n_seg s p] inv p n rsig_bounds(2) [of s "rpred n p"] by (simp add: ring_inv_def)
  have "chunk_now f n x s seg c d = ring_total f n (\<lambda>q. x q (seg * n + c)) c"
  proof (cases "d = n - 2")
    case True
    then have "d \<le> n - 2 \<and> seg * ?M + d < rpos s p" using far n by simp
    moreover have "Suc (n - 2) = n - 1" using n by simp
    ultimately show ?thesis using True unfolding chunk_now_def Let_def d(2) by (simp add: ring_total_def)
  next
    case False
    have "(d + 1) mod n < n - 1" using False d(1) n by (cases "d = n - 1") auto
    then have "d \<noteq> n - 2 \<and> seg * ?M + (n - 1) + (d + 1) mod n < rsent s (rpred n p)" using False far pred by linarith
    then show ?thesis unfolding chunk_now_def Let_def d(2) by (rule if_P)
  qed
  moreover have "rdst s p (seg * n + c) = chunk_now f n x s seg c d"
    using inv c(1) d fin unfolding ring_inv_def dst_inv_def by (metis ring_stage.distinct(7))
  ultimately show ?thesis by simp
qed

text \<open>For an associative and commutative operation the order in which the ranks are visited does not matter.\<close>

definition reduce_ranks :: "('a \<Rightarrow> 'a \<Rightarrow> 'a) \<Rightarrow> nat \<Rightarrow> (nat \<Rightarrow> 'a) \<Rightarrow> 'a" where
  "reduce_ranks f n y = fold f (map y [1..<n]) (y 0)"

lemma fold_mset_start:
  assumes "\<And>a b c. f (f a b) c = f a (f b c)" "\<And>a b. f a b = f b a"
  shows "comp_fun_commute f" "f a (fold_mset f b M) = f b (fold_mset f a M)"
proof -
  have lc: "f a (f b c) = f b (f a c)" for a b c by (metis assms)
  then show cc: "comp_fun_commute f" by unfold_locales (simp add: fun_eq_iff)
  show "f a (fold_mset f b M) = f b (fold_mset f a M)"
  proof (induction M)
    case empty
    show ?case unfolding fold_mset_empty by (rule assms(2))
  next
    case (add z M)
    then show ?case unfolding comp_fun_commute.fold_mset_add_mset [OF cc] lc [of a z] lc [of b z] by simp
  qed
qed

lemma fold_mset_eq:
  assumes "\<And>a b c. f (f a b) c = f a (f b c)" "\<And>a b. f a b = f b a" "add_mset a M = add_mset b N"
  shows "fold_mset f a M = fold_mset f b N"
proof (cases "a = b")
  case True
  then show ?thesis using assms(3) by simp
next
  case False
  then obtain K where K: "M = add_mset b K" "N = add_mset a K" using assms(3) by (auto simp: add_eq_conv_ex)
  show ?thesis unfolding K comp_fun_commute.fold_mset_add_mset [OF fold_mset_start(1) [OF assms(1,2)]]
    by (rule fold_mset_start(2) [OF assms(1,2)])
qed

lemma ring_partial_mset:
  assumes "\<And>a b c. f (f a b) c = f a (f b c)" "\<And>a b. f a b = f b a"
  shows "ring_partial f n y c k = fold_mset f (y ((c + n - 1) mod n)) (image_mset (\<lambda>i. y ((c + i) mod n)) (mset_set {..<k}))"
  by (induction k) (simp_all add: lessThan_Suc comp_fun_commute.fold_mset_add_mset [OF fold_mset_start(1) [OF assms]])

lemma fold_fold_mset:
  assumes "comp_fun_commute f"
  shows "fold f ys a = fold_mset f a (mset ys)"
  by (induction ys arbitrary: a)
    (simp_all add: comp_fun_commute.fold_mset_add_mset [OF assms] comp_fun_commute.fold_mset_fun_left_comm [OF assms])

lemma rotate_image:
  fixes n :: nat
  assumes "0 < n"
  shows "image_mset (\<lambda>i. (c + i) mod n) (mset_set {..<n}) = mset_set {..<n}"
proof -
  have inj: "inj_on (\<lambda>i. (c + i) mod n) {..<n}" by (rule inj_onI) (rule ring_index_inj [of _ n _ c], simp_all)
  have "(\<lambda>i. (c + i) mod n) ` {..<n} = {..<n}"
    by (rule card_subset_eq) (use assms in \<open>auto simp: card_image [OF inj]\<close>)
  then show ?thesis by (simp add: image_mset_mset_set [OF inj])
qed

lemma ring_total_ranks:
  assumes ac: "\<And>a b c. f (f a b) c = f a (f b c)" "\<And>a b. f a b = f b a" and n: "0 < n"
  shows "ring_total f n y c = reduce_ranks f n y"
proof -
  have all: "add_mset (y ((c + n - 1) mod n)) (image_mset (\<lambda>i. y ((c + i) mod n)) (mset_set {..<n - 1})) = image_mset y (mset_set {..<n})"
  proof -
    have "{..<n} = insert (n - 1) {..<n - 1}" using n by auto
    then have "mset_set {..<n} = add_mset (n - 1) (mset_set {..<n - 1})" by simp
    then have "image_mset (\<lambda>i. y ((c + i) mod n)) (mset_set {..<n})
        = add_mset (y ((c + n - 1) mod n)) (image_mset (\<lambda>i. y ((c + i) mod n)) (mset_set {..<n - 1}))" using n by simp
    then show ?thesis using arg_cong [OF rotate_image [OF n, of c], of "image_mset y"] by (simp add: image_mset.compositionality comp_def)
  qed
  have "mset (map y [0..<n]) = add_mset (y 0) (mset (map y [1..<n]))" using n by (simp add: upt_conv_Cons)
  then have "image_mset y (mset_set {..<n}) = add_mset (y 0) (mset (map y [1..<n]))" by (simp add: atLeast0LessThan)
  then show ?thesis unfolding ring_total_def reduce_ranks_def ring_partial_mset [OF ac] fold_fold_mset [OF fold_mset_start(1) [OF ac]]
    using all by (intro fold_mset_eq [OF ac]) simp
qed

section \<open>Progress\<close>

text \<open>Every step adds one to the progress of the ring, and a PE that has returned has made \<open>3 * K + 2\<close> steps, where \<open>K\<close> is the number of its iterations.\<close>

primrec stage_no :: "ring_stage \<Rightarrow> nat" where
  "stage_no Copying = 0"
| "stage_no Sending = 1"
| "stage_no Signalling = 2"
| "stage_no Waiting = 3"
| "stage_no Finished = 2"

definition pe_progress :: "'a ring_state \<Rightarrow> nat \<Rightarrow> nat" where
  "pe_progress s p = 3 * rpos s p + stage_no (rstage s p)"

definition ring_progress :: "nat \<Rightarrow> 'a ring_state \<Rightarrow> nat" where
  "ring_progress n s = (\<Sum>p<n. pe_progress s p)"

lemma ring_progress_step:
  assumes "ring_step f n n_seg x s s'"
  shows "ring_progress n s' = Suc (ring_progress n s)"
proof -
  have one: "ring_progress n s' = Suc (ring_progress n s)"
    if "p < n" "pe_progress s' p = Suc (pe_progress s p)" "\<And>q. q \<noteq> p \<Longrightarrow> pe_progress s' q = pe_progress s q" for p
    using that by (simp add: ring_progress_def sum.remove [of "{..<n}" p])
  from assms show ?thesis
  proof cases
    case (step_copy p)
    then show ?thesis by (intro one [of p]) (simp_all add: pe_progress_def ring_copy_frame)
  next
    case (step_send p)
    then show ?thesis by (intro one [of p]) (simp_all add: pe_progress_def ring_send_frame)
  next
    case (step_signal p)
    then show ?thesis by (intro one [of p]) (simp_all add: pe_progress_def ring_signal_frame)
  next
    case (step_receive p)
    then show ?thesis by (intro one [of p]) (simp_all add: pe_progress_def ring_receive_frame)
  next
    case (step_reset p)
    then show ?thesis by (intro one [of p]) (simp_all add: pe_progress_def ring_reset_frame)
  qed
qed

lemma pe_progress_bound:
  assumes "pos_inv n n_seg s" "p < n"
  shows "pe_progress s p \<le> 3 * (n_seg * (2 * n - 2)) + 2 \<and> (pe_progress s p = 3 * (n_seg * (2 * n - 2)) + 2 \<longleftrightarrow> rstage s p = Finished)"
  using pos_invD [OF assms] by (cases "rstage s p") (auto simp: pe_progress_def)

lemma ring_progress_bound:
  assumes "pos_inv n n_seg s"
  shows "ring_progress n s \<le> n * (3 * (n_seg * (2 * n - 2)) + 2) \<and> (ring_progress n s = n * (3 * (n_seg * (2 * n - 2)) + 2) \<longleftrightarrow> ring_done n s)"
  unfolding ring_progress_def ring_done_def using pe_progress_bound [OF assms] by (rule sum_at_bound)

lemma ring_not_stuck:
  assumes inv: "ring_inv f n n_seg x s" and n: "2 \<le> n" and stuck: "\<nexists>s'. ring_step f n n_seg x s s'"
  shows "ring_done n s"
proof (rule ccontr)
  assume "\<not> ring_done n s"
  then obtain q where q: "q < n" "rstage s q \<noteq> Finished" by (auto simp: ring_done_def)
  have pos: "pos_inv n n_seg s" using inv by (simp add: ring_inv_def)
  have wait: "rstage s p = Waiting \<or> rstage s p = Finished" if p: "p < n" for p
  proof (cases "rstage s p")
    case Copying
    then show ?thesis using stuck step_copy [OF p] by blast
  next
    case Sending
    then show ?thesis using stuck step_send [OF p, of s n_seg] step_reset [OF p, of s n_seg] pos_invD(1) [OF pos p] by (metis le_neq_implies_less)
  next
    case Signalling
    then show ?thesis using stuck step_signal [OF p] by blast
  qed simp_all
  define p where "p = arg_min_on (rpos s) {..<n}"
  have p: "p < n" "\<And>r. r < n \<Longrightarrow> rpos s p \<le> rpos s r"
    using arg_min_if_finite [of "{..<n}" "rpos s"] q(1) unfolding p_def by (auto simp: lessThan_empty_iff not_less)
  have "rpos s q < n_seg * (2 * n - 2)" using wait [OF q(1)] q pos_invD(4) [OF pos] by blast
  then have small: "rpos s p < n_seg * (2 * n - 2)" using p(2) [OF q(1)] by simp
  then have st: "rstage s p = Waiting" using wait [OF p(1)] pos_invD(5) [OF pos p(1)] by auto
  have pr: "rpred n p < n" using n by (simp add: rpred_less)
  then have "rpos s p < rsig s (rpred n p)"
    using wait [OF pr] p(2) [OF pr] pos_invD(5) [OF pos pr] small by (auto simp: rsig_def)
  then show False using stuck step_receive [OF p(1) st flag_arrives [OF inv n p(1) st]] by blast
qed

lemma ring_init_progress: "ring_init n s \<Longrightarrow> ring_progress n s = 0"
  by (simp add: ring_progress_def pe_progress_def ring_init_def)

interpretation ring: progress_system "ring_init (Suc (Suc m))" "ring_step f (Suc (Suc m)) n_seg x" "ring_inv f (Suc (Suc m)) n_seg x"
  "ring_progress (Suc (Suc m))" "Suc (Suc m) * (3 * (n_seg * (2 * Suc (Suc m) - 2)) + 2)" "ring_done (Suc (Suc m))" for m f n_seg x
proof
  fix s :: "'a ring_state" assume inv: "ring_inv f (Suc (Suc m)) n_seg x s"
  have "2 \<le> Suc (Suc m)" by simp
  then show "\<nexists>t. ring_step f (Suc (Suc m)) n_seg x s t \<Longrightarrow> ring_done (Suc (Suc m)) s" by (rule ring_not_stuck [OF inv])
  have "pos_inv (Suc (Suc m)) n_seg s" using inv by (simp add: ring_inv_def)
  then show "ring_progress (Suc (Suc m)) s \<le> Suc (Suc m) * (3 * (n_seg * (2 * Suc (Suc m) - 2)) + 2) \<and>
    (ring_progress (Suc (Suc m)) s = Suc (Suc m) * (3 * (n_seg * (2 * Suc (Suc m) - 2)) + 2) \<longleftrightarrow> ring_done (Suc (Suc m)) s)"
    by (rule ring_progress_bound)
qed (auto intro: ring_inv_init ring_inv_step ring_init_progress ring_progress_step)

lemma two_Suc: "2 \<le> n \<Longrightarrow> \<exists>m. n = Suc (Suc m)"
  by (metis Suc_le_D numeral_2_eq_2 Suc_le_mono)

lemma ring_reachable_inv:
  assumes "2 \<le> n" "reachable (ring_init n) (ring_step f n n_seg x) s"
  shows "ring_inv f n n_seg x s"
  using two_Suc [OF assms(1)] assms(2) ring.reachable_inv by blast

section \<open>Properties\<close>

text \<open>C1. The ring all-reduce computes the reduction. Whatever the interleaving of the PEs, when a PE returns from the call every chunk of its
  destination holds the chunks of all PEs combined by the operation, in an order that depends on the chunk only: all PEs
  hold the same value, whatever the operation, and for an associative and commutative
  operation it is the reduction over the ranks in increasing order. The flags of the PE are back at \<open>ROCSHMEM_SYNC_VALUE\<close>,
  ready for the next call.\<close>

theorem ring_allreduce_correct:
  assumes "2 \<le> n" "reachable (ring_init n) (ring_step f n n_seg x) s" "p < n" "rstage s p = Finished" "g < n_seg * n"
  shows "rdst s p g = ring_total f n (\<lambda>q. x q g) (g mod n) \<and>
    ((\<forall>a b c. f (f a b) c = f a (f b c)) \<and> (\<forall>a b. f a b = f b a) \<longrightarrow> rdst s p g = reduce_ranks f n (\<lambda>q. x q g)) \<and>
    (\<forall>i<2 * n - 2. rsync s p i = ROCSHMEM_SYNC_VALUE)"
proof -
  have inv: "ring_inv f n n_seg x s" using ring_reachable_inv assms(1,2) .
  have g: "g div n * n + g mod n = g" "g mod n < n" "g div n < n_seg"
    using assms(1,5) by (simp_all add: less_mult_imp_div_less)
  have total: "rdst s p g = ring_total f n (\<lambda>q. x q g) (g mod n)"
    using finished_chunk [OF inv assms(1,3,4) g(2,3)] unfolding g(1) .
  moreover have "ring_total f n (\<lambda>q. x q g) (g mod n) = reduce_ranks f n (\<lambda>q. x q g)"
    if "\<forall>a b c. f (f a b) c = f a (f b c)" "\<forall>a b. f a b = f b a"
    using ring_total_ranks [of f n] that assms(1) by simp
  moreover have "\<forall>i<2 * n - 2. rsync s p i = ROCSHMEM_SYNC_VALUE"
    using inv assms(3,4) by (simp add: ring_inv_def flag_inv_def)
  ultimately show ?thesis by metis
qed

definition ring_start :: "'a \<Rightarrow> 'a ring_state" where
  "ring_start a = \<lparr>rdst = (\<lambda>_ _. a), rwrk = (\<lambda>_ _. a), rsync = (\<lambda>_ _. ROCSHMEM_SYNC_VALUE), rpos = (\<lambda>_. 0), rstage = (\<lambda>_. Copying)\<rparr>"

lemma ring_start_init: "ring_init n (ring_start a)"
  by (simp add: ring_init_def ring_start_def)

text \<open>Three PEs, two segments, addition: PE \<open>q\<close> contributes \<open>q + 10 * g\<close> to chunk \<open>g\<close>.\<close>

theorem ring_allreduce_correct_witness:
  "\<exists>s. reachable (ring_init 3) (ring_step (+) 3 2 (\<lambda>q g. q + 10 * g)) s \<and> rstage s 1 = Finished \<and> rdst s 1 4 = (123 :: nat)"
proof -
  obtain s where s: "reachable (ring_init 3) (ring_step (+) 3 2 (\<lambda>q g. q + 10 * g :: nat)) s" "ring_done 3 s"
    using ring.runs_to_end [OF ring_start_init, of 1 "(+)" 2 "\<lambda>q g. q + 10 * g :: nat"] by (auto simp: numeral_3_eq_3)
  then have "rstage s 1 = Finished" by (simp add: ring_done_def)
  then have "rdst s 1 4 = reduce_ranks (+) 3 (\<lambda>q. q + 10 * 4 :: nat)"
    using ring_allreduce_correct [OF _ s(1), of 1 4] by (simp add: add.commute)
  then show ?thesis using s(1) \<open>rstage s 1 = Finished\<close> by (auto simp: reduce_ranks_def upt_rec)
qed

text \<open>C6. The ring all-reduce completes. An execution stops only when all PEs have returned from the call, and every execution
  reaches that point after exactly \<open>n * (3 * K + 2)\<close> steps, where \<open>K = n_seg * (2 * n - 2)\<close> is the number of iterations of a PE.\<close>

theorem ring_completes:
  assumes "2 \<le> n" "ring_init n s0" "(ring_step f n n_seg x ^^ k) s0 s"
  shows "k \<le> n * (3 * (n_seg * (2 * n - 2)) + 2) \<and> ((\<nexists>s'. ring_step f n n_seg x s s') \<longleftrightarrow> ring_done n s) \<and>
    (ring_done n s \<longleftrightarrow> k = n * (3 * (n_seg * (2 * n - 2)) + 2))"
  using two_Suc [OF assms(1)] ring.completes assms(2,3) by blast

theorem ring_completes_witness:
  "\<exists>s'. ring_step (+) 4 1 (\<lambda>q g. g :: nat) (ring_start 0) s'"
proof -
  have "\<not> ring_done 4 (ring_start (0 :: nat))" by (auto simp: ring_done_def ring_start_def intro: exI [of _ 0])
  then show ?thesis using ring_completes [OF _ ring_start_init, of 4 0 "(+)" 1 "\<lambda>q g. g" 0 "ring_start (0 :: nat)"] by fastforce
qed

end
