(* ===== verification/Ipc_Direct.thy ===== *)
theory Ipc_Direct
  imports Ipc_Ring
begin

text \<open>
  The direct all-reduce of the IPC backend (\<open>internal_direct_allreduce_wg\<close> in
  \<open>src/ipc/context_ipc_tmpl_device.hpp\<close>), with which short vectors and remainders are reduced. Every PE puts its
  source into a slot of the work buffer of every other member and then sets a flag there; it reduces
  the slots in the order of the ranks as their flags arrive. Slots and flags are indexed by the
  number of the PE in the world, and at the end each PE resets as many flags as the team has members.
  Members are named by their rank in the team. A value stands for the whole vector.
\<close>

section \<open>The machine\<close>

datatype direct_stage = D_copy | D_put nat | D_flag nat | D_wait nat | D_return

record 'a direct_state =
  ddst :: "nat \<Rightarrow> 'a"
  dwrk :: "nat \<Rightarrow> nat \<Rightarrow> 'a"
  dsync :: "nat \<Rightarrow> nat \<Rightarrow> int"
  dstage :: "nat \<Rightarrow> direct_stage"

text \<open>The loops visit the members in the order of their ranks and skip the PE itself.\<close>

definition direct_copy :: "(nat \<Rightarrow> 'a) \<Rightarrow> nat \<Rightarrow> 'a direct_state \<Rightarrow> 'a direct_state" where
  "direct_copy x p s = s\<lparr>ddst := (ddst s)(p := x p), dstage := (dstage s)(p := D_put 0)\<rparr>"

definition direct_put :: "(nat \<Rightarrow> nat) \<Rightarrow> (nat \<Rightarrow> 'a) \<Rightarrow> nat \<Rightarrow> nat \<Rightarrow> 'a direct_state \<Rightarrow> 'a direct_state" where
  "direct_put pe x p k s =
     (if k = p then s\<lparr>dstage := (dstage s)(p := D_put (Suc k))\<rparr>
      else s\<lparr>dwrk := (dwrk s)(k := (dwrk s k)(pe p := x p)), dstage := (dstage s)(p := D_flag k)\<rparr>)"

definition direct_flag :: "(nat \<Rightarrow> nat) \<Rightarrow> nat \<Rightarrow> nat \<Rightarrow> 'a direct_state \<Rightarrow> 'a direct_state" where
  "direct_flag pe p k s = s\<lparr>dsync := (dsync s)(k := (dsync s k)(pe p := 1)), dstage := (dstage s)(p := D_put (Suc k))\<rparr>"

definition direct_receive :: "('a \<Rightarrow> 'a \<Rightarrow> 'a) \<Rightarrow> (nat \<Rightarrow> nat) \<Rightarrow> nat \<Rightarrow> nat \<Rightarrow> 'a direct_state \<Rightarrow> 'a direct_state" where
  "direct_receive f pe p k s =
     (let s' = (if k = p then s else s\<lparr>ddst := (ddst s)(p := f (ddst s p) (dwrk s p (pe k)))\<rparr>)
      in s'\<lparr>dstage := (dstage s)(p := D_wait (Suc k))\<rparr>)"

definition direct_reset :: "nat \<Rightarrow> nat \<Rightarrow> 'a direct_state \<Rightarrow> 'a direct_state" where
  "direct_reset n p s =
     s\<lparr>dsync := (dsync s)(p := (\<lambda>i. if i < n then ROCSHMEM_SYNC_VALUE else dsync s p i)), dstage := (dstage s)(p := D_return)\<rparr>"

text \<open>The next step of the PE of rank \<open>p\<close>; \<open>None\<close> while it waits for a flag and after its return.\<close>

definition internal_direct_allreduce_wg ::
  "('a \<Rightarrow> 'a \<Rightarrow> 'a) \<Rightarrow> nat \<Rightarrow> (nat \<Rightarrow> nat) \<Rightarrow> (nat \<Rightarrow> 'a) \<Rightarrow> nat \<Rightarrow> 'a direct_state \<Rightarrow> 'a direct_state option" where
  "internal_direct_allreduce_wg f n pe x p s =
     (case dstage s p of
        D_copy \<Rightarrow> Some (direct_copy x p s)
      | D_put k \<Rightarrow> Some (if k < n then direct_put pe x p k s else s\<lparr>dstage := (dstage s)(p := D_wait 0)\<rparr>)
      | D_flag k \<Rightarrow> Some (direct_flag pe p k s)
      | D_wait k \<Rightarrow> (if n \<le> k then Some (direct_reset n p s)
                    else if k = p \<or> dsync s p (pe k) = 1 then Some (direct_receive f pe p k s) else None)
      | D_return \<Rightarrow> None)"

inductive direct_step ::
  "('a \<Rightarrow> 'a \<Rightarrow> 'a) \<Rightarrow> nat \<Rightarrow> (nat \<Rightarrow> nat) \<Rightarrow> (nat \<Rightarrow> 'a) \<Rightarrow> 'a direct_state \<Rightarrow> 'a direct_state \<Rightarrow> bool" for f n pe x where
  direct_pe: "p < n \<Longrightarrow> internal_direct_allreduce_wg f n pe x p s = Some s' \<Longrightarrow> direct_step f n pe x s s'"

text \<open>A call starts with the flags of all other members clear.\<close>

definition direct_init :: "nat \<Rightarrow> (nat \<Rightarrow> nat) \<Rightarrow> 'a direct_state \<Rightarrow> bool" where
  "direct_init n pe s \<longleftrightarrow> (\<forall>p<n. dstage s p = D_copy \<and> (\<forall>q<n. dsync s p (pe q) = ROCSHMEM_SYNC_VALUE))"

definition direct_done :: "nat \<Rightarrow> 'a direct_state \<Rightarrow> bool" where
  "direct_done n s \<longleftrightarrow> (\<forall>p<n. dstage s p = D_return)"

section \<open>The invariant\<close>

text \<open>Whether a PE in a given stage has put its data and its flag to the member of rank \<open>k\<close>.\<close>

fun data_put :: "nat \<Rightarrow> direct_stage \<Rightarrow> bool" where
  "data_put k D_copy = False"
| "data_put k (D_put j) = (k < j)"
| "data_put k (D_flag j) = (k \<le> j)"
| "data_put k (D_wait j) = True"
| "data_put k D_return = True"

fun flag_put :: "nat \<Rightarrow> direct_stage \<Rightarrow> bool" where
  "flag_put k D_copy = False"
| "flag_put k (D_put j) = (k < j)"
| "flag_put k (D_flag j) = (k < j)"
| "flag_put k (D_wait j) = True"
| "flag_put k D_return = True"

primrec direct_acc :: "('a \<Rightarrow> 'a \<Rightarrow> 'a) \<Rightarrow> (nat \<Rightarrow> 'a) \<Rightarrow> nat \<Rightarrow> nat \<Rightarrow> 'a" where
  "direct_acc f x p 0 = x p"
| "direct_acc f x p (Suc k) = (if k = p then direct_acc f x p k else f (direct_acc f x p k) (x k))"

text \<open>What a PE has made of its destination, and which members it has received.\<close>

fun stage_dst :: "('a \<Rightarrow> 'a \<Rightarrow> 'a) \<Rightarrow> nat \<Rightarrow> (nat \<Rightarrow> 'a) \<Rightarrow> nat \<Rightarrow> direct_stage \<Rightarrow> 'a \<Rightarrow> bool" where
  "stage_dst f n x p D_copy v = True"
| "stage_dst f n x p (D_put j) v = (v = x p \<and> j \<le> n)"
| "stage_dst f n x p (D_flag j) v = (v = x p \<and> j < n \<and> j \<noteq> p)"
| "stage_dst f n x p (D_wait j) v = (v = direct_acc f x p j \<and> j \<le> n)"
| "stage_dst f n x p D_return v = (v = direct_acc f x p n)"

fun received :: "nat \<Rightarrow> direct_stage \<Rightarrow> bool" where
  "received k (D_wait j) = (k < j)"
| "received k D_return = True"
| "received k _ = False"

text \<open>The slot and the flag of the sender \<open>b\<close> at the receiver \<open>a\<close>, given the stages of both.\<close>

definition link_ok :: "nat \<Rightarrow> nat \<Rightarrow> nat \<Rightarrow> nat \<Rightarrow> direct_stage \<Rightarrow> direct_stage \<Rightarrow> 'a \<Rightarrow> 'a \<Rightarrow> int \<Rightarrow> bool" where
  "link_ok n a b peb sa sb xb w fl \<longleftrightarrow>
     (data_put a sb \<longrightarrow> w = xb) \<and> (received b sa \<longrightarrow> flag_put a sb) \<and>
     fl = (if flag_put a sb \<and> \<not> (sa = D_return \<and> peb < n) then 1 else ROCSHMEM_SYNC_VALUE)"

definition direct_inv :: "('a \<Rightarrow> 'a \<Rightarrow> 'a) \<Rightarrow> nat \<Rightarrow> (nat \<Rightarrow> nat) \<Rightarrow> (nat \<Rightarrow> 'a) \<Rightarrow> 'a direct_state \<Rightarrow> bool" where
  "direct_inv f n pe x s \<longleftrightarrow> (\<forall>p<n. stage_dst f n x p (dstage s p) (ddst s p)) \<and>
     (\<forall>a<n. \<forall>b<n. a \<noteq> b \<longrightarrow> link_ok n a b (pe b) (dstage s a) (dstage s b) (x b) (dwrk s a (pe b)) (dsync s a (pe b)))"

lemma direct_inv_init: "direct_init n pe s \<Longrightarrow> direct_inv f n pe x s"
  by (simp add: direct_inv_def direct_init_def link_ok_def)

lemma direct_inv_intro:
  assumes inv: "direct_inv f n pe x s" and others: "\<And>q. q \<noteq> p \<Longrightarrow> dstage s' q = dstage s q \<and> ddst s' q = ddst s q"
    and slots: "\<And>a b. a < n \<Longrightarrow> b < n \<Longrightarrow> a \<noteq> p \<Longrightarrow> b \<noteq> p \<Longrightarrow> dwrk s' a (pe b) = dwrk s a (pe b) \<and> dsync s' a (pe b) = dsync s a (pe b)"
    and here: "stage_dst f n x p (dstage s' p) (ddst s' p)"
    and recv: "\<And>q. q < n \<Longrightarrow> q \<noteq> p \<Longrightarrow> link_ok n p q (pe q) (dstage s' p) (dstage s q) (x q) (dwrk s' p (pe q)) (dsync s' p (pe q))"
    and send: "\<And>q. q < n \<Longrightarrow> q \<noteq> p \<Longrightarrow> link_ok n q p (pe p) (dstage s q) (dstage s' p) (x p) (dwrk s' q (pe p)) (dsync s' q (pe p))"
  shows "direct_inv f n pe x s'"
  unfolding direct_inv_def
proof (intro conjI allI impI)
  fix q assume "q < n"
  then show "stage_dst f n x q (dstage s' q) (ddst s' q)" using inv others [of q] here by (cases "q = p") (simp_all add: direct_inv_def)
next
  fix a b assume ab: "a < n" "b < n" "a \<noteq> b"
  then have "link_ok n a b (pe b) (dstage s a) (dstage s b) (x b) (dwrk s a (pe b)) (dsync s a (pe b))" using inv by (simp add: direct_inv_def)
  then show "link_ok n a b (pe b) (dstage s' a) (dstage s' b) (x b) (dwrk s' a (pe b)) (dsync s' a (pe b))"
    using others [of a] others [of b] slots [OF ab(1,2)] recv [of b] send [of a] ab by (cases "a = p"; cases "b = p") simp_all
qed

lemma link_recv_cong:
  assumes "link_ok n a b peb sa sb xb w fl" "received b sa' = received b sa" "(sa' = D_return) = (sa = D_return)"
  shows "link_ok n a b peb sa' sb xb w fl"
  using assms by (simp add: link_ok_def)

lemma link_send_cong:
  assumes "link_ok n a b peb sa sb xb w fl" "data_put a sb' = data_put a sb" "flag_put a sb' = flag_put a sb"
  shows "link_ok n a b peb sa sb' xb w fl"
  using assms by (simp add: link_ok_def)

lemma link_put: "link_ok n a b peb sa (D_put a) xb w fl \<Longrightarrow> link_ok n a b peb sa (D_flag a) xb xb fl"
  by (simp add: link_ok_def)

lemma link_flag: "link_ok n a b peb sa (D_flag a) xb w fl \<Longrightarrow> link_ok n a b peb sa (D_put (Suc a)) xb w 1"
  by (auto simp: link_ok_def)

lemma link_receive:
  assumes "link_ok n a b peb (D_wait b) sb xb w 1"
  shows "link_ok n a b peb (D_wait (Suc b)) sb xb w 1" "w = xb"
  using assms by (cases sb; auto simp: link_ok_def ROCSHMEM_SYNC_VALUE_def split: if_splits)+

lemma link_reset:
  assumes "link_ok n a b peb (D_wait k) sb xb w fl" "b < k"
  shows "link_ok n a b peb D_return sb xb w (if peb < n then ROCSHMEM_SYNC_VALUE else fl)"
  using assms by (auto simp: link_ok_def)

lemma direct_inv_step:
  assumes inj: "inj_on pe {..<n}" and inv: "direct_inv f n pe x s" and step: "direct_step f n pe x s s'"
  shows "direct_inv f n pe x s'"
  using step
proof cases
  case (direct_pe p)
  have pe: "pe q = pe p \<longleftrightarrow> q = p" if "q < n" for q using inj_onD [OF inj] direct_pe(1) that by auto
  have dst: "stage_dst f n x p (dstage s p) (ddst s p)" using inv direct_pe(1) by (simp add: direct_inv_def)
  have recv: "link_ok n p q (pe q) (dstage s p) (dstage s q) (x q) (dwrk s p (pe q)) (dsync s p (pe q))"
    and send: "link_ok n q p (pe p) (dstage s q) (dstage s p) (x p) (dwrk s q (pe p)) (dsync s q (pe p))"
    if "q < n" "q \<noteq> p" for q using inv direct_pe(1) that by (simp_all add: direct_inv_def)
  show ?thesis
  proof (cases "dstage s p")
    case D_copy
    then have s': "s' = direct_copy x p s" using direct_pe(2) by (simp add: internal_direct_allreduce_wg_def)
    show ?thesis unfolding s' direct_copy_def
      by (rule direct_inv_intro [OF inv, of p]; simp)
        (rule link_recv_cong [OF recv] link_send_cong [OF send]; simp add: D_copy)+
  next
    case (D_put k)
    then consider "k = n" "s' = s\<lparr>dstage := (dstage s)(p := D_wait 0)\<rparr>" | "k = p" "s' = direct_put pe x p k s"
      | "k < n" "k \<noteq> p" "s' = direct_put pe x p k s"
      using direct_pe dst by (auto simp: internal_direct_allreduce_wg_def split: if_splits)
    then show ?thesis
    proof cases
      case 1
      show ?thesis unfolding 1(2)
        by (rule direct_inv_intro [OF inv, of p]; use dst D_put in simp)
          (rule link_recv_cong [OF recv] link_send_cong [OF send]; simp add: D_put 1(1))+
    next
      case 2
      show ?thesis unfolding 2(2) direct_put_def if_P [OF 2(1)]
        by (rule direct_inv_intro [OF inv, of p]; use dst D_put direct_pe(1) 2(1) in simp)
          (rule link_recv_cong [OF recv] link_send_cong [OF send]; simp add: D_put 2(1) less_Suc_eq)+
    next
      case 3
      have here: "link_ok n k p (pe p) (dstage s k) (D_flag k) (x p) (x p) (dsync s k (pe p))"
        using link_put [of n k p "pe p" "dstage s k"] send [OF 3(1,2)] D_put by simp
      have send': "link_ok n q p (pe p) (dstage s q) (D_flag k) (x p) (dwrk s q (pe p)) (dsync s q (pe p))"
        if "q < n" "q \<noteq> p" "q \<noteq> k" for q
        using link_send_cong [OF send [OF that(1,2)], of "D_flag k"] that(3) D_put by (auto simp: le_less)
      show ?thesis unfolding 3(3) direct_put_def if_not_P [OF 3(2)]
        by (rule direct_inv_intro [OF inv, of p]; use dst D_put 3 pe here send' in simp)
          (rule link_recv_cong [OF recv]; simp add: D_put)+
    qed
  next
    case (D_flag k)
    then have s': "s' = direct_flag pe p k s" using direct_pe(2) by (simp add: internal_direct_allreduce_wg_def)
    have k: "k < n" "k \<noteq> p" using dst D_flag by simp_all
    have here: "link_ok n k p (pe p) (dstage s k) (D_put (Suc k)) (x p) (dwrk s k (pe p)) 1"
      using link_flag [of n k p "pe p" "dstage s k"] send [OF k] D_flag by simp
    have send': "link_ok n q p (pe p) (dstage s q) (D_put (Suc k)) (x p) (dwrk s q (pe p)) (dsync s q (pe p))"
      if "q < n" "q \<noteq> p" "q \<noteq> k" for q
      using link_send_cong [OF send [OF that(1,2)], of "D_put (Suc k)"] that(3) D_flag by (auto simp: less_Suc_eq le_less)
    show ?thesis unfolding s' direct_flag_def
      by (rule direct_inv_intro [OF inv, of p]; use dst D_flag k pe here send' in simp)
        (rule link_recv_cong [OF recv]; simp add: D_flag)+
  next
    case (D_wait k)
    then consider "n \<le> k" "s' = direct_reset n p s" | "k < n" "k = p \<or> dsync s p (pe k) = 1" "s' = direct_receive f pe p k s"
      using direct_pe(2) by (auto simp: internal_direct_allreduce_wg_def split: if_splits)
    then show ?thesis
    proof cases
      case 1
      have recv': "link_ok n p q (pe q) D_return (dstage s q) (x q) (dwrk s p (pe q)) (if pe q < n then ROCSHMEM_SYNC_VALUE else dsync s p (pe q))"
        if "q < n" "q \<noteq> p" for q
        by (rule link_reset [OF recv [OF that, unfolded D_wait]]) (use 1(1) that in simp)
      show ?thesis unfolding 1(2) direct_reset_def
        by (rule direct_inv_intro [OF inv, of p]; use dst D_wait 1(1) recv' in \<open>simp split del: if_split\<close>)
          (rule link_send_cong [OF send]; simp add: D_wait)+
    next
      case 2
      have recv': "link_ok n p q (pe q) (D_wait (Suc k)) (dstage s q) (x q) (dwrk s p (pe q)) (dsync s p (pe q))"
        if "q < n" "q \<noteq> p" for q
        using link_receive(1) [of n p k "pe k"] link_recv_cong [OF recv [OF that], of "D_wait (Suc k)"] recv [OF that] D_wait 2(2) that
        by (cases "q = k") (auto simp: less_Suc_eq)
      have "k \<noteq> p \<Longrightarrow> dwrk s p (pe k) = x k" using link_receive(2) [of n p k "pe k" "dstage s k"] recv [of k] D_wait 2 by simp
      moreover have "link_ok n q p (pe p) (dstage s q) (D_wait (Suc k)) (x p) (dwrk s q (pe p)) (dsync s q (pe p))"
        if "q < n" "q \<noteq> p" for q by (rule link_send_cong [OF send [OF that]]) (simp_all add: D_wait)
      ultimately show ?thesis unfolding 2(3) direct_receive_def Let_def
        by (cases "k = p"; intro direct_inv_intro [OF inv, of p]; use dst D_wait 2(1) recv' in simp)
    qed
  next
    case D_return
    then show ?thesis using direct_pe(2) by (simp add: internal_direct_allreduce_wg_def)
  qed
qed

lemma team_pe_inj: "inj_on (team_pe start (Suc d)) A"
  by (auto simp: inj_on_def team_pe_def simp del: mult_Suc_right)

section \<open>Result and progress\<close>

lemma direct_acc_ranks:
  assumes ac: "\<And>a b c. f (f a b) c = f a (f b c)" "\<And>a b. f a b = f b a" and p: "p < n"
  shows "direct_acc f x p n = reduce_ranks f n x"
proof -
  have acc: "direct_acc f x p k = fold_mset f (x p) (image_mset x (mset_set ({..<k} - {p})))" for k
  proof (induction k)
    case (Suc k)
    have "{..<Suc k} - {p} = (if k = p then {..<k} - {p} else insert k ({..<k} - {p}))" by auto
    then show ?case using Suc comp_fun_commute.fold_mset_add_mset [OF fold_mset_start(1) [OF ac]] ac(2) by (cases "k = p") simp_all
  qed simp
  have "add_mset (x p) (image_mset x (mset_set ({..<n} - {p}))) = image_mset x (mset_set {..<n})"
    using p by (simp add: mset_set.remove [of "{..<n}" p])
  moreover have "mset (map x [0..<n]) = add_mset (x 0) (mset (map x [1..<n]))" using p by (simp add: upt_conv_Cons)
  then have "image_mset x (mset_set {..<n}) = add_mset (x 0) (mset (map x [1..<n]))" by (simp add: atLeast0LessThan)
  ultimately show ?thesis unfolding acc reduce_ranks_def fold_fold_mset [OF fold_mset_start(1) [OF ac]]
    by (intro fold_mset_eq [OF ac]) simp
qed

text \<open>The number of steps that a PE has made; each step of a PE adds one.\<close>

fun direct_steps :: "nat \<Rightarrow> nat \<Rightarrow> direct_stage \<Rightarrow> nat" where
  "direct_steps n p D_copy = 0"
| "direct_steps n p (D_put k) = 1 + 2 * k - (if p < k then 1 else 0)"
| "direct_steps n p (D_flag k) = 2 + 2 * k - (if p < k then 1 else 0)"
| "direct_steps n p (D_wait k) = 1 + 2 * n + k"
| "direct_steps n p D_return = 2 + 3 * n"

definition direct_progress :: "nat \<Rightarrow> 'a direct_state \<Rightarrow> nat" where
  "direct_progress n s = (\<Sum>p<n. direct_steps n p (dstage s p))"

lemma direct_progress_step:
  assumes inv: "direct_inv f n pe x s" and step: "direct_step f n pe x s s'"
  shows "direct_progress n s' = Suc (direct_progress n s)"
  using step
proof cases
  case (direct_pe p)
  have dst: "stage_dst f n x p (dstage s p) (ddst s p)" using inv direct_pe(1) by (simp add: direct_inv_def)
  have "dstage s' q = dstage s q" if "q \<noteq> p" for q
    using direct_pe(2) that by (auto simp: internal_direct_allreduce_wg_def direct_copy_def direct_put_def direct_flag_def direct_receive_def
      direct_reset_def Let_def split: direct_stage.splits if_splits)
  moreover have "direct_steps n p (dstage s' p) = Suc (direct_steps n p (dstage s p))"
    using direct_pe dst by (auto simp: internal_direct_allreduce_wg_def direct_copy_def direct_put_def direct_flag_def direct_receive_def
      direct_reset_def Let_def split: direct_stage.splits if_splits)
  ultimately show ?thesis using direct_pe(1) by (simp add: direct_progress_def sum.remove [of "{..<n}" p])
qed

lemma direct_steps_bound:
  assumes "direct_inv f n pe x s" "p < n"
  shows "direct_steps n p (dstage s p) \<le> 2 + 3 * n \<and> (direct_steps n p (dstage s p) = 2 + 3 * n \<longleftrightarrow> dstage s p = D_return)"
  using assms unfolding direct_inv_def by (cases "dstage s p") auto

lemma direct_progress_bound:
  assumes "direct_inv f n pe x s"
  shows "direct_progress n s \<le> n * (2 + 3 * n) \<and> (direct_progress n s = n * (2 + 3 * n) \<longleftrightarrow> direct_done n s)"
  unfolding direct_progress_def direct_done_def using direct_steps_bound [OF assms] by (rule sum_at_bound)

lemma direct_not_stuck:
  assumes inv: "direct_inv f n pe x s" and stuck: "\<nexists>s'. direct_step f n pe x s s'"
  shows "direct_done n s"
proof -
  have none: "internal_direct_allreduce_wg f n pe x p s = None" if "p < n" for p
    using stuck direct_pe [OF that] by (metis option.exhaust)
  have wait: "flag_put k (dstage s p)" if "p < n" for p k
    using none [OF that] by (cases "dstage s p") (auto simp: internal_direct_allreduce_wg_def)
  have "dstage s p = D_return" if p: "p < n" for p
  proof (cases "dstage s p")
    case (D_wait k)
    then have "k < n" "k \<noteq> p" "dsync s p (pe k) \<noteq> 1" using none [OF p] by (auto simp: internal_direct_allreduce_wg_def split: if_splits)
    then show ?thesis using inv p wait [of k p] D_wait unfolding direct_inv_def link_ok_def by (metis direct_stage.distinct(19))
  qed (use none [OF p] in \<open>auto simp: internal_direct_allreduce_wg_def\<close>)
  then show ?thesis by (simp add: direct_done_def)
qed

lemma direct_init_progress: "direct_init n pe s \<Longrightarrow> direct_progress n s = 0"
  by (simp add: direct_progress_def direct_init_def)

interpretation direct: progress_system "direct_init n (team_pe start (Suc d))" "direct_step f n (team_pe start (Suc d)) x"
  "direct_inv f n (team_pe start (Suc d)) x" "direct_progress n" "n * (2 + 3 * n)" "direct_done n" for n start d f x
  by unfold_locales
    (blast intro: direct_inv_init direct_inv_step [OF team_pe_inj] direct_init_progress direct_progress_step direct_not_stuck
      dest: direct_progress_bound)+

section \<open>Properties\<close>


definition direct_start :: "'a \<Rightarrow> 'a direct_state" where
  "direct_start a = \<lparr>ddst = (\<lambda>_. a), dwrk = (\<lambda>_ _. a), dsync = (\<lambda>_ _. ROCSHMEM_SYNC_VALUE), dstage = (\<lambda>_. D_copy)\<rparr>"

lemma direct_start_init: "direct_init n pe (direct_start a)"
  by (simp add: direct_init_def direct_start_def)

lemma direct_run_end:
  assumes "0 < stride"
  shows "\<exists>s :: 'a direct_state. reachable (direct_init n (team_pe start stride)) (direct_step f n (team_pe start stride) x) s \<and> direct_done n s"
  using assms direct.runs_to_end [OF direct_start_init] gr0_implies_Suc by blast


text \<open>The direct all-reduce completes. An execution of a team of \<open>n\<close> PEs stops only when all PEs have returned, and every execution
  reaches that point after exactly \<open>n * (2 + 3 * n)\<close> steps.\<close>

theorem direct_allreduce_completes:
  assumes "0 < stride" "direct_init n (team_pe start stride) s0" "(direct_step f n (team_pe start stride) x ^^ k) s0 s"
  shows "k \<le> n * (2 + 3 * n) \<and> ((\<nexists>s'. direct_step f n (team_pe start stride) x s s') \<longleftrightarrow> direct_done n s) \<and>
    (direct_done n s \<longleftrightarrow> k = n * (2 + 3 * n))"
  using gr0_implies_Suc [OF assms(1)] direct.completes assms(2,3) by blast

theorem direct_allreduce_completes_witness:
  "\<exists>s'. direct_step (+) 4 (team_pe 0 1) (\<lambda>q. q) (direct_start (0 :: nat)) s'"
proof -
  have "\<not> direct_done 4 (direct_start (0 :: nat))" by (auto simp: direct_done_def direct_start_def intro: exI [of _ 0])
  then show ?thesis
    using direct_allreduce_completes [where stride = 1 and n = 4 and start = 0 and f = "(+)" and x = "\<lambda>q. q" and k = 0, OF _ direct_start_init]
    by fastforce
qed

text \<open>The next call of the same team: the flags, the slots and the destination are as the previous call has left them.\<close>

definition direct_again :: "'a direct_state \<Rightarrow> 'a direct_state" where
  "direct_again s = s\<lparr>dstage := (\<lambda>_. D_copy)\<rparr>"

primrec direct_run :: "('a \<Rightarrow> 'a \<Rightarrow> 'a) \<Rightarrow> nat \<Rightarrow> (nat \<Rightarrow> nat) \<Rightarrow> (nat \<Rightarrow> 'a) \<Rightarrow> nat list \<Rightarrow> 'a direct_state \<Rightarrow> 'a direct_state option" where
  "direct_run f n pe x [] s = Some s"
| "direct_run f n pe x (p # ps) s = Option.bind (internal_direct_allreduce_wg f n pe x p s) (direct_run f n pe x ps)"

text \<open>C20. The flags that are left make the next call wrong. In every team of two PEs other than the PEs 0 and 1 the
  flag of the second PE is still set after a completed call. In the next call the first PE therefore need not wait: it can return before the
  second PE has done anything, with the vector that the second PE contributed to the previous call.\<close>

theorem direct_allreduce_stale_flag:
  assumes "0 < stride" "2 \<le> start + stride"
    and "reachable (direct_init 2 (team_pe start stride)) (direct_step f 2 (team_pe start stride) x) s" "direct_done 2 s"
  shows "\<exists>t. direct_run f 2 (team_pe start stride) y [0, 0, 0, 0, 0, 0, 0, 0] (direct_again s) = Some t \<and>
    dstage t 0 = D_return \<and> dstage t 1 = D_copy \<and> ddst t 0 = f (y 0) (x 1)"
proof -
  obtain d where "stride = Suc d" using assms(1) gr0_implies_Suc by blast
  then have inv: "direct_inv f 2 (team_pe start stride) x s" using direct.reachable_inv assms(3) by blast
  have "dsync s 0 (start + stride) = 1" "dwrk s 0 (start + stride) = x 1"
    using inv [unfolded direct_inv_def, THEN conjunct2, rule_format, of 0 1] assms(2,4) by (auto simp: direct_done_def link_ok_def team_pe_def)
  then show ?thesis using assms(1)
    by (simp add: direct_again_def internal_direct_allreduce_wg_def direct_copy_def direct_put_def direct_flag_def direct_receive_def
      direct_reset_def team_pe_def numeral_2_eq_2)
qed

theorem direct_allreduce_stale_flag_witness:
  "\<exists>s t. direct_done 2 s \<and> direct_run (+) 2 (team_pe 2 1) (\<lambda>q. 100 * q) [0, 0, 0, 0, 0, 0, 0, 0] (direct_again s) = Some t \<and>
     ddst t 0 = (6 :: nat)"
proof -
  obtain s where s: "reachable (direct_init 2 (team_pe 2 1)) (direct_step (+) 2 (team_pe 2 1) (\<lambda>q. q + 5 :: nat)) s" "direct_done 2 s"
    using direct_run_end [of 1] by fastforce
  then show ?thesis using direct_allreduce_stale_flag [of 1 2 "(+)" "\<lambda>q. q + 5 :: nat" s "\<lambda>q. 100 * q"] by auto
qed

end
