(* ===== verification/Ipc_Reduce.thy ===== *)
theory Ipc_Reduce
  imports Ipc_Direct Ro_Commands
begin

text \<open>
  The reductions of the IPC backend on a team: the operations (\<open>OpWrap::Calc\<close> in \<open>src/rocshmem_calc.hpp\<close>), and how \<open>reduce_wg\<close>
  (\<open>src/ipc/context_ipc_tmpl_device.hpp\<close>) and its replacement \<open>reduce_das\<close> (\<open>src/ipc/context_ipc_tmpl_device_das.hpp\<close>)
  split a vector into calls of the ring and of the direct all-reduce. A plan is the list of these calls, with the team
  barriers between them. The theorems show that the calls of a plan cover every element exactly once and stay within the
  work buffer and the flags of the team, that \<open>reduce_wg\<close> reduces every element, and that the calls of \<open>reduce_das\<close>, which have no
  barrier between them, can deadlock.
\<close>

unbundle bit_operations_syntax

section \<open>The operations\<close>

text \<open>\<open>Calc oper d v\<close> is the new element of the destination, for the unsigned types. For an operation
  without a specialisation the template does nothing.\<close>

fun Calc :: "rocshmem_op \<Rightarrow> 'w :: len word \<Rightarrow> 'w word \<Rightarrow> 'w word" where
  "Calc ROCSHMEM_SUM d v = d + v"
| "Calc ROCSHMEM_MAX d v = max d v"
| "Calc ROCSHMEM_MIN d v = min d v"
| "Calc ROCSHMEM_PROD d v = d * v"
| "Calc ROCSHMEM_AND d v = d AND v"
| "Calc ROCSHMEM_OR d v = d OR v"
| "Calc ROCSHMEM_XOR d v = d XOR v"
| "Calc ROCSHMEM_REPLACE d v = d"

lemma Calc_ac:
  assumes "oper \<noteq> ROCSHMEM_REPLACE"
  shows "Calc oper (Calc oper a b) c = Calc oper a (Calc oper b c)" "Calc oper a b = Calc oper b a"
  using assms by (cases oper; simp add: ac_simps max.assoc max.commute min.assoc min.commute)+

text \<open>The loop over the elements of a chunk, each done by one thread of the block.\<close>

definition ipc_compute_reduce :: "('a \<Rightarrow> 'a \<Rightarrow> 'a) \<Rightarrow> nat \<Rightarrow> (nat \<Rightarrow> 'a) \<Rightarrow> (nat \<Rightarrow> 'a) \<Rightarrow> nat \<Rightarrow> 'a" where
  "ipc_compute_reduce calc m d v = (\<lambda>i. if i < m then calc (d i) (v i) else d i)"

section \<open>The plans\<close>

definition ROCSHMEM_REDUCE_MIN_WRKDATA_SIZE :: nat where "ROCSHMEM_REDUCE_MIN_WRKDATA_SIZE = 1048576"
definition ROCSHMEM_REDUCE_SYNC_SIZE :: nat where "ROCSHMEM_REDUCE_SYNC_SIZE = 256"

text \<open>
  \<open>Ring_call off nelems n_seg seg_size chunk_size\<close> and \<open>Direct_call off nelems\<close> work on the elements from \<open>off\<close> on;
  \<open>Scatter_gather m\<close> reduces blocks of \<open>m\<close> elements, one for each PE, and gathers them.
\<close>

datatype reduce_call = Ring_call nat nat nat nat nat | Direct_call nat nat | Scatter_gather nat | Team_barrier

definition ring_calls :: "reduce_call list \<Rightarrow> nat \<Rightarrow> nat \<Rightarrow> reduce_call list" where
  "ring_calls sep PE_size nreduce =
     (let ring_pWrk = ROCSHMEM_REDUCE_MIN_WRKDATA_SIZE; chunk_size = ring_pWrk div PE_size; seg_size = chunk_size * PE_size;
          n_seg = nreduce div seg_size; n_seg_up = (nreduce - 1) div seg_size + 1;
          p_off = n_seg * seg_size; p_count = nreduce - n_seg * seg_size; p_chunk = p_count div PE_size
      in (if n_seg > 0 then [Ring_call 0 nreduce n_seg seg_size chunk_size] else []) @
         (if n_seg_up > n_seg
          then (if p_chunk > 0 then sep @ [Ring_call p_off (p_chunk * PE_size) 1 (p_chunk * PE_size) p_chunk] else []) @
               (if p_chunk * PE_size < p_count
                then sep @ [Direct_call (p_off + p_chunk * PE_size) (p_count - p_chunk * PE_size)] else [])
          else []))"

text \<open>\<open>Inl UB\<close> is the overflow of the \<open>int\<close> product \<open>PE_size * nreduce\<close>, \<open>Inr None\<close> the return of \<open>ROCSHMEM_ERROR\<close>.\<close>

definition reduce_wg :: "nat \<Rightarrow> nat \<Rightarrow> reduce_call list option result" where
  "reduce_wg PE_size nreduce =
     (if int_max < int (PE_size * nreduce) then Inl UB
      else let direct_pWrk = PE_size * nreduce; direct_pSync = PE_size; ring_pSync = 2 * PE_size;
               provided_pWrk = max (nreduce div 2 + 1) ROCSHMEM_REDUCE_MIN_WRKDATA_SIZE;
               provided_pSync = ROCSHMEM_REDUCE_SYNC_SIZE
           in if provided_pWrk \<ge> direct_pWrk \<and> provided_pSync \<ge> direct_pSync
              then Inr (Some [Direct_call 0 nreduce, Team_barrier])
              else if ring_pSync \<le> ROCSHMEM_REDUCE_SYNC_SIZE
              then Inr (Some (ring_calls [Team_barrier] PE_size nreduce @ [Team_barrier]))
              else Inr None)"

definition DIRECT_MAX_NELEMS :: nat where "DIRECT_MAX_NELEMS = 8192"

definition reduce_das :: "nat \<Rightarrow> nat \<Rightarrow> reduce_call list option result" where
  "reduce_das PE_size nreduce =
     (if int_max < int (PE_size * nreduce) then Inl UB
      else let direct_pWrk = PE_size * nreduce; direct_pSync = PE_size; ring_pSync = 2 * PE_size;
               provided_pWrk = ROCSHMEM_REDUCE_MIN_WRKDATA_SIZE; provided_pSync = ROCSHMEM_REDUCE_SYNC_SIZE;
               use_direct = provided_pWrk \<ge> direct_pWrk \<and> provided_pSync \<ge> direct_pSync \<and> nreduce \<le> DIRECT_MAX_NELEMS;
               use_reduce_scatter_allgather = \<not> use_direct \<and> nreduce mod PE_size = 0 \<and> nreduce div PE_size \<ge> 1024
           in if use_reduce_scatter_allgather then Inr (Some [Scatter_gather (nreduce div PE_size)])
              else if use_direct then Inr (Some [Direct_call 0 nreduce, Team_barrier])
              else if ring_pSync \<le> ROCSHMEM_REDUCE_SYNC_SIZE
              then Inr (Some (ring_calls [] PE_size nreduce @ [Team_barrier]))
              else Inr None)"

section \<open>Coverage and bounds\<close>

text \<open>The elements that a call reduces, and those that it writes.\<close>

fun reduced :: "nat \<Rightarrow> reduce_call \<Rightarrow> nat set" where
  "reduced n (Ring_call off ne n_seg seg ch) = {off..<off + n_seg * seg}"
| "reduced n (Direct_call off ne) = {off..<off + ne}"
| "reduced n (Scatter_gather m) = {0..<n * m}"
| "reduced n Team_barrier = {}"

text \<open>The conditions under which the calls of the ring and direct algorithms use the work buffer and the flags of the team within bounds: a segment, or the slots of
  all members, fit into the work buffer.\<close>

fun call_ok :: "nat \<Rightarrow> nat \<Rightarrow> reduce_call \<Rightarrow> bool" where
  "call_ok n nreduce (Ring_call off ne n_seg seg ch) \<longleftrightarrow>
     0 < ch \<and> seg = ch * n \<and> seg \<le> ROCSHMEM_REDUCE_MIN_WRKDATA_SIZE \<and> n_seg * seg \<le> ne \<and> off + ne \<le> nreduce \<and> 2 * n - 2 \<le> ROCSHMEM_REDUCE_SYNC_SIZE"
| "call_ok n nreduce (Direct_call off ne) \<longleftrightarrow> n * ne \<le> ROCSHMEM_REDUCE_MIN_WRKDATA_SIZE \<and> off + ne \<le> nreduce \<and> n \<le> ROCSHMEM_REDUCE_SYNC_SIZE"
| "call_ok n nreduce (Scatter_gather m) \<longleftrightarrow> n * m = nreduce"
| "call_ok n nreduce Team_barrier \<longleftrightarrow> True"

definition times_reduced :: "nat \<Rightarrow> nat \<Rightarrow> reduce_call list \<Rightarrow> nat" where
  "times_reduced n e plan = length (filter (\<lambda>call. e \<in> reduced n call) plan)"

lemma times_reduced_simps [simp]:
  "times_reduced n e [] = 0"
  "times_reduced n e (c # cs) = (if e \<in> reduced n c then 1 else 0) + times_reduced n e cs"
  "times_reduced n e (cs @ ds) = times_reduced n e cs + times_reduced n e ds"
  by (simp_all add: times_reduced_def)

lemma segment_size:
  assumes "0 < n" "2 * n \<le> ROCSHMEM_REDUCE_SYNC_SIZE"
  shows "0 < ROCSHMEM_REDUCE_MIN_WRKDATA_SIZE div n" "ROCSHMEM_REDUCE_MIN_WRKDATA_SIZE div n * n \<le> ROCSHMEM_REDUCE_MIN_WRKDATA_SIZE"
  using assms by (simp_all add: ROCSHMEM_REDUCE_SYNC_SIZE_def ROCSHMEM_REDUCE_MIN_WRKDATA_SIZE_def div_greater_zero_iff)

lemma ring_calls_exact:
  assumes n: "0 < n" "2 * n \<le> ROCSHMEM_REDUCE_SYNC_SIZE" and nr: "0 < nreduce" and sep: "set sep \<subseteq> {Team_barrier}"
  shows "times_reduced n e (ring_calls sep n nreduce) = (if e < nreduce then 1 else 0)" "list_all (call_ok n nreduce) (ring_calls sep n nreduce)"
proof -
  define seg where "seg = ROCSHMEM_REDUCE_MIN_WRKDATA_SIZE div n * n"
  define p_count where "p_count = nreduce - nreduce div seg * seg"
  define p_chunk where "p_chunk = p_count div n"
  have ch: "0 < ROCSHMEM_REDUCE_MIN_WRKDATA_SIZE div n" and le: "seg \<le> ROCSHMEM_REDUCE_MIN_WRKDATA_SIZE"
    using segment_size [OF n] by (simp_all add: seg_def)
  have seg: "0 < seg" using ch n(1) by (simp add: seg_def)
  have split: "nreduce div seg * seg + p_count = nreduce" "p_count < seg" "p_chunk * n + (p_count - p_chunk * n) = p_count" "p_count - p_chunk * n < n"
    using seg n(1) by (simp_all add: p_count_def p_chunk_def minus_div_mult_eq_mod minus_mod_eq_div_mult [symmetric])
  have up: "nreduce div seg < (nreduce - 1) div seg + 1 \<longleftrightarrow> 0 < p_count"
  proof -
    have "nreduce div seg \<le> (nreduce - 1) div seg \<longleftrightarrow> nreduce div seg * seg \<le> nreduce - 1" using seg by (simp add: less_eq_div_iff_mult_less_eq)
    then show ?thesis using split(1) nr by linarith
  qed
  have quiet: "times_reduced n e sep = 0" "list_all (call_ok n nreduce) sep"
    using sep by (auto simp: times_reduced_def list_all_iff filter_empty_conv)
  have plan: "ring_calls sep n nreduce =
      (if nreduce div seg > 0 then [Ring_call 0 nreduce (nreduce div seg) seg (ROCSHMEM_REDUCE_MIN_WRKDATA_SIZE div n)] else []) @
      (if 0 < p_count
       then (if p_chunk > 0 then sep @ [Ring_call (nreduce div seg * seg) (p_chunk * n) 1 (p_chunk * n) p_chunk] else []) @
            (if p_chunk * n < p_count then sep @ [Direct_call (nreduce div seg * seg + p_chunk * n) (p_count - p_chunk * n)] else [])
       else [])"
    unfolding ring_calls_def Let_def seg_def [symmetric] p_count_def [symmetric] p_chunk_def [symmetric] up ..
  show "times_reduced n e (ring_calls sep n nreduce) = (if e < nreduce then 1 else 0)"
    unfolding plan using quiet(1) split by (cases "nreduce div seg = 0") (auto split: if_splits)
  have "n * (p_count - p_chunk * n) \<le> 128 * 128"
    using split(4) n(2) by (intro mult_le_mono) (simp_all add: ROCSHMEM_REDUCE_SYNC_SIZE_def)
  then have rest: "n * (p_count - p_chunk * n) \<le> ROCSHMEM_REDUCE_MIN_WRKDATA_SIZE" by (simp add: ROCSHMEM_REDUCE_MIN_WRKDATA_SIZE_def)
  have chunk: "p_chunk * n \<le> ROCSHMEM_REDUCE_MIN_WRKDATA_SIZE" using split le by linarith
  show "list_all (call_ok n nreduce) (ring_calls sep n nreduce)"
    unfolding plan using quiet(2) split le ch rest n(2) chunk by (auto simp: seg_def [symmetric])
qed

lemma direct_fits:
  assumes "0 < n" "n * nreduce \<le> max (nreduce div 2 + 1) ROCSHMEM_REDUCE_MIN_WRKDATA_SIZE"
  shows "n * nreduce \<le> ROCSHMEM_REDUCE_MIN_WRKDATA_SIZE"
proof (rule ccontr)
  assume big: "\<not> ?thesis"
  then have "n * nreduce \<le> nreduce div 2 + 1" using assms(2) by simp
  moreover have "nreduce \<le> n * nreduce" using assms(1) by simp
  ultimately have "nreduce \<le> 2" "n * nreduce \<le> 2" by linarith+
  then show False using big by (simp add: ROCSHMEM_REDUCE_MIN_WRKDATA_SIZE_def)
qed

lemma reduce_wg_cases:
  assumes "reduce_wg n nreduce = Inr (Some plan)" "0 < n" "0 < nreduce"
  obtains "plan = [Direct_call 0 nreduce, Team_barrier]" "call_ok n nreduce (Direct_call 0 nreduce)"
  | "plan = ring_calls [Team_barrier] n nreduce @ [Team_barrier]" "2 * n \<le> ROCSHMEM_REDUCE_SYNC_SIZE"
  using assms direct_fits [OF assms(2), of nreduce] by (auto simp: reduce_wg_def Let_def split: if_splits)

lemma reduce_das_cases:
  assumes "reduce_das n nreduce = Inr (Some plan)" "0 < n" "0 < nreduce"
  obtains "plan = [Direct_call 0 nreduce, Team_barrier]" "call_ok n nreduce (Direct_call 0 nreduce)"
  | "plan = [Scatter_gather (nreduce div n)]" "n * (nreduce div n) = nreduce"
  | "plan = ring_calls [] n nreduce @ [Team_barrier]" "2 * n \<le> ROCSHMEM_REDUCE_SYNC_SIZE"
  using assms by (auto simp: reduce_das_def Let_def dvd_mult_div_cancel [OF mod_0_imp_dvd] split: if_splits)

section \<open>Elements\<close>

text \<open>A chunk of the ring is a vector of \<open>chunk_size\<close> elements: chunk \<open>g\<close> holds the elements from \<open>off + g * chunk_size\<close> on.\<close>

definition chunks_of :: "nat \<Rightarrow> nat \<Rightarrow> (nat \<Rightarrow> nat \<Rightarrow> 'a) \<Rightarrow> nat \<Rightarrow> nat \<Rightarrow> nat \<Rightarrow> 'a" where
  "chunks_of off ch contrib q g = (\<lambda>j. contrib q (off + g * ch + j))"

text \<open>What the call of the ring or of the direct algorithm makes of the destination of the PE of rank \<open>p\<close>: a PE that has returned from the machine of the algorithm,
  started by all PEs with clear flags, holds the elements in its chunks.\<close>

inductive call_run ::
  "('a \<Rightarrow> 'a \<Rightarrow> 'a) \<Rightarrow> nat \<Rightarrow> nat \<Rightarrow> nat \<Rightarrow> (nat \<Rightarrow> nat \<Rightarrow> 'a) \<Rightarrow> nat \<Rightarrow> reduce_call \<Rightarrow> (nat \<Rightarrow> 'a) \<Rightarrow> (nat \<Rightarrow> 'a) \<Rightarrow> bool"
  for calc n start stride contrib p where
  run_ring: "reachable (ring_init n) (ring_step (ipc_compute_reduce calc ch) n n_seg (chunks_of off ch contrib)) s \<Longrightarrow> rstage s p = Finished \<Longrightarrow>
    out' = (\<lambda>e. if off \<le> e \<and> e < off + n_seg * seg then rdst s p ((e - off) div ch) ((e - off) mod ch)
                else if off \<le> e \<and> e < off + ne then contrib p e else out e) \<Longrightarrow>
    call_run calc n start stride contrib p (Ring_call off ne n_seg seg ch) out out'"
| run_direct: "reachable (direct_init n (team_pe start stride))
      (direct_step (ipc_compute_reduce calc ne) n (team_pe start stride) (\<lambda>q j. contrib q (off + j))) s \<Longrightarrow> dstage s p = D_return \<Longrightarrow>
    out' = (\<lambda>e. if off \<le> e \<and> e < off + ne then ddst s p (e - off) else out e) \<Longrightarrow>
    call_run calc n start stride contrib p (Direct_call off ne) out out'"
| run_barrier: "call_run calc n start stride contrib p Team_barrier out out"

inductive_cases call_run_ring: "call_run calc n start stride contrib p (Ring_call off ne n_seg seg ch) out out'"
inductive_cases call_run_direct: "call_run calc n start stride contrib p (Direct_call off ne) out out'"
inductive_cases call_run_barrier: "call_run calc n start stride contrib p Team_barrier out out'"

inductive plan_run ::
  "('a \<Rightarrow> 'a \<Rightarrow> 'a) \<Rightarrow> nat \<Rightarrow> nat \<Rightarrow> nat \<Rightarrow> (nat \<Rightarrow> nat \<Rightarrow> 'a) \<Rightarrow> nat \<Rightarrow> reduce_call list \<Rightarrow> (nat \<Rightarrow> 'a) \<Rightarrow> (nat \<Rightarrow> 'a) \<Rightarrow> bool"
  for calc n start stride contrib p where
  run_nil: "plan_run calc n start stride contrib p [] out out"
| run_cons: "call_run calc n start stride contrib p c out out' \<Longrightarrow> plan_run calc n start stride contrib p cs out' out'' \<Longrightarrow>
    plan_run calc n start stride contrib p (c # cs) out out''"

inductive_cases plan_run_nil: "plan_run calc n start stride contrib p [] out out'"
inductive_cases plan_run_cons: "plan_run calc n start stride contrib p (c # cs) out out'"

lemma ipc_compute_reduce_apply: "j < m \<Longrightarrow> ipc_compute_reduce calc m d v j = calc (d j) (v j)"
  by (simp add: ipc_compute_reduce_def)

lemma ring_partial_element:
  assumes "j < m"
  shows "ring_partial (ipc_compute_reduce calc m) n y c k j = ring_partial calc n (\<lambda>q. y q j) c k"
  by (induction k) (simp_all add: ipc_compute_reduce_apply assms)

lemma direct_acc_element:
  assumes "j < m"
  shows "direct_acc (ipc_compute_reduce calc m) y p k j = direct_acc calc (\<lambda>q. y q j) p k"
proof (induction k)
  case (Suc k)
  then show ?case by (cases "k = p") (simp_all add: ipc_compute_reduce_apply assms)
qed simp

lemma ring_call_element:
  assumes ac: "\<And>a b c. calc (calc a b) c = calc a (calc b c)" "\<And>a b. calc a b = calc b a" and n: "2 \<le> n" "p < n"
    and ok: "call_ok n nreduce (Ring_call off ne n_seg seg ch)" and run: "call_run calc n start stride contrib p (Ring_call off ne n_seg seg ch) out out'"
  shows "out' e = (if e \<in> reduced n (Ring_call off ne n_seg seg ch) then reduce_ranks calc n (\<lambda>q. contrib q e)
    else if off \<le> e \<and> e < off + ne then contrib p e else out e)"
  using run
proof (rule call_run_ring)
  fix s
  assume reach: "reachable (ring_init n) (ring_step (ipc_compute_reduce calc ch) n n_seg (chunks_of off ch contrib)) s"
    and fin: "rstage s p = Finished"
    and out: "out' = (\<lambda>e. if off \<le> e \<and> e < off + n_seg * seg then rdst s p ((e - off) div ch) ((e - off) mod ch)
      else if off \<le> e \<and> e < off + ne then contrib p e else out e)"
  have "rdst s p ((e - off) div ch) ((e - off) mod ch) = reduce_ranks calc n (\<lambda>q. contrib q e)" if e: "off \<le> e" "e < off + n_seg * seg"
  proof -
    define g where "g = (e - off) div ch"
    have ch: "0 < ch" "seg = ch * n" using ok by simp_all
    have "e - off < (n_seg * n) * ch" using e ch(2) by (simp add: ac_simps)
    then have g: "g < n_seg * n" using ch(1) by (simp add: g_def less_mult_imp_div_less)
    then have "g div n < n_seg" "g mod n < n" "g div n * n + g mod n = g" using n(1) by (simp_all add: less_mult_imp_div_less)
    then have "rdst s p g = ring_total (ipc_compute_reduce calc ch) n (\<lambda>q. chunks_of off ch contrib q g) (g mod n)"
      using finished_chunk [OF ring_reachable_inv [OF n(1) reach] n(1,2) fin, of "g mod n" "g div n"] by simp
    then have "rdst s p g ((e - off) mod ch) = ring_total calc n (\<lambda>q. chunks_of off ch contrib q g ((e - off) mod ch)) (g mod n)"
      using ch(1) by (simp add: ring_total_def ring_partial_element)
    also have "\<dots> = ring_total calc n (\<lambda>q. contrib q e) (g mod n)" using e(1) by (simp add: chunks_of_def g_def add.assoc)
    also have "\<dots> = reduce_ranks calc n (\<lambda>q. contrib q e)" using ring_total_ranks [OF ac] n(1) by simp
    finally show ?thesis by (simp add: g_def)
  qed
  then show ?thesis unfolding out by simp
qed

lemma direct_call_element:
  assumes ac: "\<And>a b c. calc (calc a b) c = calc a (calc b c)" "\<And>a b. calc a b = calc b a" and n: "p < n" "0 < stride"
    and run: "call_run calc n start stride contrib p (Direct_call off ne) out out'"
  shows "out' e = (if e \<in> reduced n (Direct_call off ne) then reduce_ranks calc n (\<lambda>q. contrib q e) else out e)"
  using run
proof (rule call_run_direct)
  fix s
  assume reach: "reachable (direct_init n (team_pe start stride))
      (direct_step (ipc_compute_reduce calc ne) n (team_pe start stride) (\<lambda>q j. contrib q (off + j))) s"
    and ret: "dstage s p = D_return" and out: "out' = (\<lambda>e. if off \<le> e \<and> e < off + ne then ddst s p (e - off) else out e)"
  have inv: "direct_inv (ipc_compute_reduce calc ne) n (team_pe start stride) (\<lambda>q j. contrib q (off + j)) s"
    using direct.reachable_inv reach gr0_implies_Suc [OF n(2)] by blast
  have "ddst s p = direct_acc (ipc_compute_reduce calc ne) (\<lambda>q j. contrib q (off + j)) p n" using inv n(1) ret by (auto simp: direct_inv_def)
  then have "ddst s p (e - off) = reduce_ranks calc n (\<lambda>q. contrib q e)" if "off \<le> e" "e < off + ne"
  proof -
    have "off + (e - off) = e" "e - off < ne" using that by simp_all
    then show ?thesis
      using \<open>ddst s p = _\<close> direct_acc_element [of "e - off" ne calc "\<lambda>q j. contrib q (off + j)" p n] direct_acc_ranks [OF ac n(1)] by simp
  qed
  then show ?thesis unfolding out by auto
qed

text \<open>A plan whose calls are in bounds reduces each element in the call that covers it; no later call writes it, since it would reduce or copy only
  elements of its own range.\<close>

fun copied :: "reduce_call \<Rightarrow> nat set" where
  "copied (Ring_call off ne n_seg seg ch) = {off..<off + ne}"
| "copied (Direct_call off ne) = {off..<off + ne}"
| "copied _ = {}"

fun protected_after :: "nat \<Rightarrow> reduce_call list \<Rightarrow> bool" where
  "protected_after n [] = True"
| "protected_after n (c # cs) = ((\<forall>d\<in>set cs. reduced n c \<inter> copied d = {}) \<and> protected_after n cs)"

definition no_scatter :: "reduce_call \<Rightarrow> bool" where
  "no_scatter c \<longleftrightarrow> (\<forall>m. c \<noteq> Scatter_gather m)"

lemma call_element:
  assumes ac: "\<And>a b c. calc (calc a b) c = calc a (calc b c)" "\<And>a b. calc a b = calc b a" and n: "2 \<le> n" "p < n" "0 < stride"
    and ok: "call_ok n nreduce c" "no_scatter c" and run: "call_run calc n start stride contrib p c out out'"
  shows "(e \<in> reduced n c \<longrightarrow> out' e = reduce_ranks calc n (\<lambda>q. contrib q e)) \<and> (e \<notin> reduced n c \<union> copied c \<longrightarrow> out' e = out e)"
proof (cases c)
  case (Ring_call off ne n_seg seg ch)
  show ?thesis using ring_call_element [OF ac n(1,2) ok(1) [unfolded Ring_call] run [unfolded Ring_call]] unfolding Ring_call by auto
next
  case (Direct_call off ne)
  show ?thesis using direct_call_element [OF ac n(2,3) run [unfolded Direct_call]] unfolding Direct_call by auto
next
  case Team_barrier
  then show ?thesis using run call_run_barrier by fastforce
qed (use ok(2) in \<open>simp add: no_scatter_def\<close>)

lemma plan_element:
  assumes ac: "\<And>a b c. calc (calc a b) c = calc a (calc b c)" "\<And>a b. calc a b = calc b a" and n: "2 \<le> n" "p < n" "0 < stride"
  shows "plan_run calc n start stride contrib p cs out out' \<Longrightarrow> list_all (\<lambda>c. call_ok n nreduce c \<and> no_scatter c) cs \<Longrightarrow> protected_after n cs \<Longrightarrow>
    (0 < times_reduced n e cs \<longrightarrow> out' e = reduce_ranks calc n (\<lambda>q. contrib q e)) \<and>
    ((\<forall>c\<in>set cs. e \<notin> reduced n c \<union> copied c) \<longrightarrow> out' e = out e)"
proof (induction rule: plan_run.induct)
  case (run_cons c out out' cs out'')
  then have one: "(e \<in> reduced n c \<longrightarrow> out' e = reduce_ranks calc n (\<lambda>q. contrib q e)) \<and> (e \<notin> reduced n c \<union> copied c \<longrightarrow> out' e = out e)"
    using call_element [OF ac n, of nreduce c start contrib out out' e] by simp
  have IH: "(0 < times_reduced n e cs \<longrightarrow> out'' e = reduce_ranks calc n (\<lambda>q. contrib q e)) \<and>
    ((\<forall>c\<in>set cs. e \<notin> reduced n c \<union> copied c) \<longrightarrow> out'' e = out' e)" using run_cons by simp
  show ?case
  proof (cases "0 < times_reduced n e cs")
    case True
    then have "\<not> (\<forall>c\<in>set cs. e \<notin> reduced n c \<union> copied c)" by (auto simp: times_reduced_def filter_empty_conv)
    then show ?thesis using IH True by auto
  next
    case False
    then have "e \<notin> reduced n d" if "d \<in> set cs" for d using that by (auto simp: times_reduced_def filter_empty_conv)
    moreover have "e \<notin> copied d" if "d \<in> set cs" "e \<in> reduced n c" for d using run_cons.prems(2) that by auto
    ultimately show ?thesis using IH one False by auto
  qed
qed simp

lemma protected_calls:
  fixes plan n k S M N r c c' A B C D
  defines "plan \<equiv> ((if A then [Ring_call 0 N k S c] else []) @
    (if B then (if C then [Team_barrier] @ [Ring_call (k * S) M 1 M c'] else []) @ (if D then [Team_barrier] @ [Direct_call (k * S + M) r] else [])
     else [])) @ [Team_barrier]"
  shows "protected_after n plan" "list_all no_scatter plan"
  unfolding plan_def by (cases A; cases B; cases C; cases D; auto simp: no_scatter_def)+

lemma ring_calls_protected:
  "protected_after n (ring_calls [Team_barrier] n nreduce @ [Team_barrier])"
  "list_all no_scatter (ring_calls [Team_barrier] n nreduce @ [Team_barrier])"
  unfolding ring_calls_def Let_def by (rule protected_calls)+

section \<open>Ring calls without a barrier between them\<close>

text \<open>The next step of one PE; \<open>None\<close> while it waits for a flag and after its return.\<close>

definition ring_exec :: "('a \<Rightarrow> 'a \<Rightarrow> 'a) \<Rightarrow> nat \<Rightarrow> nat \<Rightarrow> (nat \<Rightarrow> nat \<Rightarrow> 'a) \<Rightarrow> nat \<Rightarrow> 'a ring_state \<Rightarrow> 'a ring_state option" where
  "ring_exec f n n_seg x p s =
     (case rstage s p of
        Copying \<Rightarrow> Some (ring_copy x p s)
      | Sending \<Rightarrow> Some (if rpos s p < n_seg * (2 * n - 2) then ring_send n p s else ring_reset n p s)
      | Signalling \<Rightarrow> Some (ring_signal n p s)
      | Waiting \<Rightarrow> (if rsync s p (iter_of n s p) = wait_val n (seg_of n s p) (iter_of n s p) then Some (ring_receive f n p s) else None)
      | Finished \<Rightarrow> None)"

lemma ring_exec_step:
  assumes "p < n" "rpos s p \<le> n_seg * (2 * n - 2)" "ring_exec f n n_seg x p s = Some s'"
  shows "ring_step f n n_seg x s s'"
  using assms step_copy [of p n s f n_seg x] step_send [of p n s n_seg f x] step_signal [of p n s f n_seg x]
    step_receive [of p n s f n_seg x] step_reset [of p n s n_seg f x]
  by (auto simp: ring_exec_def split: ring_stage.splits if_splits)

text \<open>Two calls one after the other, as \<open>reduce_das\<close> makes them: a PE that has returned from the first starts the second at once.
  Its flags are those of the team, so the machine keeps them. The elements play no role for the order of the steps;
  their type is \<open>unit\<close>.\<close>

type_synonym two_rings = "(nat \<Rightarrow> nat) \<times> unit ring_state"

definition two_rings_exec :: "nat \<Rightarrow> (nat \<Rightarrow> nat) \<Rightarrow> nat \<Rightarrow> two_rings \<Rightarrow> two_rings option" where
  "two_rings_exec n n_segs p st =
     (case st of (call_no, s) \<Rightarrow>
        if rstage s p = Finished
        then (if call_no p = 0 then Some (call_no(p := 1), s\<lparr>rpos := (rpos s)(p := 0), rstage := (rstage s)(p := Copying)\<rparr>) else None)
        else map_option (Pair call_no) (ring_exec (\<lambda>_ _. ()) n (n_segs (call_no p)) (\<lambda>_ _. ()) p s))"

primrec two_rings_run :: "nat \<Rightarrow> (nat \<Rightarrow> nat) \<Rightarrow> nat list \<Rightarrow> two_rings \<Rightarrow> two_rings option" where
  "two_rings_run n n_segs [] st = Some st"
| "two_rings_run n n_segs (p # ps) st = Option.bind (two_rings_exec n n_segs p st) (two_rings_run n n_segs ps)"

definition two_rings_stuck :: "nat \<Rightarrow> (nat \<Rightarrow> nat) \<Rightarrow> two_rings \<Rightarrow> bool" where
  "two_rings_stuck n n_segs st \<longleftrightarrow> (\<forall>p\<in>set [0..<n]. two_rings_exec n n_segs p st = None \<and> rstage (snd st) p \<noteq> Finished)"

section \<open>Properties\<close>




lemma direct_call_runs:
  assumes "0 < stride" "p < n"
  shows "\<exists>out'. call_run calc n start stride contrib p (Direct_call off ne) out out'"
proof -
  obtain s where s: "reachable (direct_init n (team_pe start stride))
      (direct_step (ipc_compute_reduce calc ne) n (team_pe start stride) (\<lambda>q j. contrib q (off + j))) s" "direct_done n s"
    using direct_run_end [OF assms(1)] by blast
  then have "dstage s p = D_return" using assms(2) by (simp add: direct_done_def)
  then show ?thesis by (intro exI) (rule run_direct [OF s(1) _ refl])
qed


text \<open>C13. Without a barrier between them two ring calls can deadlock. For 1048579 elements on two PEs \<open>reduce_das\<close> makes two ring calls in a row. There is a schedule, written as the
  list of the PEs that take the steps, after which no PE can take another step and none has returned from the second call: PE 0 enters the second call and
  sets the first flag of PE 1 while PE 1 is still in the first call, and PE 1 clears it at the end of that call.\<close>

theorem reduce_das_deadlock:
  "reduce_das 2 1048579 =
     Inr (Some [Ring_call 0 1048579 1 1048576 524288, Ring_call 1048576 2 1 2 1, Direct_call 1048578 1, Team_barrier]) \<and>
   (case two_rings_run 2 (\<lambda>_. 1) [0, 0, 0, 1, 1, 1, 0, 1, 0, 0, 1, 1, 0, 0, 0, 0, 0, 0, 1, 1, 1, 1, 1, 1, 0, 0, 0] ((\<lambda>_. 0), ring_start ()) of
      None \<Rightarrow> False | Some st \<Rightarrow> two_rings_stuck 2 (\<lambda>_. 1) st)"
proof
  show "reduce_das 2 1048579 =
     Inr (Some [Ring_call 0 1048579 1 1048576 524288, Ring_call 1048576 2 1 2 1, Direct_call 1048578 1, Team_barrier])"
    by (simp add: reduce_das_def ring_calls_def Let_def int_max_def ROCSHMEM_REDUCE_MIN_WRKDATA_SIZE_def ROCSHMEM_REDUCE_SYNC_SIZE_def DIRECT_MAX_NELEMS_def)
  show "case two_rings_run 2 (\<lambda>_. 1) [0, 0, 0, 1, 1, 1, 0, 1, 0, 0, 1, 1, 0, 0, 0, 0, 0, 0, 1, 1, 1, 1, 1, 1, 0, 0, 0] ((\<lambda>_. 0), ring_start ()) of
      None \<Rightarrow> False | Some st \<Rightarrow> two_rings_stuck 2 (\<lambda>_. 1) st"
    by code_simp
qed

end
