(* ===== verification/Ipc_Scatter.thy ===== *)
theory Ipc_Scatter
  imports Ipc_Reduce
begin

text \<open>
  The reduce-scatter of the DAS build (\<open>reduce_scatter_wg_das\<close> in \<open>src/ipc/context_ipc_tmpl_device_das.hpp\<close>). The block of a PE is
  processed in chunks. For each chunk a PE puts its contribution into a slot of the work buffer of every other PE and sets a flag to the
  generation of the chunk, waits for the flags of all others, reduces the slots into its destination, acknowledges
  every sender and waits for all acknowledgements before it reuses the slots. Generations count on from call to call, so the flags
  are never reset. Within a phase the peers are served by different wavefronts, or by a loop: the model lets them be served in any
  order. A value stands for a chunk; members are named by their rank.
\<close>

section \<open>The machine\<close>

datatype scatter_phase = P_send | P_wait | P_ack | P_ackwait | P_return

record 'a scatter_state =
  sdst :: "nat \<Rightarrow> nat \<Rightarrow> 'a"
  swrk :: "nat \<Rightarrow> nat \<Rightarrow> 'a"
  sflag :: "nat \<Rightarrow> nat \<Rightarrow> int"
  sack :: "nat \<Rightarrow> nat \<Rightarrow> int"
  spos :: "nat \<Rightarrow> nat"
  sphase :: "nat \<Rightarrow> scatter_phase"
  sput :: "nat \<Rightarrow> nat \<Rightarrow> bool"
  sdone :: "nat \<Rightarrow> nat \<Rightarrow> bool"

text \<open>\<open>sflag s p q\<close> and \<open>sack s p q\<close> are the entries \<open>q\<close> and \<open>pe_size + q\<close> of the flags of \<open>p\<close>. \<open>sdone s p k\<close> holds when \<open>p\<close> has served the peer \<open>k\<close> in its
  current phase, \<open>sput s p k\<close> when it has put the data of the current chunk to \<open>k\<close>.\<close>

definition scratch_slot :: "nat \<Rightarrow> nat \<Rightarrow> nat" where
  "scratch_slot team_rank remote_rank = team_rank - (if team_rank > remote_rank then 1 else 0)"

text \<open>Reservation of the generations of a call: \<open>num_chunks\<close> are added to the counter of the team.\<close>

definition first_flag :: "int \<Rightarrow> nat \<Rightarrow> int" where
  "first_flag gen num_chunks = (gen + int num_chunks) - int num_chunks + 1"

definition flag_val :: "int \<Rightarrow> nat \<Rightarrow> int" where
  "flag_val first chunk_index = first + int chunk_index"

definition num_chunks :: "nat \<Rightarrow> nat \<Rightarrow> nat" where
  "num_chunks elem_count chunk_size = (elem_count + chunk_size - 1) div chunk_size"

definition scatter_put :: "(nat \<Rightarrow> nat \<Rightarrow> nat \<Rightarrow> 'a) \<Rightarrow> nat \<Rightarrow> nat \<Rightarrow> 'a scatter_state \<Rightarrow> 'a scatter_state" where
  "scatter_put x p k s =
     s\<lparr>swrk := (swrk s)(k := (swrk s k)(scratch_slot p k := x p k (spos s p))), sput := (sput s)(p := (sput s p)(k := True))\<rparr>"

definition scatter_flag :: "int \<Rightarrow> nat \<Rightarrow> nat \<Rightarrow> 'a scatter_state \<Rightarrow> 'a scatter_state" where
  "scatter_flag first p k s =
     s\<lparr>sflag := (sflag s)(k := (sflag s k)(p := flag_val first (spos s p))), sdone := (sdone s)(p := (sdone s p)(k := True))\<rparr>"

definition scatter_see :: "nat \<Rightarrow> nat \<Rightarrow> 'a scatter_state \<Rightarrow> 'a scatter_state" where
  "scatter_see p k s = s\<lparr>sdone := (sdone s)(p := (sdone s p)(k := True))\<rparr>"

definition scatter_ack :: "int \<Rightarrow> nat \<Rightarrow> nat \<Rightarrow> 'a scatter_state \<Rightarrow> 'a scatter_state" where
  "scatter_ack first p k s =
     s\<lparr>sack := (sack s)(k := (sack s k)(p := flag_val first (spos s p))), sdone := (sdone s)(p := (sdone s p)(k := True))\<rparr>"

definition enter_phase :: "nat \<Rightarrow> scatter_phase \<Rightarrow> 'a scatter_state \<Rightarrow> 'a scatter_state" where
  "enter_phase p ph s = s\<lparr>sphase := (sphase s)(p := ph), sput := (sput s)(p := (\<lambda>_. False)), sdone := (sdone s)(p := (\<lambda>_. False))\<rparr>"

text \<open>The fused reduction: the PE's own contribution, then the slots of the others in the order of the ranks.\<close>

definition scatter_value :: "('a \<Rightarrow> 'a \<Rightarrow> 'a) \<Rightarrow> nat \<Rightarrow> (nat \<Rightarrow> nat \<Rightarrow> nat \<Rightarrow> 'a) \<Rightarrow> nat \<Rightarrow> 'a scatter_state \<Rightarrow> 'a" where
  "scatter_value calc n x p s = direct_acc calc (\<lambda>q. if q = p then x p p (spos s p) else swrk s p (scratch_slot q p)) p n"

definition scatter_reduce :: "('a \<Rightarrow> 'a \<Rightarrow> 'a) \<Rightarrow> nat \<Rightarrow> (nat \<Rightarrow> nat \<Rightarrow> nat \<Rightarrow> 'a) \<Rightarrow> nat \<Rightarrow> 'a scatter_state \<Rightarrow> 'a scatter_state" where
  "scatter_reduce calc n x p s = enter_phase p P_ack (s\<lparr>sdst := (sdst s)(p := (sdst s p)(spos s p := scatter_value calc n x p s))\<rparr>)"

definition scatter_next :: "nat \<Rightarrow> nat \<Rightarrow> 'a scatter_state \<Rightarrow> 'a scatter_state" where
  "scatter_next N p s = enter_phase p (if Suc (spos s p) < N then P_send else P_return) (s\<lparr>spos := (spos s)(p := Suc (spos s p))\<rparr>)"

definition all_served :: "nat \<Rightarrow> nat \<Rightarrow> 'a scatter_state \<Rightarrow> bool" where
  "all_served n p s \<longleftrightarrow> (\<forall>k<n. k \<noteq> p \<longrightarrow> sdone s p k)"

inductive scatter_step ::
  "('a \<Rightarrow> 'a \<Rightarrow> 'a) \<Rightarrow> nat \<Rightarrow> nat \<Rightarrow> int \<Rightarrow> (nat \<Rightarrow> nat \<Rightarrow> nat \<Rightarrow> 'a) \<Rightarrow> 'a scatter_state \<Rightarrow> 'a scatter_state \<Rightarrow> bool" for calc n N first x where
  sc_put: "p < n \<Longrightarrow> k < n \<Longrightarrow> k \<noteq> p \<Longrightarrow> sphase s p = P_send \<Longrightarrow> \<not> sput s p k \<Longrightarrow> scatter_step calc n N first x s (scatter_put x p k s)"
| sc_flag: "p < n \<Longrightarrow> k < n \<Longrightarrow> k \<noteq> p \<Longrightarrow> sphase s p = P_send \<Longrightarrow> sput s p k \<Longrightarrow> \<not> sdone s p k \<Longrightarrow>
    scatter_step calc n N first x s (scatter_flag first p k s)"
| sc_sent: "p < n \<Longrightarrow> sphase s p = P_send \<Longrightarrow> all_served n p s \<Longrightarrow> scatter_step calc n N first x s (enter_phase p P_wait s)"
| sc_wait: "p < n \<Longrightarrow> k < n \<Longrightarrow> k \<noteq> p \<Longrightarrow> sphase s p = P_wait \<Longrightarrow> \<not> sdone s p k \<Longrightarrow> sflag s p k = flag_val first (spos s p) \<Longrightarrow>
    scatter_step calc n N first x s (scatter_see p k s)"
| sc_reduce: "p < n \<Longrightarrow> sphase s p = P_wait \<Longrightarrow> all_served n p s \<Longrightarrow> scatter_step calc n N first x s (scatter_reduce calc n x p s)"
| sc_ack: "p < n \<Longrightarrow> k < n \<Longrightarrow> k \<noteq> p \<Longrightarrow> sphase s p = P_ack \<Longrightarrow> \<not> sdone s p k \<Longrightarrow> scatter_step calc n N first x s (scatter_ack first p k s)"
| sc_acked: "p < n \<Longrightarrow> sphase s p = P_ack \<Longrightarrow> all_served n p s \<Longrightarrow> scatter_step calc n N first x s (enter_phase p P_ackwait s)"
| sc_ackwait: "p < n \<Longrightarrow> k < n \<Longrightarrow> k \<noteq> p \<Longrightarrow> sphase s p = P_ackwait \<Longrightarrow> \<not> sdone s p k \<Longrightarrow> sack s p k = flag_val first (spos s p) \<Longrightarrow>
    scatter_step calc n N first x s (scatter_see p k s)"
| sc_next: "p < n \<Longrightarrow> sphase s p = P_ackwait \<Longrightarrow> all_served n p s \<Longrightarrow> scatter_step calc n N first x s (scatter_next N p s)"

text \<open>At the start all flags are from earlier generations.\<close>

definition scatter_init :: "nat \<Rightarrow> nat \<Rightarrow> int \<Rightarrow> 'a scatter_state \<Rightarrow> bool" where
  "scatter_init n N first s \<longleftrightarrow> (\<forall>p<n. spos s p = 0 \<and> sphase s p = (if 0 < N then P_send else P_return) \<and>
     (\<forall>k<n. \<not> sput s p k \<and> \<not> sdone s p k \<and> sflag s p k < first \<and> sack s p k < first))"

definition scatter_done :: "nat \<Rightarrow> 'a scatter_state \<Rightarrow> bool" where
  "scatter_done n s \<longleftrightarrow> (\<forall>p<n. sphase s p = P_return)"

section \<open>Counters\<close>

text \<open>How many chunks \<open>a\<close> has put to \<open>b\<close>, how many flags it has set there, how many flags of \<open>b\<close> it has seen,
  how many acknowledgements it has given to \<open>b\<close> and how many of \<open>b\<close> it has seen.\<close>

definition c_put :: "'a scatter_state \<Rightarrow> nat \<Rightarrow> nat \<Rightarrow> nat" where
  "c_put s a b = spos s a + (if sphase s a \<in> {P_wait, P_ack, P_ackwait} \<or> sphase s a = P_send \<and> sput s a b then 1 else 0)"

definition c_flag :: "'a scatter_state \<Rightarrow> nat \<Rightarrow> nat \<Rightarrow> nat" where
  "c_flag s a b = spos s a + (if sphase s a \<in> {P_wait, P_ack, P_ackwait} \<or> sphase s a = P_send \<and> sdone s a b then 1 else 0)"

definition c_seen :: "'a scatter_state \<Rightarrow> nat \<Rightarrow> nat \<Rightarrow> nat" where
  "c_seen s a b = spos s a + (if sphase s a \<in> {P_ack, P_ackwait} \<or> sphase s a = P_wait \<and> sdone s a b then 1 else 0)"

definition c_ack :: "'a scatter_state \<Rightarrow> nat \<Rightarrow> nat \<Rightarrow> nat" where
  "c_ack s a b = spos s a + (if sphase s a = P_ackwait \<or> sphase s a = P_ack \<and> sdone s a b then 1 else 0)"

definition c_acked :: "'a scatter_state \<Rightarrow> nat \<Rightarrow> nat \<Rightarrow> nat" where
  "c_acked s a b = spos s a + (if sphase s a = P_ackwait \<and> sdone s a b then 1 else 0)"

lemmas counters = c_put_def c_flag_def c_seen_def c_ack_def c_acked_def

definition flag_at :: "int \<Rightarrow> nat \<Rightarrow> int \<Rightarrow> bool" where
  "flag_at first c v \<longleftrightarrow> (if c = 0 then v < first else v = first + int c - 1)"

text \<open>The link from the sender \<open>q\<close> to the receiver \<open>p\<close>.\<close>

definition sc_link :: "int \<Rightarrow> (nat \<Rightarrow> nat \<Rightarrow> nat \<Rightarrow> 'a) \<Rightarrow> 'a scatter_state \<Rightarrow> nat \<Rightarrow> nat \<Rightarrow> bool" where
  "sc_link first x s q p \<longleftrightarrow> flag_at first (c_flag s q p) (sflag s p q) \<and> flag_at first (c_ack s p q) (sack s q p) \<and>
     c_seen s p q \<le> c_flag s q p \<and> c_acked s q p \<le> c_ack s p q \<and>
     (0 < c_put s q p \<longrightarrow> swrk s p (scratch_slot q p) = x q p (c_put s q p - 1))"

text \<open>What concerns one PE.\<close>

definition sc_local :: "('a \<Rightarrow> 'a \<Rightarrow> 'a) \<Rightarrow> nat \<Rightarrow> nat \<Rightarrow> (nat \<Rightarrow> nat \<Rightarrow> nat \<Rightarrow> 'a) \<Rightarrow> 'a scatter_state \<Rightarrow> nat \<Rightarrow> bool" where
  "sc_local calc n N x s p \<longleftrightarrow> (if sphase s p = P_return then spos s p = N else spos s p < N) \<and>
     (\<forall>k<n. sphase s p = P_send \<and> sdone s p k \<longrightarrow> sput s p k) \<and>
     (\<forall>c. c < spos s p + (if sphase s p \<in> {P_ack, P_ackwait} then 1 else 0) \<longrightarrow> sdst s p c = direct_acc calc (\<lambda>q. x q p c) p n)"

definition scatter_inv :: "('a \<Rightarrow> 'a \<Rightarrow> 'a) \<Rightarrow> nat \<Rightarrow> nat \<Rightarrow> int \<Rightarrow> (nat \<Rightarrow> nat \<Rightarrow> nat \<Rightarrow> 'a) \<Rightarrow> 'a scatter_state \<Rightarrow> bool" where
  "scatter_inv calc n N first x s \<longleftrightarrow> (\<forall>p<n. sc_local calc n N x s p) \<and> (\<forall>p<n. \<forall>q<n. p \<noteq> q \<longrightarrow> sc_link first x s q p)"

lemma scratch_slot_inj: "a \<noteq> k \<Longrightarrow> b \<noteq> k \<Longrightarrow> scratch_slot a k = scratch_slot b k \<longleftrightarrow> a = b"
  by (auto simp: scratch_slot_def)

lemma scatter_inv_init: "scatter_init n N first s \<Longrightarrow> scatter_inv calc n N first x s"
  by (auto simp: scatter_inv_def scatter_init_def sc_local_def sc_link_def counters flag_at_def)

definition same_pe :: "'a scatter_state \<Rightarrow> 'a scatter_state \<Rightarrow> nat \<Rightarrow> bool" where
  "same_pe s s' a \<longleftrightarrow> spos s' a = spos s a \<and> sphase s' a = sphase s a \<and> sput s' a = sput s a \<and> sdone s' a = sdone s a"

lemma same_counters:
  assumes "same_pe s s' a"
  shows "c_put s' a b = c_put s a b" "c_flag s' a b = c_flag s a b" "c_seen s' a b = c_seen s a b" "c_ack s' a b = c_ack s a b"
    "c_acked s' a b = c_acked s a b"
  using assms by (simp_all add: same_pe_def counters)

lemma scatter_inv_intro:
  assumes inv: "scatter_inv calc n N first x s" and p: "p < n"
    and others: "\<And>a. a \<noteq> p \<Longrightarrow> same_pe s s' a \<and> sdst s' a = sdst s a"
    and cells: "\<And>a b. a \<noteq> p \<Longrightarrow> b \<noteq> p \<Longrightarrow> a \<noteq> b \<Longrightarrow>
      sflag s' b a = sflag s b a \<and> sack s' a b = sack s a b \<and> swrk s' b (scratch_slot a b) = swrk s b (scratch_slot a b)"
    and here: "sc_local calc n N x s' p"
    and send: "\<And>k. k < n \<Longrightarrow> k \<noteq> p \<Longrightarrow> sc_link first x s' p k"
    and recv: "\<And>k. k < n \<Longrightarrow> k \<noteq> p \<Longrightarrow> sc_link first x s' k p"
  shows "scatter_inv calc n N first x s'"
  unfolding scatter_inv_def
proof (intro conjI allI impI)
  fix a assume a: "a < n"
  show "sc_local calc n N x s' a"
    using inv a here others [of a] by (cases "a = p") (simp_all add: scatter_inv_def sc_local_def same_pe_def)
next
  fix b a assume ab: "b < n" "a < n" "b \<noteq> a"
  show "sc_link first x s' a b"
  proof (cases "a = p \<or> b = p")
    case True
    then show ?thesis using send recv ab by auto
  next
    case False
    then have "sc_link first x s a b" using inv ab by (simp add: scatter_inv_def)
    moreover have "same_pe s s' a" "same_pe s s' b" using False others by auto
    ultimately show ?thesis
      using False cells [of a b] ab(3) unfolding sc_link_def by (simp add: same_counters [of s s' a] same_counters [of s s' b])
  qed
qed

text \<open>At the moment of the reduction every slot holds the contribution to the current chunk: the sender cannot have gone on
  without the acknowledgement of this PE.\<close>

lemma slots_ready:
  assumes inv: "scatter_inv calc n N first x s" and p: "p < n" and k: "k < n" "k \<noteq> p"
    and wait: "sphase s p = P_wait" "sdone s p k"
  shows "swrk s p (scratch_slot k p) = x k p (spos s p)"
proof -
  have link: "sc_link first x s k p" and loc: "sc_local calc n N x s k" using inv p k by (simp_all add: scatter_inv_def)
  have "spos s p + 1 \<le> c_flag s k p" using link wait by (simp add: sc_link_def c_seen_def)
  moreover have "c_flag s k p \<le> c_put s k p" using loc p by (auto simp: sc_local_def counters)
  moreover have "c_put s k p \<le> spos s k + 1" by (simp add: c_put_def)
  moreover have "spos s k \<le> spos s p"
  proof -
    have "c_acked s k p \<le> spos s p" using link wait by (simp add: sc_link_def c_ack_def)
    then show ?thesis by (simp add: c_acked_def)
  qed
  ultimately have "c_put s k p = spos s p + 1" by linarith
  then show ?thesis using link by (simp add: sc_link_def)
qed

lemma scatter_value_correct:
  assumes inv: "scatter_inv calc n N first x s" and p: "p < n" and wait: "sphase s p = P_wait" "all_served n p s"
  shows "scatter_value calc n x p s = direct_acc calc (\<lambda>q. x q p (spos s p)) p n"
proof -
  have "direct_acc calc (\<lambda>q. if q = p then x p p (spos s p) else swrk s p (scratch_slot q p)) p k = direct_acc calc (\<lambda>q. x q p (spos s p)) p k"
    if "k \<le> n" for k
    using that
  proof (induction k)
    case (Suc k)
    then show ?case using slots_ready [OF inv p _ _ wait(1), of k] wait(2) by (auto simp: all_served_def)
  qed simp
  then show ?thesis by (simp add: scatter_value_def)
qed

lemma sc_link_cong:
  assumes "sc_link first x s q p" "c_flag s' q p = c_flag s q p" "c_ack s' p q = c_ack s p q" "c_seen s' p q = c_seen s p q"
    "c_acked s' q p = c_acked s q p" "c_put s' q p = c_put s q p" "sflag s' p q = sflag s p q" "sack s' q p = sack s q p"
    "swrk s' p (scratch_slot q p) = swrk s p (scratch_slot q p)"
  shows "sc_link first x s' q p"
  using assms(1) unfolding sc_link_def assms(2-) .

lemma flag_at_val: "flag_at first c (flag_val first m) \<Longrightarrow> c = Suc m"
  by (auto simp: flag_at_def flag_val_def split: if_splits)

lemma flag_at_Suc: "flag_at first (Suc m) (flag_val first m)"
  by (simp add: flag_at_def flag_val_def)

lemma all_servedD: "all_served n p s \<Longrightarrow> k < n \<Longrightarrow> k \<noteq> p \<Longrightarrow> sdone s p k"
  by (simp add: all_served_def)

text \<open>One step, by the part of the invariant that it touches.\<close>

lemma inv_put:
  assumes inv: "scatter_inv calc n N first x s" and p: "p < n" "k < n" "k \<noteq> p" "sphase s p = P_send" "\<not> sput s p k"
  shows "scatter_inv calc n N first x (scatter_put x p k s)"
proof (rule scatter_inv_intro [OF inv p(1)])
  show "sc_local calc n N x (scatter_put x p k s) p" using inv p by (simp add: scatter_inv_def sc_local_def scatter_put_def)
  show "sc_link first x (scatter_put x p k s) p a" if a: "a < n" "a \<noteq> p" for a
  proof (cases "a = k")
    case True
    have "sc_link first x s p k" using inv p by (simp add: scatter_inv_def)
    then show ?thesis using True p by (simp add: sc_link_def counters scatter_put_def)
  next
    case False
    have "sc_link first x s p a" using inv p a by (simp add: scatter_inv_def)
    then show ?thesis by (rule sc_link_cong) (use p a False in \<open>simp_all add: counters scatter_put_def\<close>)
  qed
  show "sc_link first x (scatter_put x p k s) a p" if a: "a < n" "a \<noteq> p" for a
  proof -
    have "sc_link first x s a p" using inv p a by (simp add: scatter_inv_def)
    then show ?thesis by (rule sc_link_cong) (use p a in \<open>simp_all add: counters scatter_put_def\<close>)
  qed
qed (use p in \<open>auto simp: scatter_put_def same_pe_def scratch_slot_inj\<close>)

lemma inv_flag:
  assumes inv: "scatter_inv calc n N first x s" and p: "p < n" "k < n" "k \<noteq> p" "sphase s p = P_send" "sput s p k" "\<not> sdone s p k"
  shows "scatter_inv calc n N first x (scatter_flag first p k s)"
proof (rule scatter_inv_intro [OF inv p(1)])
  show "sc_local calc n N x (scatter_flag first p k s) p" using inv p by (simp add: scatter_inv_def sc_local_def scatter_flag_def)
  show "sc_link first x (scatter_flag first p k s) p a" if a: "a < n" "a \<noteq> p" for a
  proof (cases "a = k")
    case True
    have "sc_link first x s p k" using inv p by (simp add: scatter_inv_def)
    then show ?thesis using True p flag_at_Suc by (simp add: sc_link_def counters scatter_flag_def)
  next
    case False
    have "sc_link first x s p a" using inv p a by (simp add: scatter_inv_def)
    then show ?thesis by (rule sc_link_cong) (use p a False in \<open>simp_all add: counters scatter_flag_def\<close>)
  qed
  show "sc_link first x (scatter_flag first p k s) a p" if a: "a < n" "a \<noteq> p" for a
  proof -
    have "sc_link first x s a p" using inv p a by (simp add: scatter_inv_def)
    then show ?thesis by (rule sc_link_cong) (use p a in \<open>simp_all add: counters scatter_flag_def\<close>)
  qed
qed (use p in \<open>auto simp: scatter_flag_def same_pe_def\<close>)

lemma inv_wait:
  assumes inv: "scatter_inv calc n N first x s" and p: "p < n" "k < n" "k \<noteq> p" "sphase s p = P_wait" "\<not> sdone s p k"
    and flag: "sflag s p k = flag_val first (spos s p)"
  shows "scatter_inv calc n N first x (scatter_see p k s)"
proof (rule scatter_inv_intro [OF inv p(1)])
  show "sc_local calc n N x (scatter_see p k s) p" using inv p by (simp add: scatter_inv_def sc_local_def scatter_see_def)
  show "sc_link first x (scatter_see p k s) p a" if a: "a < n" "a \<noteq> p" for a
  proof -
    have "sc_link first x s p a" using inv p a by (simp add: scatter_inv_def)
    then show ?thesis by (rule sc_link_cong) (use p a in \<open>simp_all add: counters scatter_see_def\<close>)
  qed
  show "sc_link first x (scatter_see p k s) a p" if a: "a < n" "a \<noteq> p" for a
  proof (cases "a = k")
    case True
    have link: "sc_link first x s k p" using inv p by (simp add: scatter_inv_def)
    then have "c_flag s k p = Suc (spos s p)" using flag flag_at_val [of first "c_flag s k p" "spos s p"] by (simp add: sc_link_def)
    then show ?thesis using link True p by (simp add: sc_link_def counters scatter_see_def)
  next
    case False
    have "sc_link first x s a p" using inv p a by (simp add: scatter_inv_def)
    then show ?thesis by (rule sc_link_cong) (use p a False in \<open>simp_all add: counters scatter_see_def\<close>)
  qed
qed (use p in \<open>auto simp: scatter_see_def same_pe_def\<close>)

lemma inv_ack:
  assumes inv: "scatter_inv calc n N first x s" and p: "p < n" "k < n" "k \<noteq> p" "sphase s p = P_ack" "\<not> sdone s p k"
  shows "scatter_inv calc n N first x (scatter_ack first p k s)"
proof (rule scatter_inv_intro [OF inv p(1)])
  show "sc_local calc n N x (scatter_ack first p k s) p" using inv p by (simp add: scatter_inv_def sc_local_def scatter_ack_def)
  show "sc_link first x (scatter_ack first p k s) p a" if a: "a < n" "a \<noteq> p" for a
  proof -
    have "sc_link first x s p a" using inv p a by (simp add: scatter_inv_def)
    then show ?thesis by (rule sc_link_cong) (use p a in \<open>simp_all add: counters scatter_ack_def\<close>)
  qed
  show "sc_link first x (scatter_ack first p k s) a p" if a: "a < n" "a \<noteq> p" for a
  proof (cases "a = k")
    case True
    have link: "sc_link first x s k p" using inv p by (simp add: scatter_inv_def)
    then show ?thesis using True p flag_at_Suc by (simp add: sc_link_def counters scatter_ack_def)
  next
    case False
    have "sc_link first x s a p" using inv p a by (simp add: scatter_inv_def)
    then show ?thesis by (rule sc_link_cong) (use p a False in \<open>simp_all add: counters scatter_ack_def\<close>)
  qed
qed (use p in \<open>auto simp: scatter_ack_def same_pe_def\<close>)

lemma inv_ackwait:
  assumes inv: "scatter_inv calc n N first x s" and p: "p < n" "k < n" "k \<noteq> p" "sphase s p = P_ackwait" "\<not> sdone s p k"
    and flag: "sack s p k = flag_val first (spos s p)"
  shows "scatter_inv calc n N first x (scatter_see p k s)"
proof (rule scatter_inv_intro [OF inv p(1)])
  show "sc_local calc n N x (scatter_see p k s) p" using inv p by (simp add: scatter_inv_def sc_local_def scatter_see_def)
  show "sc_link first x (scatter_see p k s) p a" if a: "a < n" "a \<noteq> p" for a
  proof (cases "a = k")
    case True
    have link: "sc_link first x s p k" using inv p by (simp add: scatter_inv_def)
    then have "c_ack s k p = Suc (spos s p)" using flag flag_at_val [of first "c_ack s k p" "spos s p"] by (simp add: sc_link_def)
    then show ?thesis using link True p by (simp add: sc_link_def counters scatter_see_def)
  next
    case False
    have "sc_link first x s p a" using inv p a by (simp add: scatter_inv_def)
    then show ?thesis by (rule sc_link_cong) (use p a False in \<open>simp_all add: counters scatter_see_def\<close>)
  qed
  show "sc_link first x (scatter_see p k s) a p" if a: "a < n" "a \<noteq> p" for a
  proof -
    have "sc_link first x s a p" using inv p a by (simp add: scatter_inv_def)
    then show ?thesis by (rule sc_link_cong) (use p a in \<open>simp_all add: counters scatter_see_def\<close>)
  qed
qed (use p in \<open>auto simp: scatter_see_def same_pe_def\<close>)

text \<open>The end of a phase changes no counter.\<close>

lemma inv_phase:
  assumes inv: "scatter_inv calc n N first x s" and p: "p < n" and loc: "sc_local calc n N x s' p"
    and others: "\<And>a. a \<noteq> p \<Longrightarrow> same_pe s s' a \<and> sdst s' a = sdst s a" and mem: "sflag s' = sflag s" "sack s' = sack s" "swrk s' = swrk s"
    and cnt: "\<And>k. k < n \<Longrightarrow> k \<noteq> p \<Longrightarrow> c_put s' p k = c_put s p k \<and> c_flag s' p k = c_flag s p k \<and> c_seen s' p k = c_seen s p k \<and>
      c_ack s' p k = c_ack s p k \<and> c_acked s' p k = c_acked s p k"
  shows "scatter_inv calc n N first x s'"
proof (rule scatter_inv_intro [OF inv p others _ loc])
  show "sc_link first x s' p a" if a: "a < n" "a \<noteq> p" for a
  proof -
    have "sc_link first x s p a" using inv p a by (simp add: scatter_inv_def)
    then show ?thesis by (rule sc_link_cong) (use cnt [OF a] others [OF a(2)] mem in \<open>simp_all add: same_counters [of s s' a]\<close>)
  qed
  show "sc_link first x s' a p" if a: "a < n" "a \<noteq> p" for a
  proof -
    have "sc_link first x s a p" using inv p a by (simp add: scatter_inv_def)
    then show ?thesis by (rule sc_link_cong) (use cnt [OF a] others [OF a(2)] mem in \<open>simp_all add: same_counters [of s s' a]\<close>)
  qed
qed (use mem in simp_all)

lemma scatter_inv_step:
  assumes inv: "scatter_inv calc n N first x s" and step: "scatter_step calc n N first x s s'"
  shows "scatter_inv calc n N first x s'"
proof -
  have loc: "sc_local calc n N x s a" if "a < n" for a using inv that by (simp add: scatter_inv_def)
  from step show ?thesis
  proof cases
    case (sc_put p k)
    then show ?thesis using inv_put [OF inv] by simp
  next
    case (sc_flag p k)
    then show ?thesis using inv_flag [OF inv] by simp
  next
    case (sc_sent p)
    show ?thesis using loc [OF sc_sent(2)] sc_sent all_servedD [OF sc_sent(4)]
      by (intro inv_phase [OF inv sc_sent(2)]) (auto simp: sc_local_def enter_phase_def same_pe_def counters)
  next
    case (sc_wait p k)
    then show ?thesis using inv_wait [OF inv] by simp
  next
    case (sc_reduce p)
    show ?thesis using loc [OF sc_reduce(2)] sc_reduce all_servedD [OF sc_reduce(4)] scatter_value_correct [OF inv sc_reduce(2,3,4)]
      by (intro inv_phase [OF inv sc_reduce(2)]) (auto simp: sc_local_def scatter_reduce_def enter_phase_def same_pe_def counters less_Suc_eq)
  next
    case (sc_ack p k)
    then show ?thesis using inv_ack [OF inv] by simp
  next
    case (sc_acked p)
    show ?thesis using loc [OF sc_acked(2)] sc_acked all_servedD [OF sc_acked(4)]
      by (intro inv_phase [OF inv sc_acked(2)]) (auto simp: sc_local_def enter_phase_def same_pe_def counters)
  next
    case (sc_ackwait p k)
    then show ?thesis using inv_ackwait [OF inv] by simp
  next
    case (sc_next p)
    show ?thesis using loc [OF sc_next(2)] sc_next all_servedD [OF sc_next(4)]
      by (intro inv_phase [OF inv sc_next(2)]) (auto simp: sc_local_def scatter_next_def enter_phase_def same_pe_def counters)
  qed
qed

section \<open>Progress\<close>

definition peers :: "nat \<Rightarrow> nat \<Rightarrow> nat set" where
  "peers n p = {k. k < n \<and> k \<noteq> p}"

definition served :: "nat \<Rightarrow> nat \<Rightarrow> (nat \<Rightarrow> bool) \<Rightarrow> nat" where
  "served n p P = card {k \<in> peers n p. P k}"

lemma peers_simps: "finite (peers n p)" "p < n \<Longrightarrow> card (peers n p) = n - 1"
proof -
  have "peers n p = {..<n} - {p}" by (auto simp: peers_def)
  then show "finite (peers n p)" "p < n \<Longrightarrow> card (peers n p) = n - 1" by simp_all
qed

lemma served_le: "p < n \<Longrightarrow> served n p P \<le> n - 1"
  unfolding served_def using card_mono [of "peers n p" "{k \<in> peers n p. P k}"] peers_simps by auto

lemma served_none [simp]: "served n p (\<lambda>_. False) = 0"
  by (simp add: served_def)

lemma served_all: "p < n \<Longrightarrow> (\<And>k. k < n \<Longrightarrow> k \<noteq> p \<Longrightarrow> P k) \<Longrightarrow> served n p P = n - 1"
proof -
  assume p: "p < n" and all: "\<And>k. k < n \<Longrightarrow> k \<noteq> p \<Longrightarrow> P k"
  have "{k \<in> peers n p. P k} = peers n p" using all by (auto simp: peers_def)
  then show ?thesis using peers_simps(2) [OF p] by (simp add: served_def)
qed

lemma served_upd: "k < n \<Longrightarrow> k \<noteq> p \<Longrightarrow> \<not> P k \<Longrightarrow> served n p (P(k := True)) = Suc (served n p P)"
proof -
  assume k: "k < n" "k \<noteq> p" "\<not> P k"
  then have "{j \<in> peers n p. (P(k := True)) j} = insert k {j \<in> peers n p. P j}" by (auto simp: peers_def)
  then show ?thesis using k peers_simps(1) by (simp add: served_def)
qed

text \<open>The steps that a PE has made: \<open>5 * (n - 1) + 4\<close> for each chunk.\<close>

definition sc_offset :: "nat \<Rightarrow> 'a scatter_state \<Rightarrow> nat \<Rightarrow> nat" where
  "sc_offset n s p =
     (case sphase s p of
        P_send \<Rightarrow> served n p (sput s p) + served n p (sdone s p)
      | P_wait \<Rightarrow> 2 * (n - 1) + 1 + served n p (sdone s p)
      | P_ack \<Rightarrow> 3 * (n - 1) + 2 + served n p (sdone s p)
      | P_ackwait \<Rightarrow> 4 * (n - 1) + 3 + served n p (sdone s p)
      | P_return \<Rightarrow> 0)"

definition sc_steps :: "nat \<Rightarrow> 'a scatter_state \<Rightarrow> nat \<Rightarrow> nat" where
  "sc_steps n s p = spos s p * (5 * (n - 1) + 4) + sc_offset n s p"

definition scatter_progress :: "nat \<Rightarrow> 'a scatter_state \<Rightarrow> nat" where
  "scatter_progress n s = (\<Sum>p<n. sc_steps n s p)"

lemma sc_steps_same: "same_pe s s' a \<Longrightarrow> sc_steps n s' a = sc_steps n s a"
  by (simp add: same_pe_def sc_steps_def sc_offset_def cong: scatter_phase.case_cong)

lemma scatter_progress_step:
  assumes inv: "scatter_inv calc n N first x s" and step: "scatter_step calc n N first x s s'"
  shows "scatter_progress n s' = Suc (scatter_progress n s)"
proof -
  have one: "scatter_progress n s' = Suc (scatter_progress n s)"
    if "p < n" "\<And>a. a \<noteq> p \<Longrightarrow> same_pe s s' a" "sc_steps n s' p = Suc (sc_steps n s p)" for p
    using that sc_steps_same [of s s' _ n] by (simp add: scatter_progress_def sum.remove [of "{..<n}" p])
  have put: "served n p (sput s p) = n - 1" if "p < n" "sphase s p = P_send" "all_served n p s" for p
    using inv that by (intro served_all) (auto simp: scatter_inv_def sc_local_def all_served_def)
  have all: "served n p (sdone s p) = n - 1" if "p < n" "all_served n p s" for p
    using that by (intro served_all) (auto simp: all_served_def)
  from step show ?thesis
  proof cases
    case (sc_put p k)
    then show ?thesis by (intro one [of p]) (auto simp: same_pe_def scatter_put_def sc_steps_def sc_offset_def served_upd)
  next
    case (sc_flag p k)
    then show ?thesis by (intro one [of p]) (auto simp: same_pe_def scatter_flag_def sc_steps_def sc_offset_def served_upd)
  next
    case (sc_sent p)
    then show ?thesis using all put by (intro one [of p]) (auto simp: same_pe_def enter_phase_def sc_steps_def sc_offset_def)
  next
    case (sc_wait p k)
    then show ?thesis by (intro one [of p]) (auto simp: same_pe_def scatter_see_def sc_steps_def sc_offset_def served_upd)
  next
    case (sc_reduce p)
    then show ?thesis using all by (intro one [of p]) (auto simp: same_pe_def scatter_reduce_def enter_phase_def sc_steps_def sc_offset_def)
  next
    case (sc_ack p k)
    then show ?thesis by (intro one [of p]) (auto simp: same_pe_def scatter_ack_def sc_steps_def sc_offset_def served_upd)
  next
    case (sc_acked p)
    then show ?thesis using all by (intro one [of p]) (auto simp: same_pe_def enter_phase_def sc_steps_def sc_offset_def)
  next
    case (sc_ackwait p k)
    then show ?thesis by (intro one [of p]) (auto simp: same_pe_def scatter_see_def sc_steps_def sc_offset_def served_upd)
  next
    case (sc_next p)
    then show ?thesis using all by (intro one [of p]) (auto simp: same_pe_def scatter_next_def enter_phase_def sc_steps_def sc_offset_def)
  qed
qed

lemma sc_steps_bound:
  assumes inv: "scatter_inv calc n N first x s" and p: "p < n"
  shows "sc_steps n s p \<le> N * (5 * (n - 1) + 4) \<and> (sc_steps n s p = N * (5 * (n - 1) + 4) \<longleftrightarrow> sphase s p = P_return)"
proof -
  have loc: "if sphase s p = P_return then spos s p = N else spos s p < N" using inv p by (simp add: scatter_inv_def sc_local_def)
  show ?thesis
  proof (cases "sphase s p = P_return")
    case True
    then show ?thesis using loc by (simp add: sc_steps_def sc_offset_def)
  next
    case False
    have "sc_offset n s p < 5 * (n - 1) + 4"
      using served_le [OF p, of "sput s p"] served_le [OF p, of "sdone s p"] by (auto simp: sc_offset_def split: scatter_phase.split)
    moreover have "Suc (spos s p) * (5 * (n - 1) + 4) \<le> N * (5 * (n - 1) + 4)" using False loc by (intro mult_le_mono1) simp
    ultimately have "sc_steps n s p < N * (5 * (n - 1) + 4)" by (simp add: sc_steps_def)
    then show ?thesis using False by simp
  qed
qed

lemma scatter_progress_bound:
  assumes "scatter_inv calc n N first x s"
  shows "scatter_progress n s \<le> n * (N * (5 * (n - 1) + 4)) \<and>
    (scatter_progress n s = n * (N * (5 * (n - 1) + 4)) \<longleftrightarrow> scatter_done n s)"
  unfolding scatter_progress_def scatter_done_def using sc_steps_bound [OF assms] by (rule sum_at_bound)

text \<open>The PE that is furthest behind can always go on.\<close>

definition sc_key :: "'a scatter_state \<Rightarrow> nat \<Rightarrow> nat" where
  "sc_key s p = 2 * spos s p + (if sphase s p = P_ackwait then 1 else 0)"

lemma flag_at_SucD: "flag_at first (Suc m) v \<Longrightarrow> v = flag_val first m"
  by (simp add: flag_at_def flag_val_def)

lemma wait_enabled:
  assumes inv: "scatter_inv calc n N first x s" and p: "p < n" "sphase s p = P_wait" and k: "k < n" "k \<noteq> p"
    and stage: "sphase s k \<in> {P_wait, P_ackwait, P_return}" "sc_key s p \<le> sc_key s k"
  shows "sflag s p k = flag_val first (spos s p)"
proof -
  have link: "sc_link first x s k p" and loc: "sc_local calc n N x s k" "sc_local calc n N x s p" using inv p k by (simp_all add: scatter_inv_def)
  have "spos s k \<le> c_acked s k p" by (simp add: c_acked_def)
  also have "\<dots> \<le> spos s p" using link p by (simp add: sc_link_def c_ack_def)
  finally have "c_flag s k p = Suc (spos s p)"
    using stage loc p by (auto simp: sc_key_def c_flag_def sc_local_def split: if_splits)
  then show ?thesis using link flag_at_SucD by (simp add: sc_link_def)
qed

lemma ackwait_enabled:
  assumes inv: "scatter_inv calc n N first x s" and p: "p < n" "sphase s p = P_ackwait" and k: "k < n" "k \<noteq> p"
    and stage: "sphase s k \<in> {P_wait, P_ackwait, P_return}" "sc_key s p \<le> sc_key s k"
  shows "sack s p k = flag_val first (spos s p)"
proof -
  have link: "sc_link first x s p k" and loc: "sc_local calc n N x s k" "sc_local calc n N x s p" using inv p k by (simp_all add: scatter_inv_def)
  have "c_ack s k p \<le> c_seen s k p" by (simp add: c_ack_def c_seen_def)
  also have "\<dots> \<le> spos s p + 1" using link p by (simp add: sc_link_def c_flag_def)
  finally have "c_ack s k p = Suc (spos s p)"
    using stage loc p by (auto simp: sc_key_def c_ack_def sc_local_def split: if_splits)
  then show ?thesis using link flag_at_SucD by (simp add: sc_link_def)
qed

lemma scatter_not_stuck:
  assumes inv: "scatter_inv calc n N first x s" and stuck: "\<nexists>s'. scatter_step calc n N first x s s'"
  shows "scatter_done n s"
proof (rule ccontr)
  assume "\<not> scatter_done n s"
  then obtain q where q: "q < n" "sphase s q \<noteq> P_return" by (auto simp: scatter_done_def)
  have stage: "sphase s a \<in> {P_wait, P_ackwait, P_return}" if a: "a < n" for a
  proof (cases "sphase s a")
    case P_send
    then have "sput s a k \<and> sdone s a k" if "k < n" "k \<noteq> a" for k
      using stuck sc_put [OF a that P_send] sc_flag [OF a that P_send] by blast
    then have "all_served n a s" by (simp add: all_served_def)
    then show ?thesis using stuck sc_sent [OF a P_send] by blast
  next
    case P_ack
    then have "sdone s a k" if "k < n" "k \<noteq> a" for k using stuck sc_ack [OF a that P_ack] by blast
    then have "all_served n a s" by (simp add: all_served_def)
    then show ?thesis using stuck sc_acked [OF a P_ack] by blast
  qed simp_all
  define p where "p = arg_min_on (sc_key s) {..<n}"
  have p: "p < n" "\<And>k. k < n \<Longrightarrow> sc_key s p \<le> sc_key s k"
    using arg_min_if_finite [of "{..<n}" "sc_key s"] q(1) unfolding p_def by (auto simp: lessThan_empty_iff not_less)
  have pos: "if sphase s a = P_return then spos s a = N else spos s a < N" if "a < n" for a
    using inv that by (simp add: scatter_inv_def sc_local_def)
  have "sphase s p \<noteq> P_return" using p(2) [OF q(1)] pos [OF p(1)] pos [OF q(1)] q(2) by (auto simp: sc_key_def split: if_splits)
  then consider "sphase s p = P_wait" | "sphase s p = P_ackwait" using stage [OF p(1)] by auto
  then show False
  proof cases
    case 1
    have "sdone s p k" if "k < n" "k \<noteq> p" for k
      using stuck sc_wait [OF p(1) that 1 _ wait_enabled [OF inv p(1) 1 that stage [OF that(1)] p(2) [OF that(1)]]] by blast
    then have "all_served n p s" by (simp add: all_served_def)
    then show False using stuck sc_reduce [OF p(1) 1] by blast
  next
    case 2
    have "sdone s p k" if "k < n" "k \<noteq> p" for k
      using stuck sc_ackwait [OF p(1) that 2 _ ackwait_enabled [OF inv p(1) 2 that stage [OF that(1)] p(2) [OF that(1)]]] by blast
    then have "all_served n p s" by (simp add: all_served_def)
    then show False using stuck sc_next [OF p(1) 2] by blast
  qed
qed

lemma scatter_init_progress: "scatter_init n N first s \<Longrightarrow> scatter_progress n s = 0"
  by (auto simp: scatter_progress_def sc_steps_def sc_offset_def scatter_init_def served_def peers_def)

interpretation scatter: progress_system "scatter_init n N first" "scatter_step calc n N first x" "scatter_inv calc n N first x"
  "scatter_progress n" "n * (N * (5 * (n - 1) + 4))" "scatter_done n" for n N first calc x
  by unfold_locales
    (blast intro: scatter_inv_init scatter_inv_step scatter_init_progress scatter_progress_step scatter_not_stuck
      dest: scatter_progress_bound)+

section \<open>Properties\<close>

text \<open>C3. The reduce-scatter delivers. Whatever the order in which the peers are served and however the PEs interleave, a PE that has returned holds in every chunk of its destination the
  contributions of all PEs to its own block, reduced over the ranks for an associative and commutative operation: no slot is overwritten before it has been
  reduced. Its flags and acknowledgements are left at the last generation of the call.\<close>

theorem reduce_scatter_correct:
  assumes "reachable (scatter_init n N first) (scatter_step calc n N first x) s" "p < n" "sphase s p = P_return" "c < N"
  shows "sdst s p c = direct_acc calc (\<lambda>q. x q p c) p n \<and>
    ((\<forall>a b c. calc (calc a b) c = calc a (calc b c)) \<and> (\<forall>a b. calc a b = calc b a) \<longrightarrow> sdst s p c = reduce_ranks calc n (\<lambda>q. x q p c)) \<and>
    (\<forall>q<n. q \<noteq> p \<longrightarrow> sflag s p q = flag_val first (N - 1) \<and> sack s p q = flag_val first (N - 1))"
proof -
  have inv: "scatter_inv calc n N first x s" using scatter.reachable_inv assms(1) .
  then have loc: "sc_local calc n N x s a" if "a < n" for a using that by (simp add: scatter_inv_def)
  have pos: "spos s p = N" using loc [OF assms(2)] assms(3) by (simp add: sc_local_def)
  then have "sdst s p c = direct_acc calc (\<lambda>q. x q p c) p n" using loc [OF assms(2)] assms(4) by (simp add: sc_local_def)
  moreover have "direct_acc calc (\<lambda>q. x q p c) p n = reduce_ranks calc n (\<lambda>q. x q p c)"
    if "\<forall>a b c. calc (calc a b) c = calc a (calc b c)" "\<forall>a b. calc a b = calc b a"
    using direct_acc_ranks [of calc p n] that assms(2) by simp
  moreover have "sflag s p q = flag_val first (N - 1) \<and> sack s p q = flag_val first (N - 1)" if q: "q < n" "q \<noteq> p" for q
  proof -
    have link: "sc_link first x s q p" "sc_link first x s p q" using inv assms(2) q by (simp_all add: scatter_inv_def)
    have "c_flag s q p \<le> N" "c_ack s q p \<le> N" using loc [OF q(1)] by (auto simp: sc_local_def counters split: if_splits)
    moreover have "N \<le> c_flag s q p" "N \<le> c_ack s q p" using link assms(3) pos by (simp_all add: sc_link_def counters)
    ultimately have "c_flag s q p = Suc (N - 1)" "c_ack s q p = Suc (N - 1)" using assms(4) by simp_all
    then show ?thesis using link flag_at_SucD by (simp add: sc_link_def)
  qed
  ultimately show ?thesis by metis
qed

definition scatter_start :: "'a \<Rightarrow> 'a scatter_state" where
  "scatter_start a = \<lparr>sdst = (\<lambda>_ _. a), swrk = (\<lambda>_ _. a), sflag = (\<lambda>_ _. 0), sack = (\<lambda>_ _. 0), spos = (\<lambda>_. 0), sphase = (\<lambda>_. P_send),
     sput = (\<lambda>_ _. False), sdone = (\<lambda>_ _. False)\<rparr>"

lemma scatter_start_init: "0 < N \<Longrightarrow> scatter_init n N (first_flag 0 N) (scatter_start a)"
  by (simp add: scatter_init_def scatter_start_def first_flag_def)

lemma scatter_run_end:
  assumes "0 < N"
  shows "\<exists>s :: 'a scatter_state. reachable (scatter_init n N (first_flag 0 N)) (scatter_step calc n N (first_flag 0 N) x) s \<and> scatter_done n s"
  using scatter.runs_to_end [OF scatter_start_init [OF assms]] by blast

text \<open>Three PEs and two chunks, on a team that has not used its flags before.\<close>

theorem reduce_scatter_correct_witness:
  "\<exists>s. reachable (scatter_init 3 2 (first_flag 0 2)) (scatter_step (+) 3 2 (first_flag 0 2) (\<lambda>q p c. q + 10 * p + 100 * c)) s \<and>
     sphase s 2 = P_return \<and> sdst s 2 1 = (363 :: nat)"
proof -
  obtain s where s: "reachable (scatter_init 3 2 (first_flag 0 2)) (scatter_step (+) 3 2 (first_flag 0 2) (\<lambda>q p c. q + 10 * p + 100 * c :: nat)) s"
    "scatter_done 3 s"
    using scatter_run_end [of 2] by fastforce
  then have ret: "sphase s 2 = P_return" by (simp add: scatter_done_def)
  then have "sdst s 2 1 = reduce_ranks (+) 3 (\<lambda>q. q + 10 * 2 + 100 * 1 :: nat)"
    using reduce_scatter_correct [OF s(1), of 2 1] by (simp add: ac_simps)
  then show ?thesis using s(1) ret by (auto simp: reduce_ranks_def upt_rec)
qed

text \<open>C11. The reduce-scatter completes. An execution stops only when all PEs have returned, and every execution reaches that point after exactly
  \<open>5 * (n - 1) + 4\<close> steps for each chunk of each PE.\<close>

theorem reduce_scatter_completes:
  assumes "scatter_init n N first s0" "(scatter_step calc n N first x ^^ k) s0 s"
  shows "k \<le> n * (N * (5 * (n - 1) + 4)) \<and> ((\<nexists>s'. scatter_step calc n N first x s s') \<longleftrightarrow> scatter_done n s) \<and>
    (scatter_done n s \<longleftrightarrow> k = n * (N * (5 * (n - 1) + 4)))"
  using scatter.completes [OF assms] .

theorem reduce_scatter_completes_witness:
  "\<exists>s'. scatter_step (+) 4 3 (first_flag 0 3) (\<lambda>q p c. c) (scatter_start (0 :: nat)) s'"
proof -
  have "\<not> scatter_done 4 (scatter_start (0 :: nat))" by (auto simp: scatter_done_def scatter_start_def intro: exI [of _ 0])
  then show ?thesis
    using reduce_scatter_completes [of 4 3 "first_flag 0 3" "scatter_start (0 :: nat)" 0 "(+)" "\<lambda>q p c. c"] scatter_start_init [of 3] by fastforce
qed

text \<open>C19. The flags that the first reduce-scatter of a team leaves satisfy the waits of the direct all-reduce. After a reduce-scatter of one chunk on the PEs 0
  and 1 the flags have the value 1, for which the direct all-reduce waits. In a direct all-reduce on the
  same flags PE 0 therefore need not wait: it can return before PE 1 has done anything, with whatever the work buffer holds.\<close>

theorem scatter_then_direct_wrong:
  assumes "reachable (scatter_init 2 1 (first_flag 0 1)) (scatter_step calc 2 1 (first_flag 0 1) x) t" "scatter_done 2 t"
    and "dsync s = sflag t" "\<And>p. dstage s p = D_copy"
  shows "\<exists>s'. direct_run f 2 (team_pe 0 1) y [0, 0, 0, 0, 0, 0, 0, 0] s = Some s' \<and> dstage s' 0 = D_return \<and> dstage s' 1 = D_copy \<and>
    ddst s' 0 = f (y 0) (dwrk s 0 1)"
proof -
  have "scatter_inv calc 2 1 (first_flag 0 1) x t" using scatter.reachable_inv assms(1) .
  then have "sc_link (first_flag 0 1) x t 1 0" "sc_local calc 2 1 x t 1" "sc_local calc 2 1 x t 0" by (simp_all add: scatter_inv_def)
  moreover have "sphase t 0 = P_return" "sphase t 1 = P_return" using assms(2) by (simp_all add: scatter_done_def)
  ultimately have "sflag t 0 1 = 1"
    using flag_at_SucD [of "first_flag 0 1" 0] by (simp add: sc_link_def sc_local_def c_flag_def flag_val_def first_flag_def)
  then have "dsync s 0 1 = 1" using assms(3) by simp
  then show ?thesis using assms(4)
    by (simp add: internal_direct_allreduce_wg_def direct_copy_def direct_put_def direct_flag_def direct_receive_def
      direct_reset_def team_pe_def numeral_2_eq_2)
qed

theorem scatter_then_direct_wrong_witness:
  "\<exists>(t :: nat scatter_state) s'. scatter_done 2 t \<and>
     direct_run (+) 2 (team_pe 0 1) (\<lambda>q. 100 * q) [0, 0, 0, 0, 0, 0, 0, 0]
       \<lparr>ddst = (\<lambda>_. 0), dwrk = (\<lambda>_ _. 7), dsync = sflag t, dstage = (\<lambda>_. D_copy)\<rparr> = Some s' \<and> ddst s' 0 = (7 :: nat)"
proof -
  obtain t where t: "reachable (scatter_init 2 1 (first_flag 0 1)) (scatter_step (+) 2 1 (first_flag 0 1) (\<lambda>q p c. q :: nat)) t" "scatter_done 2 t"
    using scatter_run_end [of 1] by fastforce
  then show ?thesis
    using scatter_then_direct_wrong [OF t, of "\<lparr>ddst = (\<lambda>_. 0), dwrk = (\<lambda>_ _. 7), dsync = sflag t, dstage = (\<lambda>_. D_copy)\<rparr>" "(+)" "\<lambda>q. 100 * q"]
    by (auto simp del: direct_run.simps intro!: exI [of _ t])
qed

end
