(* ===== verification/Ipc_Chain.thy ===== *)
theory Ipc_Chain
  imports Ipc_Scatter
begin

text \<open>
  The pipelined broadcast of the DAS build (\<open>internal_chain_broadcast\<close> in \<open>src/ipc/context_ipc_device_coll_das.cpp\<close>). The members form a
  chain that starts at the root; each forwards the chunks of the message to its successor, sets the successor's flag to
  the number of the chunks that have arrived there, and waits until its own flag has reached the chunk that it
  is to forward. A barrier of the team closes the call, after which each PE clears its flag.
  Members are named by their place in the chain (\<open>virtual_rank\<close>), calls follow one another without further synchronisation. The barrier is used
  by its contract, which is proved for the code of \<open>internal_sync_wg\<close> in the theory of the barriers: no member leaves its barrier of a
  call before all have entered theirs.
\<close>

section \<open>Ranks\<close>

definition virtual_rank :: "int \<Rightarrow> int \<Rightarrow> int \<Rightarrow> int" where
  "virtual_rank pe_size root_rank my_rank = (let v = my_rank - root_rank in if v < 0 then v + pe_size else v)"

text \<open>The rank of the successor in the chain; \<open>None\<close> for the last member.\<close>

definition next_rank :: "int \<Rightarrow> int \<Rightarrow> int \<Rightarrow> int option" where
  "next_rank pe_size root_rank v =
     (if v < pe_size - 1 then let r = v + 1 + root_rank in Some (if r \<ge> pe_size then r - pe_size else r) else None)"

lemma chain_ranks:
  assumes "0 \<le> root" "root < m" "0 \<le> r" "r < m"
  shows "0 \<le> virtual_rank m root r" "virtual_rank m root r < m" "virtual_rank m root r = 0 \<longleftrightarrow> r = root"
    "\<And>r'. 0 \<le> r' \<Longrightarrow> r' < m \<Longrightarrow> virtual_rank m root r = virtual_rank m root r' \<Longrightarrow> r = r'"
    "virtual_rank m root r < m - 1 \<Longrightarrow>
      \<exists>r'. next_rank m root (virtual_rank m root r) = Some r' \<and> 0 \<le> r' \<and> r' < m \<and> virtual_rank m root r' = virtual_rank m root r + 1"
  using assms by (auto simp: virtual_rank_def next_rank_def Let_def split: if_splits)

section \<open>The machine\<close>

datatype chain_stage = B_get | B_wait | B_put | B_flag | B_barrier | B_clear | B_return

record 'a chain_state =
  bdst :: "nat \<Rightarrow> nat \<Rightarrow> 'a"
  bsync :: "nat \<Rightarrow> int"
  bchunk :: "nat \<Rightarrow> nat"
  bstage :: "nat \<Rightarrow> chain_stage"
  barrived :: "nat \<Rightarrow> nat"
  bcall :: "nat \<Rightarrow> nat"

text \<open>\<open>barrived s v\<close> counts the barriers that \<open>v\<close> has entered, \<open>bcall s v\<close> the calls that it has returned from. The source \<open>x\<close> of the root has
  \<open>num\<close> chunks, and may differ from call to call.\<close>

definition goto_stage :: "nat \<Rightarrow> chain_stage \<Rightarrow> 'a chain_state \<Rightarrow> 'a chain_state" where
  "goto_stage v st s = s\<lparr>bstage := (bstage s)(v := st)\<rparr>"

text \<open>The head of the loop: the next chunk, or the barrier after the last one.\<close>

definition chain_loop :: "nat \<Rightarrow> nat \<Rightarrow> 'a chain_state \<Rightarrow> 'a chain_state" where
  "chain_loop num v s =
     (if bchunk s v < num then goto_stage v B_wait s else (goto_stage v B_barrier s)\<lparr>barrived := (barrived s)(v := Suc (barrived s v))\<rparr>)"

definition chain_advance :: "nat \<Rightarrow> nat \<Rightarrow> 'a chain_state \<Rightarrow> 'a chain_state" where
  "chain_advance num v s = chain_loop num v (s\<lparr>bchunk := (bchunk s)(v := Suc (bchunk s v))\<rparr>)"

definition chain_get :: "(nat \<Rightarrow> 'a) \<Rightarrow> nat \<Rightarrow> nat \<Rightarrow> 'a chain_state \<Rightarrow> 'a chain_state" where
  "chain_get x num v s = chain_loop num v (if v = 0 then s\<lparr>bdst := (bdst s)(v := x)\<rparr> else s)"

definition chain_put :: "(nat \<Rightarrow> 'a) \<Rightarrow> nat \<Rightarrow> 'a chain_state \<Rightarrow> 'a chain_state" where
  "chain_put x v s =
     (let forward_src = (if v = 0 then x (bchunk s v) else bdst s v (bchunk s v))
      in goto_stage v B_flag (s\<lparr>bdst := (bdst s)(Suc v := (bdst s (Suc v))(bchunk s v := forward_src))\<rparr>))"

definition chain_flag :: "nat \<Rightarrow> nat \<Rightarrow> 'a chain_state \<Rightarrow> 'a chain_state" where
  "chain_flag num v s = chain_advance num v (s\<lparr>bsync := (bsync s)(Suc v := int (bchunk s v) + 1)\<rparr>)"

definition chain_clear :: "nat \<Rightarrow> 'a chain_state \<Rightarrow> 'a chain_state" where
  "chain_clear v s = (goto_stage v B_return s)\<lparr>bsync := (bsync s)(v := 0), bcall := (bcall s)(v := Suc (bcall s v))\<rparr>"

text \<open>The next step of the member \<open>v\<close> in a chain of \<open>n\<close>; \<open>None\<close> while it waits, and after its return.\<close>

definition internal_chain_broadcast :: "nat \<Rightarrow> nat \<Rightarrow> (nat \<Rightarrow> 'a) \<Rightarrow> nat \<Rightarrow> 'a chain_state \<Rightarrow> 'a chain_state option" where
  "internal_chain_broadcast n num x v s =
     (case bstage s v of
        B_get \<Rightarrow> Some (chain_get x num v s)
      | B_wait \<Rightarrow> (if v = 0 \<or> int (bchunk s v) + 1 \<le> bsync s v
                  then Some (if Suc v < n then goto_stage v B_put s else chain_advance num v s) else None)
      | B_put \<Rightarrow> Some (chain_put x v s)
      | B_flag \<Rightarrow> Some (chain_flag num v s)
      | B_barrier \<Rightarrow> (if \<forall>u\<in>set [0..<n]. barrived s v \<le> barrived s u then Some (goto_stage v B_clear s) else None)
      | B_clear \<Rightarrow> Some (chain_clear v s)
      | B_return \<Rightarrow> None)"

inductive chain_step :: "nat \<Rightarrow> nat \<Rightarrow> (nat \<Rightarrow> 'a) \<Rightarrow> 'a chain_state \<Rightarrow> 'a chain_state \<Rightarrow> bool" for n num x where
  chain_pe: "v < n \<Longrightarrow> internal_chain_broadcast n num x v s = Some s' \<Longrightarrow> chain_step n num x s s'"

definition chain_init :: "nat \<Rightarrow> 'a chain_state \<Rightarrow> bool" where
  "chain_init n s \<longleftrightarrow> (\<forall>v<n. bsync s v = ROCSHMEM_SYNC_VALUE \<and> bchunk s v = 0 \<and> bstage s v = B_get \<and> barrived s v = 0 \<and> bcall s v = 0)"

definition chain_done :: "nat \<Rightarrow> 'a chain_state \<Rightarrow> bool" where
  "chain_done n s \<longleftrightarrow> (\<forall>v<n. bstage s v = B_return)"

section \<open>The invariant\<close>

definition entered :: "chain_stage \<Rightarrow> bool" where
  "entered st \<longleftrightarrow> st \<in> {B_barrier, B_clear, B_return}"

text \<open>One member, given the number of its chunk and of the barriers that it has entered.\<close>

definition chain_local :: "nat \<Rightarrow> nat \<Rightarrow> nat \<Rightarrow> chain_stage \<Rightarrow> nat \<Rightarrow> nat \<Rightarrow> bool" where
  "chain_local n num v st c a \<longleftrightarrow> (st = B_get \<longrightarrow> c = 0) \<and> (st \<in> {B_wait, B_put, B_flag} \<longrightarrow> c < num) \<and> (entered st \<longrightarrow> c = num) \<and>
     (st \<in> {B_put, B_flag} \<longrightarrow> Suc v < n) \<and> a = (if entered st then 1 else 0)"

text \<open>The link from a member in stage \<open>st\<close> at chunk \<open>c\<close> to its successor in stage \<open>st'\<close> at chunk \<open>c'\<close>.\<close>

definition chain_link :: "(nat \<Rightarrow> 'a) \<Rightarrow> chain_stage \<Rightarrow> nat \<Rightarrow> chain_stage \<Rightarrow> nat \<Rightarrow> int \<Rightarrow> (nat \<Rightarrow> 'a) \<Rightarrow> bool" where
  "chain_link x st c st' c' flag buf \<longleftrightarrow> flag = (if st' = B_return then ROCSHMEM_SYNC_VALUE else int c) \<and> c' \<le> c \<and>
     (st' \<in> {B_put, B_flag} \<longrightarrow> c' < c) \<and> (\<forall>i. i < c \<or> i = c \<and> st = B_flag \<longrightarrow> buf i = x i)"

definition chain_inv :: "nat \<Rightarrow> nat \<Rightarrow> (nat \<Rightarrow> 'a) \<Rightarrow> 'a chain_state \<Rightarrow> bool" where
  "chain_inv n num x s \<longleftrightarrow> (\<forall>v<n. chain_local n num v (bstage s v) (bchunk s v) (barrived s v)) \<and>
     (\<forall>v. Suc v < n \<longrightarrow> chain_link x (bstage s v) (bchunk s v) (bstage s (Suc v)) (bchunk s (Suc v)) (bsync s (Suc v)) (bdst s (Suc v))) \<and>
     (bstage s 0 \<noteq> B_get \<longrightarrow> bdst s 0 = x) \<and>
     (\<forall>v<n. bstage s v \<in> {B_clear, B_return} \<longrightarrow> (\<forall>u<n. entered (bstage s u)))"

lemma chain_inv_init: "chain_init n s \<Longrightarrow> 0 < n \<Longrightarrow> chain_inv n num x s"
  by (simp add: chain_inv_def chain_init_def chain_local_def chain_link_def entered_def ROCSHMEM_SYNC_VALUE_def)

lemma chain_inv_intro:
  assumes inv: "chain_inv n num x s" and v: "v < n"
    and others: "\<And>u. u \<noteq> v \<Longrightarrow> bstage s' u = bstage s u \<and> bchunk s' u = bchunk s u \<and> barrived s' u = barrived s u"
    and cells: "\<And>u. u \<noteq> v \<Longrightarrow> u \<noteq> Suc v \<Longrightarrow> bsync s' u = bsync s u \<and> bdst s' u = bdst s u"
    and here: "chain_local n num v (bstage s' v) (bchunk s' v) (barrived s' v)"
    and down: "Suc v < n \<Longrightarrow> chain_link x (bstage s' v) (bchunk s' v) (bstage s (Suc v)) (bchunk s (Suc v)) (bsync s' (Suc v)) (bdst s' (Suc v))"
    and up: "\<And>u. v = Suc u \<Longrightarrow> chain_link x (bstage s u) (bchunk s u) (bstage s' v) (bchunk s' v) (bsync s' v) (bdst s' v)"
    and root: "bstage s' 0 \<noteq> B_get \<longrightarrow> bdst s' 0 = x"
    and gate: "bstage s' v \<in> {B_clear, B_return} \<longrightarrow> (\<forall>u<n. u \<noteq> v \<longrightarrow> entered (bstage s u))"
    and stay: "entered (bstage s v) \<longrightarrow> entered (bstage s' v)"
  shows "chain_inv n num x s'"
  unfolding chain_inv_def
proof (intro conjI allI impI)
  fix u assume u: "u < n"
  show "chain_local n num u (bstage s' u) (bchunk s' u) (barrived s' u)"
    using inv u here others [of u] by (cases "u = v") (simp_all add: chain_inv_def)
next
  fix u assume u: "Suc u < n"
  then have old: "chain_link x (bstage s u) (bchunk s u) (bstage s (Suc u)) (bchunk s (Suc u)) (bsync s (Suc u)) (bdst s (Suc u))"
    using inv by (simp add: chain_inv_def)
  consider "u = v" | "Suc u = v" | "u \<noteq> v" "Suc u \<noteq> v" by blast
  then show "chain_link x (bstage s' u) (bchunk s' u) (bstage s' (Suc u)) (bchunk s' (Suc u)) (bsync s' (Suc u)) (bdst s' (Suc u))"
  proof cases
    case 1
    then show ?thesis using down u others [of "Suc v"] by simp
  next
    case 2
    then show ?thesis using up [of u] others [of u] by auto
  next
    case 3
    then show ?thesis using old others [of u] others [of "Suc u"] cells [of "Suc u"] by simp
  qed
next
  show "bdst s' 0 = x" if "bstage s' 0 \<noteq> B_get" using root that by simp
next
  fix w u assume w: "w < n" "bstage s' w \<in> {B_clear, B_return}" and u: "u < n"
  show "entered (bstage s' u)"
  proof (cases "w = v")
    case True
    then show ?thesis using w gate others [of u] u by (cases "u = v") (auto simp: entered_def)
  next
    case False
    then have "bstage s w \<in> {B_clear, B_return}" using w(2) others [of w] by simp
    then have "entered (bstage s u)" using w(1) inv u unfolding chain_inv_def by blast
    then show ?thesis using stay others [of u] by (cases "u = v") simp_all
  qed
qed

lemma link_sent:
  "chain_link x B_flag c st' c' flag buf \<Longrightarrow> st' \<noteq> B_return \<Longrightarrow> st \<in> {B_wait, B_barrier} \<Longrightarrow> chain_link x st (Suc c) st' c' (int c + 1) buf"
  by (auto simp: chain_link_def less_Suc_eq)

lemma link_taken:
  "chain_link x st c B_flag c' flag buf \<Longrightarrow> st' \<in> {B_wait, B_barrier} \<Longrightarrow> chain_link x st c st' (Suc c') flag buf"
  by (auto simp: chain_link_def)

lemma chain_inv_step:
  assumes inv: "chain_inv n num x s" and step: "chain_step n num x s s'"
  shows "chain_inv n num x s'"
  using step
proof cases
  case (chain_pe v)
  have loc: "chain_local n num v (bstage s v) (bchunk s v) (barrived s v)" using inv chain_pe(1) by (simp add: chain_inv_def)
  have down: "chain_link x (bstage s v) (bchunk s v) (bstage s (Suc v)) (bchunk s (Suc v)) (bsync s (Suc v)) (bdst s (Suc v))" if "Suc v < n"
    using inv that by (simp add: chain_inv_def)
  have up: "chain_link x (bstage s u) (bchunk s u) (bstage s v) (bchunk s v) (bsync s v) (bdst s v)" if "v = Suc u" for u
    using inv that chain_pe(1) by (simp add: chain_inv_def)
  have root: "bstage s 0 \<noteq> B_get \<longrightarrow> bdst s 0 = x" using inv by (simp add: chain_inv_def)
  note defs = goto_stage_def chain_loop_def chain_advance_def chain_get_def chain_put_def chain_flag_def chain_clear_def Let_def
    chain_local_def chain_link_def entered_def
  show ?thesis
  proof (cases "bstage s v")
    case B_get
    then have s': "s' = chain_get x num v s" using chain_pe(2) by (simp add: internal_chain_broadcast_def)
    show ?thesis unfolding s' using loc down up root B_get chain_pe(1)
      by (intro chain_inv_intro [OF inv chain_pe(1)]) (auto simp: defs)
  next
    case B_wait
    then have s': "s' = (if Suc v < n then goto_stage v B_put s else chain_advance num v s)" and w: "v = 0 \<or> int (bchunk s v) + 1 \<le> bsync s v"
      using chain_pe(2) by (auto simp: internal_chain_broadcast_def split: if_splits)
    show ?thesis unfolding s' using loc down up root B_wait chain_pe(1) w
      by (intro chain_inv_intro [OF inv chain_pe(1)]) (auto simp: defs)
  next
    case B_put
    have "(if v = 0 then x (bchunk s v) else bdst s v (bchunk s v)) = x (bchunk s v)"
      using up B_put by (cases v) (auto simp: chain_link_def)
    then have s': "s' = goto_stage v B_flag (s\<lparr>bdst := (bdst s)(Suc v := (bdst s (Suc v))(bchunk s v := x (bchunk s v)))\<rparr>)"
      using chain_pe(2) B_put by (simp add: internal_chain_broadcast_def chain_put_def Let_def)
    show ?thesis unfolding s' using loc down up root B_put chain_pe(1)
      by (intro chain_inv_intro [OF inv chain_pe(1)]) (auto simp: defs)
  next
    case B_flag
    then have s': "s' = chain_flag num v s" using chain_pe(2) by (simp add: internal_chain_broadcast_def)
    have "bstage s (Suc v) \<noteq> B_return" if "Suc v < n"
    proof
      assume "bstage s (Suc v) = B_return"
      then have "entered (bstage s v)" using inv that chain_pe(1) unfolding chain_inv_def by blast
      then show False using B_flag by (simp add: entered_def)
    qed
    then have down': "chain_link x st (Suc (bchunk s v)) (bstage s (Suc v)) (bchunk s (Suc v)) (int (bchunk s v) + 1) (bdst s (Suc v))"
      if "Suc v < n" "st \<in> {B_wait, B_barrier}" for st using link_sent [of x "bchunk s v"] down [OF that(1)] B_flag that by simp
    have up': "chain_link x (bstage s u) (bchunk s u) st (Suc (bchunk s v)) (bsync s v) (bdst s v)" if "v = Suc u" "st \<in> {B_wait, B_barrier}" for u st
      using link_taken up [OF that(1)] B_flag that by simp
    have root': "bdst s 0 = x" if "v = 0" using root B_flag that by auto
    show ?thesis
    proof (cases "Suc (bchunk s v) < num")
      case True
      then show ?thesis unfolding s' chain_flag_def chain_advance_def chain_loop_def goto_stage_def using loc down' up' root root' B_flag
        by (intro chain_inv_intro [OF inv chain_pe(1)]) (simp_all add: chain_local_def entered_def)
    next
      case False
      then show ?thesis unfolding s' chain_flag_def chain_advance_def chain_loop_def goto_stage_def using loc down' up' root root' B_flag
        by (intro chain_inv_intro [OF inv chain_pe(1)]) (simp_all add: chain_local_def entered_def)
    qed
  next
    case B_barrier
    then have s': "s' = goto_stage v B_clear s" and all: "\<forall>u<n. barrived s v \<le> barrived s u"
      using chain_pe(2) by (auto simp: internal_chain_broadcast_def split: if_splits)
    have "entered (bstage s u)" if "u < n" for u
    proof -
      have "barrived s u = (if entered (bstage s u) then 1 else 0)" using inv that by (simp add: chain_inv_def chain_local_def)
      moreover have "1 \<le> barrived s u" using all that loc B_barrier by (auto simp: chain_local_def entered_def)
      ultimately show ?thesis by (simp split: if_splits)
    qed
    then show ?thesis unfolding s' using loc down up root B_barrier chain_pe(1)
      by (intro chain_inv_intro [OF inv chain_pe(1)]) (auto simp: defs)
  next
    case B_clear
    then have s': "s' = chain_clear v s" using chain_pe(2) by (simp add: internal_chain_broadcast_def)
    have "entered (bstage s u)" if "u < n" for u using inv that B_clear chain_pe(1) unfolding chain_inv_def by blast
    then show ?thesis unfolding s' using loc down up root B_clear chain_pe(1)
      by (intro chain_inv_intro [OF inv chain_pe(1)]) (auto simp: defs ROCSHMEM_SYNC_VALUE_def)
  next
    case B_return
    then show ?thesis using chain_pe(2) by (simp add: internal_chain_broadcast_def)
  qed
qed

section \<open>Progress\<close>

definition chunk_steps :: "nat \<Rightarrow> nat \<Rightarrow> nat" where
  "chunk_steps n v = (if Suc v < n then 3 else 1)"

definition chain_steps :: "nat \<Rightarrow> nat \<Rightarrow> 'a chain_state \<Rightarrow> nat \<Rightarrow> nat" where
  "chain_steps n num s v =
     bchunk s v * chunk_steps n v +
     (case bstage s v of B_get \<Rightarrow> 0 | B_wait \<Rightarrow> 1 | B_put \<Rightarrow> 2 | B_flag \<Rightarrow> 3 | B_barrier \<Rightarrow> 1 | B_clear \<Rightarrow> 2 | B_return \<Rightarrow> 3)"

definition chain_progress :: "nat \<Rightarrow> nat \<Rightarrow> 'a chain_state \<Rightarrow> nat" where
  "chain_progress n num s = (\<Sum>v<n. chain_steps n num s v)"

lemma chain_progress_step:
  assumes inv: "chain_inv n num x s" and step: "chain_step n num x s s'"
  shows "chain_progress n num s' = Suc (chain_progress n num s)"
  using step
proof cases
  case (chain_pe v)
  have loc: "chain_local n num v (bstage s v) (bchunk s v) (barrived s v)" using inv chain_pe(1) by (simp add: chain_inv_def)
  note defs = internal_chain_broadcast_def goto_stage_def chain_loop_def chain_advance_def chain_get_def chain_put_def chain_flag_def chain_clear_def Let_def
  have "bstage s' u = bstage s u \<and> bchunk s' u = bchunk s u" if "u \<noteq> v" for u
    using chain_pe(2) that by (cases "bstage s v") (auto simp: defs split: if_splits)
  then have "chain_steps n num s' u = chain_steps n num s u" if "u \<noteq> v" for u using that by (simp add: chain_steps_def)
  moreover have "chain_steps n num s' v = Suc (chain_steps n num s v)"
    using chain_pe(2) loc
    by (cases "bstage s v"; cases "Suc v < n"; cases "bchunk s v < num"; cases "Suc (bchunk s v) < num")
      (auto simp: defs chain_steps_def chunk_steps_def chain_local_def entered_def split: if_splits)
  ultimately show ?thesis using chain_pe(1) by (simp add: chain_progress_def sum.remove [of "{..<n}" v])
qed

lemma chain_steps_bound:
  assumes "chain_inv n num x s" "v < n"
  shows "chain_steps n num s v \<le> num * chunk_steps n v + 3 \<and> (chain_steps n num s v = num * chunk_steps n v + 3 \<longleftrightarrow> bstage s v = B_return)"
proof -
  have loc: "chain_local n num v (bstage s v) (bchunk s v) (barrived s v)" using assms by (simp add: chain_inv_def)
  have "Suc (bchunk s v) * chunk_steps n v \<le> num * chunk_steps n v" if "bchunk s v < num" using that by (intro mult_le_mono1) simp
  then show ?thesis using loc
    by (cases "bstage s v") (auto simp: chain_steps_def chain_local_def entered_def chunk_steps_def split: if_splits)
qed

lemma chain_progress_bound:
  assumes "chain_inv n num x s"
  shows "chain_progress n num s \<le> (\<Sum>v<n. num * chunk_steps n v + 3) \<and>
    (chain_progress n num s = (\<Sum>v<n. num * chunk_steps n v + 3) \<longleftrightarrow> chain_done n s)"
  unfolding chain_progress_def chain_done_def using chain_steps_bound [OF assms] by (rule sum_at_bounds)

lemma chain_not_stuck:
  assumes inv: "chain_inv n num x s" and stuck: "\<nexists>s'. chain_step n num x s s'"
  shows "chain_done n s"
proof -
  have none: "internal_chain_broadcast n num x v s = None" if "v < n" for v using stuck chain_pe [OF that] by (metis option.exhaust)
  have loc: "chain_local n num v (bstage s v) (bchunk s v) (barrived s v)" if "v < n" for v using inv that by (simp add: chain_inv_def)
  have ent: "entered (bstage s v)" if "v < n" for v
    using that
  proof (induction v)
    case 0
    then show ?case using none [of 0] by (cases "bstage s 0") (auto simp: internal_chain_broadcast_def entered_def)
  next
    case (Suc v)
    then have "bchunk s v = num" using loc [of v] by (auto simp: chain_local_def)
    moreover have "chain_link x (bstage s v) (bchunk s v) (bstage s (Suc v)) (bchunk s (Suc v)) (bsync s (Suc v)) (bdst s (Suc v))"
      using inv Suc.prems by (simp add: chain_inv_def)
    ultimately show ?case using none [OF Suc.prems] loc [OF Suc.prems]
      by (cases "bstage s (Suc v)") (auto simp: internal_chain_broadcast_def entered_def chain_local_def chain_link_def split: if_splits)
  qed
  then have "barrived s v = 1" if "v < n" for v using loc [OF that] that by (simp add: chain_local_def)
  then have "bstage s v = B_return" if "v < n" for v
    using none [OF that] ent [OF that] that by (cases "bstage s v") (auto simp: internal_chain_broadcast_def entered_def split: if_splits)
  then show ?thesis by (simp add: chain_done_def)
qed

lemma chain_init_progress: "chain_init n s \<Longrightarrow> chain_progress n num s = 0"
  by (simp add: chain_progress_def chain_steps_def chain_init_def)

interpretation chain: progress_system "chain_init (Suc l)" "chain_step (Suc l) num x" "chain_inv (Suc l) num x" "chain_progress (Suc l) num"
  "\<Sum>v<Suc l. num * chunk_steps (Suc l) v + 3" "chain_done (Suc l)" for l num x
proof
  fix s :: "'a chain_state" assume "chain_inv (Suc l) num x s"
  then show "chain_progress (Suc l) num s \<le> (\<Sum>v<Suc l. num * chunk_steps (Suc l) v + 3) \<and>
    (chain_progress (Suc l) num s = (\<Sum>v<Suc l. num * chunk_steps (Suc l) v + 3) \<longleftrightarrow> chain_done (Suc l) s)"
    by (rule chain_progress_bound)
qed (auto intro: chain_inv_init chain_inv_step chain_init_progress chain_progress_step chain_not_stuck)

section \<open>Calls in a row\<close>

text \<open>A member that has returned enters the next call at once.\<close>

definition chain_again :: "nat \<Rightarrow> 'a chain_state \<Rightarrow> 'a chain_state" where
  "chain_again v s = s\<lparr>bchunk := (bchunk s)(v := 0), bstage := (bstage s)(v := B_get)\<rparr>"

definition chain_calls :: "nat \<Rightarrow> nat \<Rightarrow> nat \<Rightarrow> (nat \<Rightarrow> nat \<Rightarrow> 'a) \<Rightarrow> nat \<Rightarrow> 'a chain_state \<Rightarrow> 'a chain_state option" where
  "chain_calls R n num x v s =
     (if bstage s v = B_return then if bcall s v < R then Some (chain_again v s) else None
      else internal_chain_broadcast n num (x (bcall s v)) v s)"

primrec chain_run :: "nat \<Rightarrow> nat \<Rightarrow> nat \<Rightarrow> (nat \<Rightarrow> nat \<Rightarrow> 'a) \<Rightarrow> nat list \<Rightarrow> 'a chain_state \<Rightarrow> 'a chain_state option" where
  "chain_run R n num x [] s = Some s"
| "chain_run R n num x (v # vs) s = Option.bind (chain_calls R n num x v s) (chain_run R n num x vs)"

definition chain_stuck :: "nat \<Rightarrow> nat \<Rightarrow> nat \<Rightarrow> (nat \<Rightarrow> nat \<Rightarrow> 'a) \<Rightarrow> 'a chain_state \<Rightarrow> bool" where
  "chain_stuck R n num x s \<longleftrightarrow> (\<forall>v\<in>set [0..<n]. (case chain_calls R n num x v s of None \<Rightarrow> True | Some _ \<Rightarrow> False) \<and> bcall s v < R)"

definition chain_start :: "'a \<Rightarrow> 'a chain_state" where
  "chain_start a = \<lparr>bdst = (\<lambda>_ _. a), bsync = (\<lambda>_. ROCSHMEM_SYNC_VALUE), bchunk = (\<lambda>_. 0), bstage = (\<lambda>_. B_get), barrived = (\<lambda>_. 0), bcall = (\<lambda>_. 0)\<rparr>"

lemma chain_start_init: "chain_init n (chain_start a)"
  by (simp add: chain_init_def chain_start_def)

text \<open>How the message is cut: \<open>CHUNK_NELEMS\<close> bytes to a chunk.\<close>

definition CHUNK_NELEMS :: nat where "CHUNK_NELEMS = 262144"

definition bcast_chunks :: "nat \<Rightarrow> nat" where
  "bcast_chunks nelems = (nelems + CHUNK_NELEMS - 1) div CHUNK_NELEMS"

definition bcast_chunk :: "nat \<Rightarrow> nat \<Rightarrow> nat \<times> nat" where
  "bcast_chunk nelems chunk = (chunk * CHUNK_NELEMS, min CHUNK_NELEMS (nelems - chunk * CHUNK_NELEMS))"

text \<open>Which of the two algorithms is used.\<close>

definition DIRECT_MAX_BYTES :: nat where "DIRECT_MAX_BYTES = 8 * 1024"

definition uses_chain :: "nat \<Rightarrow> nat \<Rightarrow> bool" where
  "uses_chain pe_size nelems \<longleftrightarrow> \<not> (pe_size \<le> 2 \<or> nelems \<le> DIRECT_MAX_BYTES)"

section \<open>Properties\<close>

text \<open>C7. The chain broadcast delivers. Whatever the interleaving, as soon as one member has returned from the call every member has received every chunk of the root's source. The
  flag of a member that has returned is clear.\<close>

theorem chain_broadcast_delivers:
  assumes "reachable (chain_init n) (chain_step n num x) s" "v < n" "bstage s v = B_return" "u < n" "c < num"
  shows "bdst s u c = x c \<and> (0 < v \<longrightarrow> bsync s v = ROCSHMEM_SYNC_VALUE)"
proof -
  obtain l where n: "n = Suc l" using assms(2) by (cases n) simp_all
  have inv: "chain_inv n num x s" using chain.reachable_inv assms(1) unfolding n by blast
  have ent: "entered (bstage s w)" if "w < n" for w using inv assms(2,3) that unfolding chain_inv_def by blast
  have link: "chain_link x (bstage s w) (bchunk s w) (bstage s (Suc w)) (bchunk s (Suc w)) (bsync s (Suc w)) (bdst s (Suc w))" if "Suc w < n" for w
    using inv that by (simp add: chain_inv_def)
  have "bdst s u c = x c"
  proof (cases u)
    case 0
    then show ?thesis using inv ent [OF assms(4)] by (auto simp: chain_inv_def entered_def)
  next
    case (Suc w)
    have "bchunk s w = num" using inv ent [of w] assms(4) Suc by (simp add: chain_inv_def chain_local_def)
    then show ?thesis using link [of w] assms(4,5) Suc by (auto simp: chain_link_def)
  qed
  moreover have "bsync s v = ROCSHMEM_SYNC_VALUE" if "0 < v"
    using that link [of "v - 1"] assms(2,3) by (simp add: chain_link_def)
  ultimately show ?thesis by simp
qed

theorem chain_broadcast_delivers_witness:
  "\<exists>s. reachable (chain_init 4) (chain_step 4 3 (\<lambda>c. 7 * c)) s \<and> bstage s 0 = B_return \<and> bdst s 3 2 = (14 :: nat)"
proof -
  obtain s where s: "reachable (chain_init 4) (chain_step 4 3 (\<lambda>c. 7 * c :: nat)) s" "chain_done 4 s"
    using chain.runs_to_end [OF chain_start_init, of 3 3 "\<lambda>c. 7 * c :: nat"] by (auto simp: eval_nat_numeral)
  then have "bstage s 0 = B_return" by (simp add: chain_done_def)
  then show ?thesis using s(1) chain_broadcast_delivers [OF s(1), of 0 3 2] by auto
qed

text \<open>The chain broadcast completes. An execution of one call stops only when all members have returned, and every execution reaches that point after
  the same number of steps.\<close>

theorem chain_broadcast_completes:
  assumes "0 < n" "chain_init n s0" "(chain_step n num x ^^ k) s0 s"
  shows "k \<le> (\<Sum>v<n. num * chunk_steps n v + 3) \<and> ((\<nexists>s'. chain_step n num x s s') \<longleftrightarrow> chain_done n s) \<and>
    (chain_done n s \<longleftrightarrow> k = (\<Sum>v<n. num * chunk_steps n v + 3))"
  using gr0_implies_Suc [OF assms(1)] chain.completes assms(2,3) by blast

theorem chain_broadcast_completes_witness:
  "\<exists>s'. chain_step 3 2 (\<lambda>c. c) (chain_start (0 :: nat)) s'"
proof -
  have "\<not> chain_done 3 (chain_start (0 :: nat))" by (auto simp: chain_done_def chain_start_def intro: exI [of _ 0])
  then show ?thesis using chain_broadcast_completes [OF _ chain_start_init, of 3 0 2 "\<lambda>c. c" 0 "chain_start (0 :: nat)"] by fastforce
qed

text \<open>The chunks of the message cover it. The chunks are as many as the code computes, none is empty, and together they hold every byte of the message exactly once.\<close>

theorem bcast_chunks_cover:
  "e < nelems \<longleftrightarrow> (\<exists>!chunk. chunk < bcast_chunks nelems \<and> fst (bcast_chunk nelems chunk) \<le> e \<and>
     e < fst (bcast_chunk nelems chunk) + snd (bcast_chunk nelems chunk))"
proof -
  have in_chunk: "chunk < bcast_chunks nelems \<and> fst (bcast_chunk nelems chunk) \<le> e \<and> e < fst (bcast_chunk nelems chunk) + snd (bcast_chunk nelems chunk)
      \<longleftrightarrow> e < nelems \<and> chunk = e div CHUNK_NELEMS" for chunk
  proof
    assume "e < nelems \<and> chunk = e div CHUNK_NELEMS"
    moreover have "e div CHUNK_NELEMS < bcast_chunks nelems" if "e < nelems"
    proof -
      have "(e + CHUNK_NELEMS) div CHUNK_NELEMS \<le> (nelems + CHUNK_NELEMS - 1) div CHUNK_NELEMS" using that by (intro div_le_mono) simp
      then show ?thesis by (simp add: bcast_chunks_def CHUNK_NELEMS_def)
    qed
    ultimately show "chunk < bcast_chunks nelems \<and> fst (bcast_chunk nelems chunk) \<le> e \<and> e < fst (bcast_chunk nelems chunk) + snd (bcast_chunk nelems chunk)"
      by (auto simp: bcast_chunk_def CHUNK_NELEMS_def)
  next
    assume "chunk < bcast_chunks nelems \<and> fst (bcast_chunk nelems chunk) \<le> e \<and> e < fst (bcast_chunk nelems chunk) + snd (bcast_chunk nelems chunk)"
    then show "e < nelems \<and> chunk = e div CHUNK_NELEMS" by (auto simp: bcast_chunk_def CHUNK_NELEMS_def)
  qed
  then show ?thesis by auto
qed

text \<open>C12. Two chain broadcasts in a row can deadlock. For a message of 9000 bytes in a team of three the chain is used, with one chunk. There is a schedule of two calls after which no member can take a step and none
  has returned from the second call: the root enters the second call and sets the flag of its successor, which has passed the barrier of the first call but not yet cleared the flag.\<close>

theorem chain_broadcast_deadlock:
  "uses_chain 3 9000 \<and> bcast_chunks 9000 = 1 \<and>
   (case chain_run 2 3 1 (\<lambda>_ _. ()) [0, 0, 0, 0, 1, 1, 1, 1, 2, 2, 0, 0, 0, 0, 0, 0, 0, 1, 1, 1, 1, 2, 2, 2, 2] (chain_start ()) of
      None \<Rightarrow> False | Some s \<Rightarrow> chain_stuck 2 3 1 (\<lambda>_ _. ()) s)"
proof (intro conjI)
  show "case chain_run 2 3 1 (\<lambda>_ _. ()) [0, 0, 0, 0, 1, 1, 1, 1, 2, 2, 0, 0, 0, 0, 0, 0, 0, 1, 1, 1, 1, 2, 2, 2, 2] (chain_start ()) of
      None \<Rightarrow> False | Some s \<Rightarrow> chain_stuck 2 3 1 (\<lambda>_ _. ()) s"
    by code_simp
qed (simp_all add: uses_chain_def DIRECT_MAX_BYTES_def bcast_chunks_def CHUNK_NELEMS_def)

end
