(* ===== verification/Das_Puts.thy ===== *)
theory Das_Puts
  imports Ipc_Chain Grid_Index
begin

text \<open>
  The puts of the exchange operations of the DAS build (\<open>src/ipc/context_ipc_tmpl_device_das.hpp\<close>): \<open>alltoall_linear_wg_das\<close>,
  \<open>fcollect_linear_das\<close> and \<open>alltoallv_das\<close>. The peers are divided among the wavefronts of a block, a range of
  elements among the workgroups (\<open>split_wg_range\<close>), and large transfers are cut into chunks. The theorems show that all wavefronts and
  workgroups together move every element exactly once, and where they move it.
\<close>

section \<open>Puts\<close>

text \<open>\<open>Wave_put d s m r\<close> puts the \<open>m\<close> elements from index \<open>s\<close> of the source to index \<open>d\<close> of the destination of the member of rank \<open>r\<close>.\<close>

datatype wave_put = Wave_put nat nat nat nat

fun put_elems :: "wave_put \<Rightarrow> (nat \<times> nat \<times> nat) list" where
  "put_elems (Wave_put d s m r) = map (\<lambda>i. (r, s + i, d + i)) [0..<m]"

definition elems_moved :: "wave_put list \<Rightarrow> (nat \<times> nat \<times> nat) multiset" where
  "elems_moved puts = mset (concat (map put_elems puts))"

definition norm_count :: "int \<Rightarrow> nat \<Rightarrow> nat" where
  "norm_count elem_count nelems = (if elem_count < 0 then nelems else nat elem_count)"

definition CHUNK_ELEMS :: "nat \<Rightarrow> nat" where
  "CHUNK_ELEMS elem_size = 262144 div elem_size"

text \<open>The loops that the all-to-all and the fcollect share: \<open>d\<close> is the index of the destination, \<open>s j\<close> that of the source for the member \<open>j\<close>.\<close>

definition linear_puts :: "nat \<Rightarrow> nat \<Rightarrow> nat \<Rightarrow> nat \<Rightarrow> (nat \<Rightarrow> nat) \<Rightarrow> nat \<Rightarrow> nat \<Rightarrow> wave_put list" where
  "linear_puts chunk len pe_size d s wf_count wf_id =
     (if \<not> chunk < len then map (\<lambda>j. Wave_put d (s j) len j) (strided wf_id pe_size wf_count)
      else concat (map (\<lambda>c_start. let c_end = min (c_start + chunk) len; c_nelems = c_end - c_start
             in map (\<lambda>j. Wave_put (d + c_start) (s j + c_start) c_nelems j) (strided wf_id pe_size wf_count)) (strided 0 len chunk)))"

definition alltoall_linear_wg_das :: "nat \<Rightarrow> nat \<Rightarrow> nat \<Rightarrow> nat \<Rightarrow> nat \<Rightarrow> int \<Rightarrow> nat \<Rightarrow> nat \<Rightarrow> wave_put list" where
  "alltoall_linear_wg_das elem_size pe_size my_pe_in_team nelems elem_offset elem_count wf_count wf_id =
     linear_puts (CHUNK_ELEMS elem_size) (norm_count elem_count nelems) pe_size (my_pe_in_team * nelems + elem_offset)
       (\<lambda>j. j * nelems + elem_offset) wf_count wf_id"

definition fcollect_linear_das :: "nat \<Rightarrow> nat \<Rightarrow> nat \<Rightarrow> nat \<Rightarrow> nat \<Rightarrow> int \<Rightarrow> nat \<Rightarrow> nat \<Rightarrow> wave_put list" where
  "fcollect_linear_das elem_size pe_size my_pe_in_team nelems elem_offset elem_count wf_count wf_id =
     linear_puts (CHUNK_ELEMS elem_size) (norm_count elem_count nelems) pe_size (my_pe_in_team * nelems + elem_offset)
       (\<lambda>j. elem_offset) wf_count wf_id"

text \<open>The test of \<open>alltoallv_das\<close> for equal counts and packed displacements, and its general path.\<close>

definition uniform_alltoallv :: "nat \<Rightarrow> (nat \<Rightarrow> nat) \<Rightarrow> (nat \<Rightarrow> nat) \<Rightarrow> (nat \<Rightarrow> nat) \<Rightarrow> (nat \<Rightarrow> nat) \<Rightarrow> bool" where
  "uniform_alltoallv pe_size dest_nelems dest_displs source_nelems source_displs \<longleftrightarrow>
     (let uniform_count = source_nelems 0 in uniform_count = dest_nelems 0 \<and>
      (\<forall>rank\<in>set [0..<pe_size]. source_nelems rank = uniform_count \<and> dest_nelems rank = uniform_count \<and>
         source_displs rank = rank * uniform_count \<and> dest_displs rank = rank * uniform_count))"

definition alltoallv_puts :: "nat \<Rightarrow> nat \<Rightarrow> (nat \<Rightarrow> nat) \<Rightarrow> (nat \<Rightarrow> nat) \<Rightarrow> (nat \<Rightarrow> nat) \<Rightarrow> nat \<Rightarrow> nat \<Rightarrow> nat \<Rightarrow> nat \<Rightarrow> wave_put list" where
  "alltoallv_puts pe_size my_rank dest_displs source_nelems source_displs wg_id wg_count num_waves wave_id =
     concat (map (\<lambda>remote_rank. case split_wg_range (source_nelems remote_rank) wg_id wg_count of (elem_offset, elem_count) \<Rightarrow>
         if elem_count = 0 then []
         else [Wave_put (dest_displs my_rank + elem_offset) (source_displs remote_rank + elem_offset) elem_count remote_rank])
       (strided wave_id pe_size num_waves))"

text \<open>The puts of a whole workgroup of \<open>bs\<close> threads: the wavefronts of 64 threads one after the other, or, for a share of fewer than 512 bytes, the
  threads one after the other (the chip has no SDMA engine in this model).\<close>

definition num_waves :: "nat \<Rightarrow> nat" where
  "num_waves bs = (bs + 64 - 1) div 64"

definition wg_puts :: "nat \<Rightarrow> (nat \<Rightarrow> nat \<Rightarrow> wave_put list) \<Rightarrow> wave_put list" where
  "wg_puts bs puts = concat (map (puts (num_waves bs)) [0..<num_waves bs])"

definition alltoall_linear_thread_puts_das :: "nat \<Rightarrow> nat \<Rightarrow> nat \<Rightarrow> nat \<Rightarrow> int \<Rightarrow> nat \<Rightarrow> nat \<Rightarrow> wave_put list" where
  "alltoall_linear_thread_puts_das pe_size my_pe_in_team nelems elem_offset elem_count bs tid =
     (let step_size = min bs 64 in map (\<lambda>j. Wave_put (my_pe_in_team * nelems + elem_offset) (j * nelems + elem_offset) (norm_count elem_count nelems) j)
        (strided tid pe_size step_size))"

definition alltoall_wg_das :: "nat \<Rightarrow> nat \<Rightarrow> nat \<Rightarrow> nat \<Rightarrow> nat \<Rightarrow> nat \<Rightarrow> int \<Rightarrow> wave_put list" where
  "alltoall_wg_das bs elem_size pe_size my_pe nelems elem_offset elem_count =
     (let n_elems = norm_count elem_count nelems
      in if elem_size * n_elems < 512
         then concat (map (alltoall_linear_thread_puts_das pe_size my_pe nelems elem_offset (int n_elems) bs) [0..<bs])
         else wg_puts bs (alltoall_linear_wg_das elem_size pe_size my_pe nelems elem_offset (int n_elems)))"

definition alltoallv_das ::
  "nat \<Rightarrow> nat \<Rightarrow> nat \<Rightarrow> nat \<Rightarrow> (nat \<Rightarrow> nat) \<Rightarrow> (nat \<Rightarrow> nat) \<Rightarrow> (nat \<Rightarrow> nat) \<Rightarrow> (nat \<Rightarrow> nat) \<Rightarrow> nat \<Rightarrow> nat \<Rightarrow> wave_put list" where
  "alltoallv_das bs elem_size pe_size my_rank dest_nelems dest_displs source_nelems source_displs wg_id wg_count =
     (if uniform_alltoallv pe_size dest_nelems dest_displs source_nelems source_displs
      then case split_wg_range (source_nelems 0) wg_id wg_count of (elem_offset, elem_count) \<Rightarrow>
             alltoall_wg_das bs elem_size pe_size my_rank (source_nelems 0) elem_offset (int elem_count)
      else wg_puts bs (alltoallv_puts pe_size my_rank dest_displs source_nelems source_displs wg_id wg_count))"

section \<open>Counting the elements\<close>

lemma elems_moved_simps [simp]:
  "elems_moved [] = {#}" "elems_moved (p # ps) = mset (put_elems p) + elems_moved ps" "elems_moved (ps @ qs) = elems_moved ps + elems_moved qs"
  by (simp_all add: elems_moved_def)

lemma elems_moved_concat: "elems_moved (concat pss) = sum_list (map elems_moved pss)"
  by (induction pss) simp_all

lemma sum_list_mset:
  fixes h :: "'b \<Rightarrow> 'c multiset"
  shows "sum_list (map h xs) = sum_mset (image_mset h (mset xs))"
  by (induction xs) simp_all

text \<open>All wavefronts together visit every member once.\<close>

lemma waves_visit:
  fixes h :: "nat \<Rightarrow> 'c multiset"
  assumes "0 < W"
  shows "sum_list (map (\<lambda>w. sum_list (map h (strided w n W))) [0..<W]) = sum_list (map h [0..<n])"
proof -
  have "sum_list (map (\<lambda>w. sum_list (map h (strided w n W))) xs) = sum_mset (image_mset h (mset (concat (map (\<lambda>w. strided w n W) xs))))" for xs
    by (induction xs) (simp_all add: sum_list_mset)
  then have "sum_list (map (\<lambda>w. sum_list (map h (strided w n W))) [0..<W]) = sum_mset (image_mset h (mset [0..<n]))"
    by (simp only: mset_strided [OF assms, of n])
  then show ?thesis by (simp only: sum_list_mset)
qed

text \<open>The chunks of a range, one after the other, are the range.\<close>

lemma chunk_ranges:
  assumes "0 < chunk"
  shows "concat (map (\<lambda>c. [c..<min (c + chunk) len]) (strided a len chunk)) = [a..<len]"
proof (induction "len - a" arbitrary: a rule: less_induct)
  case less
  show ?case
  proof (cases "a < len")
    case True
    then have "concat (map (\<lambda>c. [c..<min (c + chunk) len]) (strided (a + chunk) len chunk)) = [a + chunk..<len]"
      using less [of "a + chunk"] assms by simp
    moreover have "[a..<len] = [a..<min (a + chunk) len] @ [a + chunk..<len]"
      using upt_add_eq_append [of a "a + chunk" "len - (a + chunk)"] by (cases "a + chunk \<le> len") (simp_all add: min_def)
    ultimately show ?thesis using True assms by (subst strided.simps) simp
  qed (use assms in \<open>subst strided.simps, simp\<close>)
qed

lemma sum_list_swap:
  fixes f :: "'b \<Rightarrow> 'd \<Rightarrow> 'c multiset"
  shows "sum_list (map (\<lambda>x. sum_list (map (f x) ys)) xs) = sum_list (map (\<lambda>y. sum_list (map (\<lambda>x. f x y) xs)) ys)"
  by (induction xs) (simp_all add: sum_list_addf)

lemma elems_moved_map: "elems_moved (map g xs) = sum_list (map (\<lambda>x. mset (put_elems (g x))) xs)"
  by (induction xs) simp_all

lemma put_elems_range:
  "a \<le> b \<Longrightarrow> put_elems (Wave_put (d + a) (s + a) (b - a) r) = map (\<lambda>i. (r, s + i, d + i)) [a..<b]"
  by (auto simp: list_eq_iff_nth_eq ac_simps)

text \<open>A chunked transfer moves to each member what one put would.\<close>

lemma chunked_block:
  assumes "0 < chunk"
  shows "sum_list (map (\<lambda>c. mset (put_elems (Wave_put (d + c) (s + c) (min (c + chunk) len - c) r))) (strided 0 len chunk))
    = mset (put_elems (Wave_put d s len r))"
proof -
  have "sum_list (map (\<lambda>c. mset (map h [c..<min (c + chunk) len])) cs) = mset (map h (concat (map (\<lambda>c. [c..<min (c + chunk) len]) cs)))" for h :: "nat \<Rightarrow> nat \<times> nat \<times> nat" and cs
    by (induction cs) simp_all
  moreover have "put_elems (Wave_put (d + c) (s + c) (min (c + chunk) len - c) r) = map (\<lambda>i. (r, s + i, d + i)) [c..<min (c + chunk) len]"
    if "c \<in> set (strided 0 len chunk)" for c
    using that assms by (intro put_elems_range) (auto simp: set_strided)
  ultimately show ?thesis using chunk_ranges [OF assms, of len 0] by (simp cong: map_cong del: put_elems.simps) simp
qed

lemma linear_puts_wave:
  assumes "0 < chunk"
  shows "elems_moved (linear_puts chunk len n d s W w) = sum_list (map (\<lambda>j. mset (put_elems (Wave_put d (s j) len j))) (strided w n W))"
proof (cases "chunk < len")
  case True
  then have "elems_moved (linear_puts chunk len n d s W w)
    = sum_list (map (\<lambda>c. sum_list (map (\<lambda>j. mset (put_elems (Wave_put (d + c) (s j + c) (min (c + chunk) len - c) j))) (strided w n W))) (strided 0 len chunk))"
    by (simp add: linear_puts_def elems_moved_concat elems_moved_map comp_def Let_def del: put_elems.simps)
  also have "\<dots> = sum_list (map (\<lambda>j. mset (put_elems (Wave_put d (s j) len j))) (strided w n W))"
    by (subst sum_list_swap) (simp only: chunked_block [OF assms])
  finally show ?thesis .
qed (simp add: linear_puts_def elems_moved_map del: put_elems.simps)

lemma num_waves_pos: "0 < bs \<Longrightarrow> 0 < num_waves bs"
  by (simp add: num_waves_def div_greater_zero_iff)

lemma linear_puts_wg:
  assumes "0 < chunk" "0 < bs"
  shows "elems_moved (wg_puts bs (linear_puts chunk len n d s)) = sum_list (map (\<lambda>j. mset (put_elems (Wave_put d (s j) len j))) [0..<n])"
  using waves_visit [OF num_waves_pos [OF assms(2)]]
  by (simp only: wg_puts_def elems_moved_concat map_map comp_def linear_puts_wave [OF assms(1)])

text \<open>The shares of the workgroups together are the block.\<close>

lemma shares_block:
  assumes "0 < W"
  shows "sum_list (map (\<lambda>w. case split_wg_range tot w W of (off, num) \<Rightarrow> mset (put_elems (Wave_put (d + off) (s + off) num r))) [0..<W])
    = mset (put_elems (Wave_put d s tot r))"
proof -
  have "sum_list (map (\<lambda>w. case split_wg_range tot w W of (off, num) \<Rightarrow> mset (put_elems (Wave_put (d + off) (s + off) num r))) [0..<v])
    = mset (map (\<lambda>i. (r, s + i, d + i)) [0..<share_off tot W v])" for v
  proof (induction v)
    case (Suc v)
    have le: "share_off tot W v \<le> share_off tot W (Suc v)" using mono_share_off by (simp add: monoD)
    then have "[0..<share_off tot W (Suc v)] = [0..<share_off tot W v] @ [share_off tot W v..<share_off tot W (Suc v)]"
      using upt_add_eq_append [of 0 "share_off tot W v" "share_off tot W (Suc v) - share_off tot W v"] by simp
    then show ?case using Suc le by (simp add: split_wg_range_share put_elems_range del: put_elems.simps)
  qed simp
  from this [of W] show ?thesis using assms by simp
qed

lemma CHUNK_ELEMS_pos: "0 < elem_size \<Longrightarrow> elem_size \<le> 262144 \<Longrightarrow> 0 < CHUNK_ELEMS elem_size"
  by (simp add: CHUNK_ELEMS_def div_greater_zero_iff)

lemma norm_count_int [simp]: "norm_count (int c) n = c"
  by (simp add: norm_count_def)

lemma linear_puts_split:
  assumes "0 < chunk" "0 < bs" "0 < W"
  shows "elems_moved (concat (map (\<lambda>w. case split_wg_range tot w W of (off, num) \<Rightarrow>
       wg_puts bs (linear_puts chunk num n (d + off) (\<lambda>j. s j + off))) [0..<W]))
    = mset (concat (map (\<lambda>j. put_elems (Wave_put d (s j) tot j)) [0..<n]))"
proof -
  have "elems_moved (concat (map (\<lambda>w. case split_wg_range tot w W of (off, num) \<Rightarrow>
       wg_puts bs (linear_puts chunk num n (d + off) (\<lambda>j. s j + off))) [0..<W]))
    = sum_list (map (\<lambda>w. sum_list (map (\<lambda>j. case split_wg_range tot w W of (off, num) \<Rightarrow> mset (put_elems (Wave_put (d + off) (s j + off) num j))) [0..<n])) [0..<W])"
    by (simp only: elems_moved_concat map_map comp_def split_wg_range_share prod.case linear_puts_wg [OF assms(1,2)])
  also have "\<dots> = sum_list (map (\<lambda>j. mset (put_elems (Wave_put d (s j) tot j))) [0..<n])"
    by (subst sum_list_swap) (simp only: shares_block [OF assms(3)])
  also have "\<dots> = mset (concat (map (\<lambda>j. put_elems (Wave_put d (s j) tot j)) [0..<n]))"
    by (simp only: mset_concat map_map comp_def)
  finally show ?thesis .
qed



section \<open>All-to-all with counts and displacements\<close>

definition moved_to :: "wave_put list \<Rightarrow> (nat \<times> nat \<times> nat) set" where
  "moved_to puts = set_mset (elems_moved puts)"

lemma moved_to_simps [simp]:
  "moved_to [] = {}" "moved_to (p # ps) = set (put_elems p) \<union> moved_to ps" "moved_to (ps @ qs) = moved_to ps \<union> moved_to qs"
  by (simp_all add: moved_to_def)

lemma moved_to_concat: "moved_to (concat pss) = (\<Union>ps\<in>set pss. moved_to ps)"
  by (induction pss) simp_all

lemma moved_to_map: "moved_to (map g xs) = (\<Union>x\<in>set xs. set (put_elems (g x)))"
  by (induction xs) simp_all

lemma set_put_elems: "set (put_elems (Wave_put d s m r)) = {(r, s + i, d + i) |i. i < m}"
  by auto

text \<open>What the threads or wavefronts move, as a union over the members.\<close>

lemma union_strided:
  assumes "0 < st" "st \<le> T"
  shows "(\<Union>t\<in>set [0..<T]. \<Union>j\<in>set (strided t n st). f j) = (\<Union>j<n. f j)"
proof -
  have "(\<Union>t\<in>set [0..<T]. set (strided t n st)) = {..<n}"
  proof (intro equalityI subsetI)
    fix j
    assume "j \<in> {..<n}"
    then obtain t where "t < st" "j \<in> set (strided t n st)" using strided_partition [OF assms(1), of n] by blast
    then show "j \<in> (\<Union>t\<in>set [0..<T]. set (strided t n st))" using assms(2) by (intro UN_I [of t]) simp_all
  qed (use set_strided [OF assms(1)] in auto)
  then show ?thesis by blast
qed

lemma alltoall_threads_moved:
  assumes "0 < bs"
  shows "moved_to (concat (map (alltoall_linear_thread_puts_das pe_size me nelems off (int c) bs) [0..<bs]))
    = (\<Union>j<pe_size. set (put_elems (Wave_put (me * nelems + off) (j * nelems + off) c j)))"
  unfolding alltoall_linear_thread_puts_das_def [abs_def] moved_to_concat Let_def norm_count_int set_map image_image moved_to_map
  using assms by (intro union_strided) simp_all

lemma set_mset_blocks: "set_mset (sum_list (map (\<lambda>j. mset (h j)) xs)) = (\<Union>j\<in>set xs. set (h j))"
  by (induction xs) simp_all

lemma alltoall_wg_moved:
  assumes "0 < bs" "0 < elem_size" "elem_size \<le> 262144"
  shows "moved_to (alltoall_wg_das bs elem_size pe_size me nelems off (int c))
    = (\<Union>j<pe_size. set (put_elems (Wave_put (me * nelems + off) (j * nelems + off) c j)))"
proof (cases "elem_size * c < 512")
  case False
  have "moved_to (wg_puts bs (alltoall_linear_wg_das elem_size pe_size me nelems off (int c)))
    = (\<Union>j\<in>set [0..<pe_size]. set (put_elems (Wave_put (me * nelems + off) (j * nelems + off) c j)))"
    unfolding moved_to_def alltoall_linear_wg_das_def [abs_def] norm_count_int
    by (simp only: linear_puts_wg [OF CHUNK_ELEMS_pos [OF assms(2,3)] assms(1)] set_mset_blocks)
  then show ?thesis using False by (simp add: alltoall_wg_das_def atLeast_upt del: put_elems.simps set_upt)
next
  case True
  show ?thesis unfolding alltoall_wg_das_def Let_def norm_count_int if_P [OF True] by (rule alltoall_threads_moved [OF assms(1)])
qed

lemma alltoallv_puts_moved:
  assumes "0 < bs"
  shows "moved_to (wg_puts bs (alltoallv_puts pe_size me dest_displs source_nelems source_displs w W))
    = (\<Union>j<pe_size. case split_wg_range (source_nelems j) w W of (off, num) \<Rightarrow> set (put_elems (Wave_put (dest_displs me + off) (source_displs j + off) num j)))"
proof -
  have one: "moved_to (case x of (off, num) \<Rightarrow> if num = 0 then [] else [Wave_put (d + off) (s + off) num j])
    = (case x of (off, num) \<Rightarrow> set (put_elems (Wave_put (d + off) (s + off) num j)))" for x d s j
    by (simp split: prod.split)
  show ?thesis
    unfolding wg_puts_def alltoallv_puts_def [abs_def] moved_to_concat set_map image_image one
    by (intro union_strided) (use num_waves_pos [OF assms] in simp_all)
qed

text \<open>All workgroups together.\<close>

lemma shares_moved:
  assumes "0 < W"
  shows "(\<Union>w\<in>set [0..<W]. case split_wg_range tot w W of (off, num) \<Rightarrow> set (put_elems (Wave_put (d + off) (s + off) num r)))
    = {(r, s + k, d + k) |k. k < tot}"
proof -
  have "set_mset (sum_list (map (\<lambda>w. case split_wg_range tot w W of (off, num) \<Rightarrow> mset (put_elems (Wave_put (d + off) (s + off) num r))) xs))
    = (\<Union>w\<in>set xs. case split_wg_range tot w W of (off, num) \<Rightarrow> set (put_elems (Wave_put (d + off) (s + off) num r)))" for xs
    by (induction xs) (simp_all split: prod.split del: put_elems.simps)
  from this [of "[0..<W]"] show ?thesis by (simp only: shares_block [OF assms] set_mset_mset set_put_elems)
qed

lemma alltoallv_das_moved:
  assumes "0 < bs" "0 < elem_size" "elem_size \<le> 262144" "me < pe_size"
  shows "moved_to (alltoallv_das bs elem_size pe_size me dest_nelems dest_displs source_nelems source_displs w W)
    = (\<Union>j<pe_size. case split_wg_range (source_nelems j) w W of (off, num) \<Rightarrow> set (put_elems (Wave_put (dest_displs me + off) (source_displs j + off) num j)))"
proof (cases "uniform_alltoallv pe_size dest_nelems dest_displs source_nelems source_displs")
  case True
  then have "\<forall>j\<in>set [0..<pe_size]. source_nelems j = source_nelems 0 \<and> source_displs j = j * source_nelems 0 \<and> dest_displs j = j * source_nelems 0"
    unfolding uniform_alltoallv_def Let_def by blast
  then have eq: "source_nelems j = source_nelems 0" "source_displs j = j * source_nelems 0" "dest_displs j = j * source_nelems 0" if "j < pe_size" for j
    unfolding set_upt using that by (metis atLeastLessThan_iff le0)+
  show ?thesis
    unfolding alltoallv_das_def if_P [OF True] split_wg_range_share prod.case alltoall_wg_moved [OF assms(1-3)] eq(3) [OF assms(4)]
  proof (intro SUP_cong refl)
    fix j
    assume "j \<in> {..<pe_size}"
    then have "source_nelems j = source_nelems 0" "source_displs j = j * source_nelems 0" using eq by (blast dest: lessThan_iff [THEN iffD1])+
    then show "set (put_elems (Wave_put (me * source_nelems 0 + share_off (source_nelems 0) W w) (j * source_nelems 0 + share_off (source_nelems 0) W w)
          (share_off (source_nelems 0) W (Suc w) - share_off (source_nelems 0) W w) j))
      = set (put_elems (Wave_put (me * source_nelems 0 + share_off (source_nelems j) W w) (source_displs j + share_off (source_nelems j) W w)
          (share_off (source_nelems j) W (Suc w) - share_off (source_nelems j) W w) j))" by (simp only:)
  qed
next
  case False
  show ?thesis unfolding alltoallv_das_def if_not_P [OF False] by (rule alltoallv_puts_moved [OF assms(1)])
qed

text \<open>The workgroups of a member together.\<close>

definition alltoallv_member ::
  "nat \<Rightarrow> nat \<Rightarrow> nat \<Rightarrow> (nat \<Rightarrow> nat) \<Rightarrow> (nat \<Rightarrow> nat) \<Rightarrow> (nat \<Rightarrow> nat) \<Rightarrow> (nat \<Rightarrow> nat) \<Rightarrow> nat \<Rightarrow> nat \<Rightarrow> wave_put list" where
  "alltoallv_member bs elem_size pe_size dest_nelems dest_displs source_nelems source_displs W me =
     concat (map (\<lambda>w. alltoallv_das bs elem_size pe_size me dest_nelems dest_displs source_nelems source_displs w W) [0..<W])"

lemma alltoallv_member_moved:
  assumes "0 < bs" "0 < elem_size" "elem_size \<le> 262144" "me < pe_size" "0 < W"
  shows "moved_to (alltoallv_member bs elem_size pe_size dest_nelems dest_displs source_nelems source_displs W me)
    = {(j, source_displs j + k, dest_displs me + k) |j k. j < pe_size \<and> k < source_nelems j}"
proof -
  have "moved_to (alltoallv_member bs elem_size pe_size dest_nelems dest_displs source_nelems source_displs W me)
    = (\<Union>j<pe_size. \<Union>w\<in>set [0..<W]. case split_wg_range (source_nelems j) w W of (off, num) \<Rightarrow> set (put_elems (Wave_put (dest_displs me + off) (source_displs j + off) num j)))"
    unfolding alltoallv_member_def moved_to_concat set_map image_image alltoallv_das_moved [OF assms(1-4)] by (rule SUP_commute)
  then show ?thesis unfolding shares_moved [OF assms(5)] by blast
qed

text \<open>C21. Where \<open>alltoallv_das\<close> puts the data of a team: the call of member \<open>i\<close> puts element \<open>k\<close> of its block for member \<open>r\<close> at element \<open>dest_displs i i + k\<close>
  of the destination of \<open>r\<close>, using the caller's own displacement. The documented position, \<open>dest_displs r i + k\<close>, which the
  receiver states, is reached for every member and every element exactly when the displacements agree wherever data are sent; so with
  receive displacements that differ from member to member the data are misplaced.\<close>

theorem alltoallv_das_placement:
  assumes "0 < bs" "0 < elem_size" "elem_size \<le> 262144" "0 < W"
  shows "(\<forall>i<n. moved_to (alltoallv_member bs elem_size n (dest_nelems i) (dest_displs i) (source_nelems i) (source_displs i) W i)
            = {(r, source_displs i r + k, dest_displs i i + k) |r k. r < n \<and> k < source_nelems i r})
    \<and> ((\<forall>i<n. moved_to (alltoallv_member bs elem_size n (dest_nelems i) (dest_displs i) (source_nelems i) (source_displs i) W i)
            = {(r, source_displs i r + k, dest_displs r i + k) |r k. r < n \<and> k < source_nelems i r})
        \<longleftrightarrow> (\<forall>i<n. \<forall>r<n. 0 < source_nelems i r \<longrightarrow> dest_displs i i = dest_displs r i))"
proof -
  have moved: "moved_to (alltoallv_member bs elem_size n (dest_nelems i) (dest_displs i) (source_nelems i) (source_displs i) W i)
     = {(r, source_displs i r + k, dest_displs i i + k) |r k. r < n \<and> k < source_nelems i r}" if "i < n" for i
    using alltoallv_member_moved [OF assms(1-3) that assms(4)] .
  have agree: "{(r, source_displs i r + k, dest_displs i i + k) |r k. r < n \<and> k < source_nelems i r}
      = {(r, source_displs i r + k, dest_displs r i + k) |r k. r < n \<and> k < source_nelems i r}
    \<longleftrightarrow> (\<forall>r<n. 0 < source_nelems i r \<longrightarrow> dest_displs i i = dest_displs r i)" (is "?A = ?B \<longleftrightarrow> ?C") for i
  proof
    assume eq: "?A = ?B"
    show ?C
    proof (intro allI impI)
      fix r
      assume "r < n" "0 < source_nelems i r"
      then have "(r, source_displs i r + 0, dest_displs i i + 0) \<in> ?A" by blast
      then show "dest_displs i i = dest_displs r i" unfolding eq by auto
    qed
  next
    assume ?C
    then have "dest_displs i i = dest_displs r i" if "r < n" "k < source_nelems i r" for r k using that by (metis not_less_zero gr0I)
    then show "?A = ?B" by (intro Collect_cong iff_exI) metis
  qed
  show ?thesis by (simp only: moved agree simp_thms cong: imp_cong)
qed

text \<open>Two members: each sends one element to the other and none to itself, and member 1 wants what it receives from 0 at its element 0,
  while member 0, which receives one element from 1 only, has its own displacement 0 at element 1.\<close>

theorem alltoallv_das_placement_witness:
  "\<exists>dest_displs :: nat \<Rightarrow> nat \<Rightarrow> nat. \<exists>source_nelems :: nat \<Rightarrow> nat \<Rightarrow> nat.
     moved_to (alltoallv_member 64 4 2 (\<lambda>j. source_nelems j 0) (dest_displs 0) (source_nelems 0) (\<lambda>r. 0) 1 0) = {(1, 0, 1)}
     \<and> dest_displs 1 0 = 0 \<and> 0 < source_nelems 0 1"
proof -
  define dd :: "nat \<Rightarrow> nat \<Rightarrow> nat" where "dd i r = (if i = r then 1 else 0)" for i r
  define sn :: "nat \<Rightarrow> nat \<Rightarrow> nat" where "sn i r = (if i = r then 0 else 1)" for i r
  have "moved_to (alltoallv_member 64 4 2 (\<lambda>j. sn j 0) (dd 0) (sn 0) (\<lambda>r. 0) 1 0) = {(r, 0 + k, dd 0 0 + k) |r k. r < 2 \<and> k < sn 0 r}"
    using alltoallv_das_placement [where bs = 64 and elem_size = 4 and W = 1 and n = 2 and dest_nelems = "\<lambda>i j. sn j i" and dest_displs = dd
      and source_nelems = sn and source_displs = "\<lambda>i r. 0"] by simp
  moreover have "r < 2 \<and> k < sn 0 r \<longleftrightarrow> r = 1 \<and> k = 0" for r k by (cases "r = 0") (simp_all add: sn_def, linarith)
  moreover have "dd 0 0 = 1" by (simp add: dd_def)
  ultimately have "moved_to (alltoallv_member 64 4 2 (\<lambda>j. sn j 0) (dd 0) (sn 0) (\<lambda>r. 0) 1 0) = {(1, 0, 1)}" by simp
  then show ?thesis by (intro exI [of _ dd] exI [of _ sn]) (simp add: dd_def sn_def)
qed

end
