(* ===== verification/Spec2Isabelle.thy ===== *)
theory Spec2Isabelle
  imports Team_Pool Abql_Mutex Free_List Wf_Queue Grid_Index Symm_Regions Ipc_Policy Ro_Context Ro_Queue Mpi_Transport Das_Puts
begin

text \<open>
  A verification development for the rocSHMEM communication library.
\<close>

end
